(* ===== verification/Sprite_Prelude.thy ===== *)
theory Sprite_Prelude
  imports Main "HOL-Library.Word"
begin

text \<open>
  Shared vocabulary of the development: the machine integers of the i386 target, the outcomes of
  kernel code that can stop (an assertion that fails, an access outside an array, a null pointer
  that is followed), arrays with their bound, and the lemmas on words, lists and outcomes that
  the component theories use.
\<close>

unbundle bit_operations_syntax

section \<open>Machine integers\<close>

type_synonym u8 = "8 word"
type_synonym u16 = "16 word"
type_synonym u32 = "32 word"

text \<open>A byte written to an I/O port by \<open>outb\<close>.\<close>

type_synonym port_write = "u16 \<times> u8"

named_theorems result_simps \<open>rewriting of outcomes\<close>
named_theorems unat_simps \<open>reading words as natural numbers\<close>

section \<open>Outcomes\<close>

text \<open>
  \<open>AssertFail msg\<close> stands for the macro \<open>assert\<close> of \<open>debug.h\<close> with a false condition, which
  prints the message and spins for ever. \<open>OutOfBounds\<close> is an access outside an array or object,
  \<open>NullDeref\<close> one through a null pointer, \<open>DivideError\<close> an integer division by zero: all are
  undefined in C++, so a model that goes on would claim too much.
\<close>

datatype fault = AssertFail string | OutOfBounds | NullDeref | DivideError

type_synonym 'a result = "fault + 'a"

definition rbind :: "'a result \<Rightarrow> ('a \<Rightarrow> 'b result) \<Rightarrow> 'b result" where
  "rbind m f = (case m of Inl e \<Rightarrow> Inl e | Inr x \<Rightarrow> f x)"

definition assert_that :: "bool \<Rightarrow> string \<Rightarrow> unit result" where
  "assert_that c msg = (if c then Inr () else Inl (AssertFail msg))"

lemma rbind_Inl [simp, result_simps]: "rbind (Inl e) f = Inl e"
  by (simp add: rbind_def)

lemma rbind_Inr [simp, result_simps]: "rbind (Inr x) f = f x"
  by (simp add: rbind_def)

lemma rbind_eq_Inr_iff [result_simps]:
  "rbind m f = Inr y \<longleftrightarrow> (\<exists>x. m = Inr x \<and> f x = Inr y)"
  by (cases m) auto

lemma rbind_eq_Inl_iff [result_simps]:
  "rbind m f = Inl e \<longleftrightarrow> m = Inl e \<or> (\<exists>x. m = Inr x \<and> f x = Inl e)"
  by (cases m) auto

lemma rbind_cong [fundef_cong]:
  "m = m' \<Longrightarrow> (\<And>x. m' = Inr x \<Longrightarrow> f x = g x) \<Longrightarrow> rbind m f = rbind m' g"
  by (cases m') auto

lemma rbind_assoc: "rbind (rbind m f) g = rbind m (\<lambda>x. rbind (f x) g)"
  by (cases m) auto

text \<open>Sequencing of code that may also run for ever, which is \<open>None\<close>.\<close>

definition robind :: "'a result option \<Rightarrow> ('a \<Rightarrow> 'b result option) \<Rightarrow> 'b result option" where
  "robind m f = (case m of None \<Rightarrow> None | Some (Inl e) \<Rightarrow> Some (Inl e) | Some (Inr x) \<Rightarrow> f x)"

lemma robind_simps [simp, result_simps]:
  "robind None f = None" "robind (Some (Inl e)) f = Some (Inl e)" "robind (Some (Inr x)) f = f x"
  by (simp_all add: robind_def)

lemma robind_eq_Inr_iff [result_simps]:
  "robind m f = Some (Inr y) \<longleftrightarrow> (\<exists>x. m = Some (Inr x) \<and> f x = Some (Inr y))"
  by (auto simp: robind_def split: option.split sum.split)

lemma robind_cong [fundef_cong]:
  "m = m' \<Longrightarrow> (\<And>x. m' = Some (Inr x) \<Longrightarrow> f x = g x) \<Longrightarrow> robind m f = robind m' g"
  by (auto simp: robind_def split: option.split sum.split)

lemma assert_that_simps [simp, result_simps]:
  "assert_that True msg = Inr ()"
  "assert_that False msg = Inl (AssertFail msg)"
  by (simp_all add: assert_that_def)

section \<open>Arrays\<close>

text \<open>
  A C array of \<open>n\<close> elements is a function on its indices; a read or a write at an index that is
  not below \<open>n\<close> is \<open>OutOfBounds\<close>.
\<close>

definition arr_get :: "nat \<Rightarrow> (nat \<Rightarrow> 'a) \<Rightarrow> nat \<Rightarrow> 'a result" where
  "arr_get n a i = (if i < n then Inr (a i) else Inl OutOfBounds)"

definition arr_set :: "nat \<Rightarrow> (nat \<Rightarrow> 'a) \<Rightarrow> nat \<Rightarrow> 'a \<Rightarrow> (nat \<Rightarrow> 'a) result" where
  "arr_set n a i x = (if i < n then Inr (a(i := x)) else Inl OutOfBounds)"

lemma arr_get_in [simp]: "i < n \<Longrightarrow> arr_get n a i = Inr (a i)"
  by (simp add: arr_get_def)

lemma arr_set_in [simp]: "i < n \<Longrightarrow> arr_set n a i x = Inr (a(i := x))"
  by (simp add: arr_set_def)

lemma arr_get_out [simp]: "n \<le> i \<Longrightarrow> arr_get n a i = Inl OutOfBounds"
  by (simp add: arr_get_def)

lemma arr_set_out [simp]: "n \<le> i \<Longrightarrow> arr_set n a i x = Inl OutOfBounds"
  by (simp add: arr_set_def)

lemma map_upt_fun_upd_above [simp]: "n \<le> i \<Longrightarrow> map (a(i := x)) [0..<n] = map a [0..<n]"
  by (rule map_cong) auto

section \<open>Words\<close>

lemma unat_Suc_word [unat_simps]:
  "Suc (unat (w :: 'a::len word)) < 2 ^ LENGTH('a) \<Longrightarrow> unat (w + 1) = Suc (unat w)"
  by (simp add: unat_word_ariths)

lemma unat_pred_word [unat_simps]:
  "w \<noteq> 0 \<Longrightarrow> unat ((w :: 'a::len word) - 1) = unat w - 1"
  by (metis Suc_pred' One_nat_def add_diff_cancel_left' diff_Suc_1 unat_gt_0 unat_minus_one)

lemma and_1_iff: "(w :: 'a::len word) AND 1 \<noteq> 0 \<longleftrightarrow> bit w 0"
  by (simp add: and_one_eq bit_0 odd_iff_mod_2_eq_one)

lemma unat_u32_lt: "unat (w :: u32) < 2 ^ 32"
  using unsigned_less [of w, where 'a = nat] by simp

lemma unat_of_nat_u32: "n < 2 ^ 32 \<Longrightarrow> unat (of_nat n :: u32) = n"
  by (simp add: unat_of_nat)

lemma byte_of_word: "unat (ucast (w AND 0xFF) :: u8) = unat w mod 256" for w :: u32
proof -
  have "(0xFF :: u32) = mask 8" by (simp add: mask_eq_exp_minus_1)
  then have "w AND 0xFF = take_bit 8 w" by (simp only: take_bit_eq_mask)
  then show ?thesis by (simp add: unsigned_ucast_eq unsigned_take_bit_eq take_bit_eq_mod unat_mod)
qed

end
