(* ===== verification/Sprite_Memory.thy ===== *)
theory Sprite_Memory
  imports Sprite_Prelude
begin

text \<open>
  Byte-addressed memory of the 32-bit kernel, and the little-endian accesses to 32-bit words that
  the i386 performs for a \<open>uint32_t*\<close>, at any alignment.
\<close>

type_synonym mem = "u32 \<Rightarrow> u8"

definition read32 :: "mem \<Rightarrow> u32 \<Rightarrow> u32" where
  "read32 m a = ucast (m a) OR push_bit 8 (ucast (m (a + 1))) OR push_bit 16 (ucast (m (a + 2)))
     OR push_bit 24 (ucast (m (a + 3)))"

definition write32 :: "mem \<Rightarrow> u32 \<Rightarrow> u32 \<Rightarrow> mem" where
  "write32 m a w = m(a := ucast w, a + 1 := ucast (drop_bit 8 w), a + 2 := ucast (drop_bit 16 w),
     a + 3 := ucast (drop_bit 24 w))"

definition read16 :: "mem \<Rightarrow> u32 \<Rightarrow> u16" where
  "read16 m a = ucast (m a) OR push_bit 8 (ucast (m (a + 1)))"

text \<open>The layout of a packed structure: its fields with their sizes in bytes.\<close>

type_synonym layout = "(string \<times> nat) list"

definition layout_size :: "layout \<Rightarrow> u32" where
  "layout_size l = of_nat (sum_list (map snd l))"

fun field_offset :: "layout \<Rightarrow> string \<Rightarrow> u32" where
  "field_offset [] f = 0"
| "field_offset ((g, n) # l) f = (if f = g then 0 else of_nat n + field_offset l f)"

lemma bytes_of_word:
  "(ucast (ucast w :: u8) OR push_bit 8 (ucast (ucast (drop_bit 8 w) :: u8))
     OR push_bit 16 (ucast (ucast (drop_bit 16 w) :: u8))
     OR push_bit 24 (ucast (ucast (drop_bit 24 w) :: u8)) :: u32) = w"
proof (rule bit_eqI)
  fix n :: nat
  consider "n < 8" | "8 \<le> n" "n < 16" | "16 \<le> n" "n < 24" | "24 \<le> n" by linarith
  then show "bit (ucast (ucast w :: u8) OR push_bit 8 (ucast (ucast (drop_bit 8 w) :: u8))
     OR push_bit 16 (ucast (ucast (drop_bit 16 w) :: u8))
     OR push_bit 24 (ucast (ucast (drop_bit 24 w) :: u8)) :: u32) n = bit w n"
    by cases (auto simp: bit_simps dest: bit_imp_le_length)
qed

lemma read32_write32_same [simp]: "read32 (write32 m a w) a = w"
  using bytes_of_word [of w] by (simp add: read32_def write32_def)

lemma write32_outside:
  "x \<noteq> a \<Longrightarrow> x \<noteq> a + 1 \<Longrightarrow> x \<noteq> a + 2 \<Longrightarrow> x \<noteq> a + 3 \<Longrightarrow> write32 m a w x = m x"
  by (simp add: write32_def)

lemma of_nat_u32_eq_iff:
  "i < 2 ^ 32 \<Longrightarrow> j < 2 ^ 32 \<Longrightarrow> (of_nat i :: u32) = of_nat j \<longleftrightarrow> i = j"
  by (simp add: word_unat_eq_iff unat_of_nat)

lemma of_nat_add_small: "(of_nat i :: u32) + 1 = of_nat (i + 1)" "(of_nat i :: u32) + 2 = of_nat (i + 2)"
  "(of_nat i :: u32) + 3 = of_nat (i + 3)" "(of_nat i :: u32) + 4 = of_nat (i + 4)"
  by simp_all

lemma write32_elsewhere:
  assumes "x + 4 \<le> 2 ^ 32" and "y < 2 ^ 32" and "y < x \<or> x + 4 \<le> y"
  shows "write32 m (of_nat x) w (of_nat y) = m (of_nat y)"
  by (rule write32_outside)
    (use assms in \<open>simp_all only: of_nat_add_small of_nat_u32_eq_iff, auto simp: of_nat_u32_eq_iff\<close>)

lemma read32_write32_other:
  assumes "x + 4 \<le> 2 ^ 32" and "y + 4 \<le> 2 ^ 32" and "x + 4 \<le> y \<or> y + 4 \<le> x"
  shows "read32 (write32 m (of_nat x) w) (of_nat y) = read32 m (of_nat y)"
proof -
  have "write32 m (of_nat x) w (of_nat (y + k)) = m (of_nat (y + k))" if "k < 4" for k
    using assms that by (intro write32_elsewhere) auto
  from this [of 0] this [of 1] this [of 2] this [of 3] show ?thesis
    by (simp add: read32_def add.commute)
qed

lemma read32_bytes:
  "ucast (read32 m a) = m a" "ucast (drop_bit 8 (read32 m a)) = m (a + 1)"
  "ucast (drop_bit 16 (read32 m a)) = m (a + 2)" "ucast (drop_bit 24 (read32 m a)) = m (a + 3)"
  unfolding read32_def by (rule bit_eqI; auto simp: bit_simps dest: bit_imp_le_length)+

lemma read32_eq_bytes:
  assumes "read32 m a = read32 m' b"
  shows "m a = m' b" and "m (a + 1) = m' (b + 1)" and "m (a + 2) = m' (b + 2)" and "m (a + 3) = m' (b + 3)"
  using assms by (metis read32_bytes)+

lemma apart_offsets:
  assumes "4 \<le> b - a" and "4 \<le> a - b" and "x \<in> {0, 1, 2, 3}" and "y \<in> {0, 1, 2, 3}"
  shows "(b :: u32) + x \<noteq> a + y"
proof
  assume "b + x = a + y"
  then have "b - a = y - x" "a - b = x - y" by (simp_all add: algebra_simps)
  moreover have "\<not> (4 :: u32) \<le> 1" by (simp add: word_le_nat_alt)
  ultimately show False using assms by auto
qed

lemma read32_write32_apart:
  assumes "4 \<le> b - a" and "4 \<le> a - b"
  shows "read32 (write32 m a w) b = read32 m b"
proof -
  have "write32 m a w (b + x) = m (b + x)" if "x \<in> {0, 1, 2, 3}" for x
    using apart_offsets [OF assms that, of 0] apart_offsets [OF assms that, of 1]
      apart_offsets [OF assms that, of 2] apart_offsets [OF assms that, of 3]
    by (simp add: write32_outside)
  from this [of 0] this [of 1] this [of 2] this [of 3] show ?thesis by (simp add: read32_def)
qed

end
