(* ===== verification/Sprite_Heap.thy ===== *)
theory Sprite_Heap
  imports Sprite_Memory
begin

text \<open>
  The kernel heap: the implicit list allocator of \<open>include/ILAllocator.hpp\<close> and its users
  \<open>lib/kmalloc.cc\<close> and \<open>lib/new.cc\<close>. A block is a header word (the size, with the allocated bit
  in its lowest bit) and the bytes behind it. The walk over the blocks need not end on a damaged
  heap, so \<open>alloc\<close> is a partial function: \<open>None\<close> is a call that does not return.
\<close>

section \<open>The allocator\<close>

record il_allocator =
  mstart :: u32
  mend :: u32
  il_mem :: mem

datatype AllocState = kFree | kAllocated

definition alloc_bit :: "AllocState \<Rightarrow> u32" where
  "alloc_bit st = (case st of kFree \<Rightarrow> 0 | kAllocated \<Rightarrow> 1)"

definition slice_block :: "u32 \<Rightarrow> u32 \<Rightarrow> u32" where
  "slice_block block siz = block + siz + 4"

definition record_block :: "u32 \<Rightarrow> u32 \<Rightarrow> AllocState \<Rightarrow> mem \<Rightarrow> mem" where
  "record_block block siz allocated m = write32 m block (siz OR (alloc_bit allocated AND 1))"

definition size_of_block :: "mem \<Rightarrow> u32 \<Rightarrow> u32" where
  "size_of_block m block = read32 m block AND 0xFFFFFFFE"

definition is_allocated :: "mem \<Rightarrow> u32 \<Rightarrow> bool" where
  "is_allocated m block \<longleftrightarrow> read32 m block AND 1 \<noteq> 0"

definition next_block :: "mem \<Rightarrow> u32 \<Rightarrow> u32" where
  "next_block m block = block + (size_of_block m block + 4)"

definition set_bound :: "u32 \<Rightarrow> u32 \<Rightarrow> mem \<Rightarrow> il_allocator" where
  "set_bound start stop m =
     \<lparr>mstart = start, mend = stop, il_mem = record_block start (stop - start - 4) kFree m\<rparr>"

definition ImplicitListAllocator :: "u32 \<Rightarrow> u32 \<Rightarrow> mem \<Rightarrow> il_allocator" where
  "ImplicitListAllocator start stop m =
     \<lparr>mstart = start, mend = stop, il_mem = record_block start (stop - start - 4) kFree m\<rparr>"

text \<open>The body of the loop of \<open>alloc\<close> once a block \<open>cur\<close> fits.\<close>

definition alloc_place :: "u32 \<Rightarrow> u32 \<Rightarrow> mem \<Rightarrow> mem" where
  "alloc_place cur siz m =
     (let block_size = size_of_block m cur;
          remain = slice_block cur siz;
          remain_size = block_size - 4 - siz
      in if 0 < remain_size
         then record_block remain remain_size kFree (record_block cur siz kAllocated m)
         else record_block cur block_size kAllocated m)"

partial_function (option) alloc_loop :: "u32 \<Rightarrow> u32 \<Rightarrow> il_allocator \<Rightarrow> (u32 \<times> il_allocator) option" where
  "alloc_loop cur siz h =
     (if cur = mend h then Some (0, h)
      else if siz \<le> size_of_block (il_mem h) cur \<and> \<not> is_allocated (il_mem h) cur
      then Some (cur + 4, h\<lparr>il_mem := alloc_place cur siz (il_mem h)\<rparr>)
      else alloc_loop (next_block (il_mem h) cur) siz h)"

definition align2 :: "u32 \<Rightarrow> u32" where
  "align2 siz = (if siz AND 1 \<noteq> 0 then siz + 1 else siz)"

definition il_alloc :: "u32 \<Rightarrow> il_allocator \<Rightarrow> (u32 \<times> il_allocator) option" where
  "il_alloc siz h = alloc_loop (mstart h) (align2 siz) h"

definition il_free :: "u32 \<Rightarrow> il_allocator \<Rightarrow> il_allocator" where
  "il_free pos h =
     (let block = pos - 4; m = il_mem h in
      if \<not> is_allocated m (next_block m block)
      then h\<lparr>il_mem := record_block block
              (size_of_block m block + 4 + size_of_block m (next_block m block)) kFree m\<rparr>
      else h\<lparr>il_mem := record_block block (size_of_block m block) kFree m\<rparr>)"

section \<open>The kernel's heap\<close>

definition kHeapStart :: u32 where
  "kHeapStart = 0xD0000000"

definition kHeapEnd :: u32 where
  "kHeapEnd = 0xD1000000"

definition init_heap :: "mem \<Rightarrow> il_allocator" where
  "init_heap m = ImplicitListAllocator kHeapStart kHeapEnd m"

definition kmalloc :: "u32 \<Rightarrow> il_allocator \<Rightarrow> (u32 \<times> il_allocator) option" where
  "kmalloc siz h = il_alloc siz h"

definition kfree :: "u32 \<Rightarrow> il_allocator \<Rightarrow> il_allocator" where
  "kfree pos h = il_free pos h"

definition operator_new :: "u32 \<Rightarrow> il_allocator \<Rightarrow> (u32 \<times> il_allocator) option" where
  "operator_new count h = kmalloc count h"

definition operator_new_at :: "u32 \<Rightarrow> u32 \<Rightarrow> u32" where
  "operator_new_at count ptr = ptr"

definition operator_delete :: "u32 \<Rightarrow> il_allocator \<Rightarrow> il_allocator" where
  "operator_delete ptr h = kfree ptr h"

text \<open>The self test, without the lines it prints: one round of its loop, the loop, the function.\<close>

definition test_kmalloc_round :: "il_allocator \<Rightarrow> il_allocator result option" where
  "test_kmalloc_round h =
     Option.bind (kmalloc 50 h) (\<lambda>(addr1, h).
     if addr1 \<noteq> 0xD0000004 then Some (Inl (AssertFail ''kmalloc error'')) else
     Option.bind (kmalloc 500 h) (\<lambda>(addr2, h).
     if addr2 \<noteq> 0xD000003A then Some (Inl (AssertFail ''kmalloc error'')) else
     Option.bind (kmalloc 5000 h) (\<lambda>(addr3, h).
     if addr3 \<noteq> 0xD0000232 then Some (Inl (AssertFail ''kmalloc error'')) else
     Some (Inr (kfree addr3 (kfree addr2 (kfree addr1 h)))))))"

fun test_kmalloc_loop :: "nat \<Rightarrow> il_allocator \<Rightarrow> il_allocator result option" where
  "test_kmalloc_loop 0 h = Some (Inr h)"
| "test_kmalloc_loop (Suc n) h =
     (case test_kmalloc_round h of None \<Rightarrow> None | Some (Inl e) \<Rightarrow> Some (Inl e)
      | Some (Inr h') \<Rightarrow> test_kmalloc_loop n h')"

definition test_kmalloc :: "il_allocator \<Rightarrow> il_allocator result option" where
  "test_kmalloc h = test_kmalloc_loop (0x1000 - 1) h"

section \<open>The list of blocks\<close>

text \<open>A block as the walk sees it: its size and whether it is allocated.\<close>

type_synonym blk = "nat \<times> bool"

fun blocks_len :: "blk list \<Rightarrow> nat" where
  "blocks_len [] = 0"
| "blocks_len ((sz, al) # bs) = sz + 4 + blocks_len bs"

fun heap_blocks :: "mem \<Rightarrow> nat \<Rightarrow> nat \<Rightarrow> blk list \<Rightarrow> bool" where
  "heap_blocks m a e [] \<longleftrightarrow> a = e"
| "heap_blocks m a e ((sz, al) # bs) \<longleftrightarrow>
     even sz \<and> a + 4 + sz \<le> e \<and> read32 m (of_nat a) = of_nat sz OR of_bool al
     \<and> heap_blocks m (a + 4 + sz) e bs"

definition il_wf :: "il_allocator \<Rightarrow> blk list \<Rightarrow> bool" where
  "il_wf h bs \<longleftrightarrow> heap_blocks (il_mem h) (unat (mstart h)) (unat (mend h)) bs"

lemma blocks_len_append [simp]: "blocks_len (xs @ ys) = blocks_len xs + blocks_len ys"
  by (induction xs rule: blocks_len.induct) auto

lemma heap_blocks_end: "heap_blocks m a e bs \<Longrightarrow> e = a + blocks_len bs"
  by (induction m a e bs rule: heap_blocks.induct) auto

lemma heap_blocks_append:
  "heap_blocks m a e (xs @ ys) \<longleftrightarrow>
     heap_blocks m a (a + blocks_len xs) xs \<and> heap_blocks m (a + blocks_len xs) e ys"
proof (induction xs arbitrary: a)
  case (Cons x xs)
  obtain sz al where x: "x = (sz, al)" by (cases x)
  show ?case using Cons.IH [of "a + 4 + sz"] heap_blocks_end [of m "a + 4 + sz + blocks_len xs" e ys]
    by (auto simp: x algebra_simps)
qed auto

lemma even_word_low_bit: "even sz \<Longrightarrow> \<not> bit (of_nat sz :: u32) 0"
  by (simp add: bit_0)

lemma header_decode:
  assumes "even sz"
  shows "((of_nat sz :: u32) OR of_bool al) AND 0xFFFFFFFE = of_nat sz"
    and "((of_nat sz :: u32) OR of_bool al) AND 1 \<noteq> 0 \<longleftrightarrow> al"
proof -
  have m: "(0xFFFFFFFE :: u32) = NOT 1" by simp
  note low = even_word_low_bit [OF assms]
  show "((of_nat sz :: u32) OR of_bool al) AND 0xFFFFFFFE = of_nat sz"
    unfolding m by (rule bit_eqI) (use low in \<open>auto simp: bit_simps intro: gr0I\<close>)
  show "((of_nat sz :: u32) OR of_bool al) AND 1 \<noteq> 0 \<longleftrightarrow> al"
    unfolding and_1_iff using low by (cases al) (simp_all add: bit_simps)
qed

lemma header_at:
  assumes "heap_blocks m a e ((sz, al) # bs)" and "e < 2 ^ 32"
  shows "size_of_block m (of_nat a) = of_nat sz" and "is_allocated m (of_nat a) \<longleftrightarrow> al"
    and "next_block m (of_nat a) = of_nat (a + 4 + sz)" and "unat (of_nat sz :: u32) = sz"
  using assms header_decode [of sz al]
  by (auto simp: size_of_block_def is_allocated_def next_block_def unat_of_nat)

lemma record_block_header:
  "record_block b n st m = write32 m b (n OR of_bool (st = kAllocated))"
  by (cases st) (simp_all add: record_block_def alloc_bit_def)

lemma heap_blocks_write_below:
  assumes "x + 4 \<le> a" and "e \<le> 2 ^ 32"
  shows "heap_blocks (write32 m (of_nat x) w) a e bs = heap_blocks m a e bs"
  using assms
proof (induction bs arbitrary: a)
  case (Cons b bs)
  obtain sz al where b: "b = (sz, al)" by (cases b)
  have "read32 (write32 m (of_nat x) w) (of_nat a) = read32 m (of_nat a)" if "a + 4 \<le> e"
    using Cons.prems that by (intro read32_write32_other) auto
  with Cons show ?case by (auto simp: b)
qed simp

lemma heap_blocks_write_above:
  assumes "e \<le> x" and "x + 4 \<le> 2 ^ 32"
  shows "heap_blocks (write32 m (of_nat x) w) a e bs = heap_blocks m a e bs"
  using assms
proof (induction bs arbitrary: a)
  case (Cons b bs)
  obtain sz al where b: "b = (sz, al)" by (cases b)
  have "read32 (write32 m (of_nat x) w) (of_nat a) = read32 m (of_nat a)" if "a + 4 \<le> e"
    using Cons.prems that by (intro read32_write32_other) auto
  with Cons show ?case by (auto simp: b)
qed simp

text \<open>Replacing one block by a list of blocks of the same total length.\<close>

lemma heap_blocks_replace:
  assumes "heap_blocks m a e (pre @ b # post)" and "e < 2 ^ 32"
    and "c = a + blocks_len pre" and "blocks_len new = blocks_len [b]"
    and "heap_blocks m' c (c + blocks_len new) new"
    and "heap_blocks m' a c pre = heap_blocks m a c pre"
    and "heap_blocks m' (c + blocks_len new) e post = heap_blocks m (c + blocks_len new) e post"
  shows "heap_blocks m' a e (pre @ new @ post)"
proof -
  have "heap_blocks m a e (pre @ [b] @ post)" using assms(1) by simp
  then show ?thesis using assms(3-7) unfolding heap_blocks_append by auto
qed

section \<open>Allocation\<close>

definition fits :: "nat \<Rightarrow> blk \<Rightarrow> bool" where
  "fits n b \<longleftrightarrow> n \<le> fst b \<and> \<not> snd b"

lemma alloc_loop_walks:
  assumes "heap_blocks (il_mem h) a (unat (mend h)) bs"
  shows "alloc_loop (of_nat a) siz h =
    (case dropWhile (\<lambda>b. \<not> fits (unat siz) b) bs of
       [] \<Rightarrow> Some (0, h)
     | _ \<Rightarrow> let cur = of_nat (a + blocks_len (takeWhile (\<lambda>b. \<not> fits (unat siz) b) bs))
            in Some (cur + 4, h\<lparr>il_mem := alloc_place cur siz (il_mem h)\<rparr>))"
  using assms
proof (induction bs arbitrary: a)
  case Nil
  then show ?case by (simp add: alloc_loop.simps)
next
  case (Cons b bs)
  obtain sz al where b: "b = (sz, al)" by (cases b)
  have lt: "unat (mend h) < 2 ^ 32" by (rule unat_u32_lt)
  note hd = header_at [OF Cons.prems [unfolded b] lt]
  from Cons.prems b have "a < unat (mend h)" by simp
  then have ne: "(of_nat a :: u32) \<noteq> mend h"
    using lt unat_of_nat_u32 [of a] by auto
  have fit: "siz \<le> size_of_block (il_mem h) (of_nat a) \<and> \<not> is_allocated (il_mem h) (of_nat a)
      \<longleftrightarrow> fits (unat siz) b"
    using hd by (simp add: fits_def b word_le_nat_alt)
  show ?case
  proof (cases "fits (unat siz) b")
    case True
    with ne fit show ?thesis by (simp add: alloc_loop.simps [of "of_nat a"] Let_def)
  next
    case False
    with ne fit hd(3) have step: "alloc_loop (of_nat a) siz h = alloc_loop (of_nat (a + 4 + sz)) siz h"
      by (subst alloc_loop.simps) (auto simp del: of_nat_add)
    have len: "a + blocks_len (takeWhile (\<lambda>b. \<not> fits (unat siz) b) (b # bs))
        = a + 4 + sz + blocks_len (takeWhile (\<lambda>b. \<not> fits (unat siz) b) bs)"
      and rest: "dropWhile (\<lambda>b. \<not> fits (unat siz) b) (b # bs) = dropWhile (\<lambda>b. \<not> fits (unat siz) b) bs"
      using False by (simp_all add: b)
    from Cons.prems b have "heap_blocks (il_mem h) (a + 4 + sz) (unat (mend h)) bs" by simp
    from Cons.IH [OF this] show ?thesis by (simp only: step len rest)
  qed
qed

lemma alloc_place_split:
  assumes hb: "heap_blocks m a e (pre @ (n + 4 + q, False) # post)" and e: "e < 2 ^ 32"
    and n: "even n" "0 < q" and c: "c = a + blocks_len pre"
  shows "heap_blocks (alloc_place (of_nat c) (of_nat n) m) a e (pre @ [(n, True), (q, False)] @ post)"
    (is "heap_blocks ?m' _ _ (_ @ ?new @ _)")
proof -
  define r where "r = c + 4 + n"
  from hb c have hd: "heap_blocks m c e ((n + 4 + q, False) # post)" by (simp add: heap_blocks_append)
  with e have lt: "r + 4 + q \<le> e" "even q" using n by (auto simp: r_def)
  have "size_of_block m (of_nat c) - 4 - of_nat n = (of_nat q :: u32)"
    using header_at(1) [OF hd e] by simp
  moreover have "(0 :: u32) < of_nat q"
    using n(2) lt e unat_of_nat_u32 [of q] by (simp add: word_less_nat_alt)
  moreover have "slice_block (of_nat c) (of_nat n) = of_nat r" by (simp add: slice_block_def r_def)
  ultimately have place: "?m' =
      write32 (write32 m (of_nat c) (of_nat n OR of_bool True)) (of_nat r) (of_nat q OR of_bool False)"
    by (simp add: alloc_place_def record_block_header)
  have hdr: "read32 ?m' (of_nat c) = of_nat n OR of_bool True" "read32 ?m' (of_nat r) = of_nat q OR of_bool False"
    using lt e unfolding place by (subst read32_write32_other; simp add: r_def) simp
  show ?thesis
  proof (rule heap_blocks_replace [OF hb e c])
    show "heap_blocks ?m' c (c + blocks_len ?new) ?new"
      using n lt hdr by (simp add: r_def del: of_nat_add)
    show "heap_blocks ?m' a c pre = heap_blocks m a c pre"
      unfolding place using lt e by (simp add: heap_blocks_write_above r_def del: of_nat_add)
    show "heap_blocks ?m' (c + blocks_len ?new) e post = heap_blocks m (c + blocks_len ?new) e post"
      unfolding place using lt e by (simp add: heap_blocks_write_below r_def del: of_nat_add)
  qed simp
qed

lemma alloc_place_whole:
  assumes hb: "heap_blocks m a e (pre @ (n + 4, False) # post)" and e: "e < 2 ^ 32"
    and c: "c = a + blocks_len pre"
  shows "heap_blocks (alloc_place (of_nat c) (of_nat n) m) a e (pre @ [(n + 4, True)] @ post)"
proof -
  from hb c have hd: "heap_blocks m c e ((n + 4, False) # post)" by (simp add: heap_blocks_append)
  with e have lt: "c + 4 + (n + 4) \<le> e" "even (n + 4)" by auto
  have "size_of_block m (of_nat c) = of_nat (n + 4)" using header_at(1) [OF hd e] .
  then have place: "alloc_place (of_nat c) (of_nat n) m = write32 m (of_nat c) (of_nat (n + 4) OR of_bool True)"
    by (simp add: alloc_place_def record_block_header)
  show ?thesis
  proof (rule heap_blocks_replace [OF hb e c])
    show "heap_blocks (alloc_place (of_nat c) (of_nat n) m) c (c + blocks_len [(n + 4, True)]) [(n + 4, True)]"
      unfolding place using lt by simp
    show "heap_blocks (alloc_place (of_nat c) (of_nat n) m) a c pre = heap_blocks m a c pre"
      unfolding place using lt e by (simp add: heap_blocks_write_above)
    show "heap_blocks (alloc_place (of_nat c) (of_nat n) m) (c + blocks_len [(n + 4, True)]) e post
        = heap_blocks m (c + blocks_len [(n + 4, True)]) e post"
      unfolding place using lt e by (simp add: heap_blocks_write_below)
  qed simp
qed

lemma even_align2: "even (unat (align2 siz))"
proof -
  have odd: "odd (unat w) \<longleftrightarrow> w AND 1 \<noteq> 0" for w :: u32
    unfolding and_1_iff by (simp add: bit_unsigned_iff flip: bit_0)
  show ?thesis
  proof (cases "siz AND 1 \<noteq> 0")
    case True
    then have "even (Suc (unat siz) mod 2 ^ 32)" using odd [of siz] by (subst dvd_mod_iff) auto
    with True show ?thesis by (simp add: align2_def unat_word_ariths)
  qed (use odd [of siz] in \<open>simp add: align2_def\<close>)
qed

lemma il_alloc_no_fit:
  assumes "il_wf h bs" and "\<forall>b\<in>set bs. \<not> fits (unat (align2 siz)) b"
  shows "il_alloc siz h = Some (0, h)"
proof -
  have "dropWhile (\<lambda>b. \<not> fits (unat (align2 siz)) b) bs = []" using assms(2) by simp
  with alloc_loop_walks [OF assms(1) [unfolded il_wf_def], of "align2 siz"] show ?thesis
    by (simp only: il_alloc_def) simp
qed

lemma il_alloc_first_fit:
  assumes "il_wf h (pre @ b # post)" and "\<forall>b\<in>set pre. \<not> fits (unat (align2 siz)) b"
    and "fits (unat (align2 siz)) b" and "c = unat (mstart h) + blocks_len pre"
  shows "il_alloc siz h =
    Some (of_nat c + 4, h\<lparr>il_mem := alloc_place (of_nat c) (align2 siz) (il_mem h)\<rparr>)"
proof -
  have "dropWhile (\<lambda>b. \<not> fits (unat (align2 siz)) b) (pre @ b # post) = b # post"
    "takeWhile (\<lambda>b. \<not> fits (unat (align2 siz)) b) (pre @ b # post) = pre"
    using assms(2,3) by (simp_all add: dropWhile_append2 takeWhile_append2)
  with alloc_loop_walks [OF assms(1) [unfolded il_wf_def], of "align2 siz"] assms(4) show ?thesis
    by (simp add: il_alloc_def Let_def)
qed

text \<open>What allocating \<open>n\<close> bytes from a free block of \<open>sz\<close> bytes makes of it.\<close>

definition carve :: "nat \<Rightarrow> nat \<Rightarrow> blk list" where
  "carve n sz = (if sz = n + 4 then [(sz, True)] else [(n, True), (sz - 4 - n, False)])"

lemma il_alloc_carves:
  assumes wf: "il_wf h (pre @ (sz, False) # post)" and n: "n = unat (align2 siz)"
    and pre: "\<forall>b\<in>set pre. \<not> fits n b" and sz: "n + 4 \<le> sz"
    and c: "c = unat (mstart h) + blocks_len pre"
  shows "\<exists>h'. il_alloc siz h = Some (of_nat (c + 4), h') \<and> il_wf h' (pre @ carve n sz @ post)
    \<and> mstart h' = mstart h \<and> mend h' = mend h"
proof -
  let ?h' = "h\<lparr>il_mem := alloc_place (of_nat c) (of_nat n) (il_mem h)\<rparr>"
  have siz: "align2 siz = of_nat n" by (simp add: n)
  have "fits n (sz, False)" using sz by (simp add: fits_def)
  from il_alloc_first_fit [OF wf pre [unfolded n] this [unfolded n] c]
  have "il_alloc siz h = Some (of_nat (c + 4), ?h')" unfolding siz by (simp add: add.commute)
  moreover have "il_wf ?h' (pre @ carve n sz @ post)"
  proof (cases "sz = n + 4")
    case True
    from alloc_place_whole [OF wf [unfolded il_wf_def True] unat_u32_lt c] True
    show ?thesis by (simp add: il_wf_def carve_def)
  next
    case False
    define q where "q = sz - 4 - n"
    with False sz have q: "sz = n + 4 + q" "0 < q" by auto
    from alloc_place_split [OF wf [unfolded il_wf_def q(1)] unat_u32_lt _ q(2) c] q n even_align2
    show ?thesis by (simp add: il_wf_def carve_def)
  qed
  ultimately show ?thesis by auto
qed

section \<open>Release\<close>

text \<open>What freeing a block of \<open>sz\<close> bytes makes of it and of the blocks behind it.\<close>

fun release :: "nat \<Rightarrow> blk list \<Rightarrow> blk list" where
  "release sz ((sz2, False) # post) = (sz + 4 + sz2, False) # post"
| "release sz post = (sz, False) # post"

lemma il_free_releases:
  assumes wf: "il_wf h (pre @ (sz, al) # post)" and post: "post \<noteq> []"
    and c: "c = unat (mstart h) + blocks_len pre"
  shows "il_wf (il_free (of_nat (c + 4)) h) (pre @ release sz post)"
    and "mstart (il_free (of_nat (c + 4)) h) = mstart h" and "mend (il_free (of_nat (c + 4)) h) = mend h"
proof -
  let ?m = "il_mem h" and ?a = "unat (mstart h)" and ?e = "unat (mend h)"
  note e = unat_u32_lt [of "mend h"]
  obtain sz2 al2 post2 where post2: "post = (sz2, al2) # post2" using post by (cases post) auto
  from wf have hb: "heap_blocks ?m ?a ?e (pre @ (sz, al) # post)" by (simp add: il_wf_def)
  then have b1: "heap_blocks ?m c ?e ((sz, al) # post)" using c by (simp add: heap_blocks_append)
  then have b2: "heap_blocks ?m (c + 4 + sz) ?e ((sz2, al2) # post2)" by (simp add: post2)
  note h1 = header_at [OF b1 e] and h2 = header_at [OF b2 e]
  have blk: "(of_nat (c + 4) - 4 :: u32) = of_nat c" by simp
  have free: "il_free (of_nat (c + 4)) h = h\<lparr>il_mem := write32 ?m (of_nat c)
      (of_nat (if al2 then sz else sz + 4 + sz2) OR of_bool False)\<rparr>"
    unfolding il_free_def Let_def blk using h1 h2 by (simp add: record_block_header add.commute)
  show "mstart (il_free (of_nat (c + 4)) h) = mstart h" "mend (il_free (of_nat (c + 4)) h) = mend h"
    by (simp_all add: free del: of_nat_add)
  let ?m' = "write32 ?m (of_nat c) (of_nat (if al2 then sz else sz + 4 + sz2) OR of_bool False)"
  have ev: "even sz" "c + 4 + sz \<le> ?e" "even sz2" "c + 4 + sz + 4 + sz2 \<le> ?e"
    using b1 b2 by auto
  have "heap_blocks ?m ?a c pre" using hb unfolding heap_blocks_append c by blast
  then have pre: "heap_blocks ?m' ?a c pre" using ev e by (subst heap_blocks_write_above) auto
  show "il_wf (il_free (of_nat (c + 4)) h) (pre @ release sz post)"
  proof (cases al2)
    case True
    then have "heap_blocks ?m' c ?e ((sz, False) # post)"
      using b1 ev e by (simp add: heap_blocks_write_below)
    with True pre have "heap_blocks ?m' ?a ?e (pre @ release sz post)"
      unfolding heap_blocks_append c [symmetric] by (simp add: post2)
    then show ?thesis by (simp add: il_wf_def free del: of_nat_add)
  next
    case False
    have "heap_blocks ?m' (c + 4 + sz + 4 + sz2) ?e post2"
      using b2 ev e by (simp add: heap_blocks_write_below)
    with False ev have "heap_blocks ?m' c ?e ((sz + 4 + sz2, False) # post2)"
      by (simp add: add.assoc)
    with False pre have "heap_blocks ?m' ?a ?e (pre @ release sz post)"
      unfolding heap_blocks_append c [symmetric] by (simp add: post2)
    then show ?thesis by (simp add: il_wf_def free del: of_nat_add)
  qed
qed

section \<open>Live memory\<close>

text \<open>The payloads of the allocated blocks: address and length.\<close>

fun live :: "nat \<Rightarrow> blk list \<Rightarrow> (nat \<times> nat) set" where
  "live a [] = {}"
| "live a ((sz, al) # bs) = (if al then {(a + 4, sz)} else {}) \<union> live (a + 4 + sz) bs"

definition overlap :: "nat \<times> nat \<Rightarrow> nat \<times> nat \<Rightarrow> bool" where
  "overlap r s \<longleftrightarrow> fst r < fst s + snd s \<and> fst s < fst r + snd r"

lemma live_append: "live a (xs @ ys) = live a xs \<union> live (a + blocks_len xs) ys"
  by (induction xs arbitrary: a rule: blocks_len.induct) (auto simp: algebra_simps)

lemma live_bounds: "r \<in> live a bs \<Longrightarrow> a + 4 \<le> fst r \<and> fst r + snd r \<le> a + blocks_len bs"
  by (induction a bs rule: live.induct) (fastforce split: if_splits)+

function heap_walk :: "mem \<Rightarrow> nat \<Rightarrow> nat \<Rightarrow> blk list" where
  "heap_walk m a e =
     (if a < e
      then (unat (size_of_block m (of_nat a)), is_allocated m (of_nat a))
           # heap_walk m (a + 4 + unat (size_of_block m (of_nat a))) e
      else [])"
  by pat_completeness auto
termination
  by (relation "measure (\<lambda>(m, a, e). e - a)") auto

declare heap_walk.simps [simp del]

lemma heap_walk_eq: "heap_blocks m a e bs \<Longrightarrow> e < 2 ^ 32 \<Longrightarrow> heap_walk m a e = bs"
proof (induction bs arbitrary: a)
  case (Cons b bs)
  obtain sz al where b: "b = (sz, al)" by (cases b)
  with Cons.prems header_at [of m a e sz al bs] Cons.IH [of "a + 4 + sz"] show ?case
    by (simp add: heap_walk.simps [of m a e])
qed (simp add: heap_walk.simps)

definition il_blocks :: "il_allocator \<Rightarrow> blk list" where
  "il_blocks h = heap_walk (il_mem h) (unat (mstart h)) (unat (mend h))"

definition il_invar :: "il_allocator \<Rightarrow> bool" where
  "il_invar h \<longleftrightarrow> il_wf h (il_blocks h)"

definition il_regions :: "il_allocator \<Rightarrow> (nat \<times> nat) set" where
  "il_regions h = live (unat (mstart h)) (il_blocks h)"

lemma il_wf_blocks: "il_wf h bs \<Longrightarrow> il_blocks h = bs"
  unfolding il_wf_def il_blocks_def using heap_walk_eq unat_u32_lt by blast

lemma il_wf_invar: "il_wf h bs \<Longrightarrow> il_invar h"
  by (simp add: il_invar_def il_wf_blocks)

text \<open>
  The requests and the releases that the allocator serves as it should: the first free block that
  is large enough has room for the header of a remainder, and the block to be freed is not the
  last one of the heap.
\<close>

definition il_grants :: "u32 \<Rightarrow> il_allocator \<Rightarrow> bool" where
  "il_grants siz h \<longleftrightarrow> siz \<noteq> - 1 \<and>
     (case dropWhile (\<lambda>b. \<not> fits (unat (align2 siz)) b) (il_blocks h) of
        [] \<Rightarrow> False
      | b # _ \<Rightarrow> unat (align2 siz) + 4 \<le> fst b)"

definition il_releasable :: "nat \<times> nat \<Rightarrow> il_allocator \<Rightarrow> bool" where
  "il_releasable r h \<longleftrightarrow> r \<in> il_regions h \<and> fst r + snd r < unat (mend h)"

lemma dropWhile_ConsD:
  assumes "dropWhile P xs = y # ys"
  shows "xs = takeWhile P xs @ y # ys" and "\<forall>x\<in>set (takeWhile P xs). P x" and "\<not> P y"
proof -
  show "xs = takeWhile P xs @ y # ys" using takeWhile_dropWhile_id [of P xs] assms by simp
  show "\<not> P y" using assms hd_dropWhile [of P xs] by simp
qed (auto dest: set_takeWhileD)

lemma unat_align2_ge: "siz \<noteq> - 1 \<Longrightarrow> unat siz \<le> unat (align2 siz)"
proof -
  assume "siz \<noteq> - 1"
  then have "siz + 1 \<noteq> 0" by (simp add: add_eq_0_iff2)
  then have "unat (siz + 1) = Suc (unat siz)"
    using unat_pred_word [of "siz + 1"] by (cases "unat (siz + 1)") (simp_all add: unat_eq_zero)
  then show ?thesis by (simp add: align2_def)
qed

lemma il_grants_split:
  assumes "il_invar h" and "il_grants siz h" and "n = unat (align2 siz)"
  obtains pre sz post where "il_blocks h = pre @ (sz, False) # post" and "\<forall>b\<in>set pre. \<not> fits n b"
    and "n + 4 \<le> sz" and "unat siz \<le> n"
proof -
  obtain b post where d: "dropWhile (\<lambda>b. \<not> fits n b) (il_blocks h) = b # post" "n + 4 \<le> fst b" "siz \<noteq> - 1"
    using assms(2,3) by (auto simp: il_grants_def split: list.splits)
  with dropWhile_ConsD [OF d(1)] have "\<not> snd b" by (simp add: fits_def)
  then obtain sz where b: "b = (sz, False)" by (cases b) auto
  show ?thesis
    by (rule that [of "takeWhile (\<lambda>b. \<not> fits n b) (il_blocks h)" sz post])
      (use d b dropWhile_ConsD [OF d(1)] unat_align2_ge [OF d(3)] assms(3) in simp_all)
qed

lemma carve_len [simp]: "n + 4 \<le> sz \<Longrightarrow> blocks_len (carve n sz) = sz + 4"
  by (auto simp: carve_def)

lemma live_carve: "live c (carve n sz) = {(c + 4, if sz = n + 4 then sz else n)}"
  by (simp add: carve_def)

lemma live_release: "live c (release sz post) = live (c + 4 + sz) post"
  by (cases "(sz, post)" rule: release.cases) (simp_all add: algebra_simps)

lemma il_alloc_fresh:
  assumes inv: "il_invar h" and g: "il_grants siz h"
  shows "\<exists>p len h'. il_alloc siz h = Some (p, h') \<and> il_invar h' \<and> unat siz \<le> len
    \<and> il_regions h' = insert (unat p, len) (il_regions h)
    \<and> (\<forall>r\<in>il_regions h. \<not> overlap (unat p, len) r)
    \<and> unat (mstart h) \<le> unat p \<and> unat p + len \<le> unat (mend h)"
proof -
  let ?a = "unat (mstart h)" and ?n = "unat (align2 siz)"
  obtain pre sz post where bs: "il_blocks h = pre @ (sz, False) # post" "\<forall>b\<in>set pre. \<not> fits ?n b"
    "?n + 4 \<le> sz" "unat siz \<le> ?n"
    using il_grants_split [OF inv g refl] .
  define c where "c = ?a + blocks_len pre"
  from inv bs have wf: "il_wf h (pre @ (sz, False) # post)" by (simp add: il_invar_def)
  obtain h' where h': "il_alloc siz h = Some (of_nat (c + 4), h')" "il_wf h' (pre @ carve ?n sz @ post)"
    "mstart h' = mstart h" "mend h' = mend h"
    using il_alloc_carves [OF wf refl bs(2,3) c_def] by blast
  have stop: "unat (mend h) = c + (sz + 4) + blocks_len post"
    using heap_blocks_end [OF wf [unfolded il_wf_def]] by (simp add: c_def)
  then have p: "unat (of_nat (c + 4) :: u32) = c + 4"
    using unat_u32_lt [of "mend h"] by (intro unat_of_nat_u32) simp
  let ?len = "if sz = ?n + 4 then sz else ?n"
  have "il_regions h = live ?a pre \<union> live (c + (sz + 4)) post"
    by (simp add: il_regions_def bs live_append c_def algebra_simps)
  moreover have "il_regions h' = live ?a pre \<union> {(c + 4, ?len)} \<union> live (c + (sz + 4)) post"
    using il_wf_blocks [OF h'(2)] h'(3) bs(3)
    by (simp add: il_regions_def live_append live_carve c_def [symmetric])
  moreover have "\<not> overlap (c + 4, ?len) r" if "r \<in> live ?a pre \<union> live (c + (sz + 4)) post" for r
    using that live_bounds [of r ?a pre] live_bounds [of r "c + (sz + 4)" post] bs(3)
    by (auto simp: overlap_def c_def)
  ultimately show ?thesis
    using h' p il_wf_invar [OF h'(2)] bs(3,4) stop
    by (intro exI [of _ "of_nat (c + 4)"] exI [of _ ?len] exI [of _ h']) (auto simp: c_def simp del: of_nat_add)
qed

lemma live_split:
  assumes "(p, len) \<in> live a bs"
  obtains pre post where "bs = pre @ (len, True) # post" and "p = a + blocks_len pre + 4"
proof -
  have "\<exists>pre post. bs = pre @ (len, True) # post \<and> p = a + blocks_len pre + 4"
    using assms
  proof (induction a bs rule: live.induct)
    case (2 a sz al bs)
    show ?case
    proof (cases "(p, len) \<in> live (a + 4 + sz) bs")
      case True
      with "2.IH" obtain pre post where "bs = pre @ (len, True) # post" "p = a + 4 + sz + blocks_len pre + 4"
        by blast
      then show ?thesis by (intro exI [of _ "(sz, al) # pre"] exI [of _ post]) simp
    next
      case False
      with "2.prems" show ?thesis by (intro exI [of _ "[]"] exI [of _ bs]) (auto split: if_splits)
    qed
  qed simp
  then show ?thesis using that by blast
qed

lemma il_free_removes:
  assumes inv: "il_invar h" and r: "il_releasable (p, len) h"
  shows "il_invar (il_free (of_nat p) h)" and "il_regions (il_free (of_nat p) h) = il_regions h - {(p, len)}"
proof -
  let ?a = "unat (mstart h)"
  from r have "(p, len) \<in> live ?a (il_blocks h)" and lt: "p + len < unat (mend h)"
    by (auto simp: il_releasable_def il_regions_def)
  then obtain pre post where bs: "il_blocks h = pre @ (len, True) # post" "p = ?a + blocks_len pre + 4"
    using live_split by blast
  define c where "c = ?a + blocks_len pre"
  with bs have p: "p = c + 4" by simp
  from inv bs have wf: "il_wf h (pre @ (len, True) # post)" by (simp add: il_invar_def)
  have "unat (mend h) = c + (len + 4) + blocks_len post"
    using heap_blocks_end [OF wf [unfolded il_wf_def]] by (simp add: c_def)
  with lt p have "post \<noteq> []" by auto
  note free = il_free_releases [OF wf this c_def]
  show "il_invar (il_free (of_nat p) h)" unfolding p using free(1) by (rule il_wf_invar)
  have "il_regions (il_free (of_nat p) h) = live ?a pre \<union> live (c + 4 + len) post"
    unfolding p il_regions_def il_wf_blocks [OF free(1)] free(2)
    by (simp add: live_append live_release c_def)
  moreover have "il_regions h = live ?a pre \<union> {(c + 4, len)} \<union> live (c + 4 + len) post"
    by (simp add: il_regions_def bs live_append c_def)
  moreover have "(c + 4, len) \<notin> live ?a pre \<union> live (c + 4 + len) post"
    using live_bounds [of "(c + 4, len)" ?a pre] live_bounds [of "(c + 4, len)" "c + 4 + len" post]
    by (auto simp: c_def)
  ultimately show "il_regions (il_free (of_nat p) h) = il_regions h - {(p, len)}" unfolding p by auto
qed

section \<open>The interface to the users of the heap\<close>

text \<open>
  What the scheduler and the block cache rely on. \<open>grants\<close> and \<open>releasable\<close> bound the requests
  for which the contract is promised.
\<close>

locale memory_manager =
  fixes alloc :: "u32 \<Rightarrow> 's \<Rightarrow> (u32 \<times> 's) option"
    and free :: "u32 \<Rightarrow> 's \<Rightarrow> 's"
    and regions :: "'s \<Rightarrow> (nat \<times> nat) set"
    and invar :: "'s \<Rightarrow> bool"
    and grants :: "u32 \<Rightarrow> 's \<Rightarrow> bool"
    and releasable :: "nat \<times> nat \<Rightarrow> 's \<Rightarrow> bool"
  assumes alloc_fresh: "invar s \<Longrightarrow> grants n s \<Longrightarrow>
    \<exists>p len s'. alloc n s = Some (p, s') \<and> invar s' \<and> unat n \<le> len
      \<and> regions s' = insert (unat p, len) (regions s) \<and> (\<forall>r\<in>regions s. \<not> overlap (unat p, len) r)"
    and free_removes: "invar s \<Longrightarrow> releasable (p, len) s \<Longrightarrow>
      invar (free (of_nat p) s) \<and> regions (free (of_nat p) s) = regions s - {(p, len)}"
begin

lemma two_allocs_apart:
  assumes "invar s" and "grants n s" and "alloc n s = Some (p, s1)" and "grants k s1" and "0 < n" and "0 < k"
  shows "\<exists>q s2 lp lq. alloc k s1 = Some (q, s2) \<and> invar s2 \<and> unat n \<le> lp \<and> unat k \<le> lq
    \<and> {(unat p, lp), (unat q, lq)} \<subseteq> regions s2 \<and> \<not> overlap (unat p, lp) (unat q, lq)"
proof -
  obtain lp where s1: "invar s1" "unat n \<le> lp" "regions s1 = insert (unat p, lp) (regions s)"
    using alloc_fresh [OF assms(1,2)] assms(3) by auto
  obtain q lq s2 where "alloc k s1 = Some (q, s2)" "invar s2" "unat k \<le> lq"
    "regions s2 = insert (unat q, lq) (regions s1)" "\<forall>r\<in>regions s1. \<not> overlap (unat q, lq) r"
    using alloc_fresh [OF s1(1) assms(4)] by blast
  with s1 show ?thesis by (auto simp: overlap_def)
qed

end

interpretation kheap: memory_manager kmalloc kfree il_regions il_invar il_grants il_releasable
proof unfold_locales
  fix s n assume "il_invar s" "il_grants n s"
  from il_alloc_fresh [OF this] show "\<exists>p len s'. kmalloc n s = Some (p, s') \<and> il_invar s' \<and> unat n \<le> len
      \<and> il_regions s' = insert (unat p, len) (il_regions s) \<and> (\<forall>r\<in>il_regions s. \<not> overlap (unat p, len) r)"
    unfolding kmalloc_def by blast
qed (simp add: kfree_def il_free_removes)

lemma init_heap_wf: "il_wf (init_heap m) [(0xFFFFFC, False)]"
  by (simp add: il_wf_def init_heap_def ImplicitListAllocator_def kHeapStart_def kHeapEnd_def record_block_header)

section \<open>Contents and damaged heaps\<close>

lemma alloc_place_elsewhere:
  assumes "n + 4 \<le> sz" and "c + 4 + sz < 2 ^ 32" and "y < 2 ^ 32" and "y < c \<or> c + 4 + sz \<le> y"
  shows "alloc_place (of_nat c) (of_nat n) m (of_nat y) = m (of_nat y)"
proof -
  have "slice_block (of_nat c) (of_nat n) = of_nat (c + n + 4)" by (simp add: slice_block_def)
  moreover have "write32 m' (of_nat (c + n + 4)) w (of_nat y) = m' (of_nat y)"
    "write32 m' (of_nat c) w (of_nat y) = m' (of_nat y)" for m' w
    using assms by (intro write32_elsewhere; auto)+
  ultimately show ?thesis by (simp add: alloc_place_def record_block_header Let_def del: of_nat_add)
qed

lemma il_alloc_contents:
  assumes inv: "il_invar h" and g: "il_grants siz h" and al: "il_alloc siz h = Some (p, h')"
    and r: "(q, k) \<in> il_regions h" and "i < k"
  shows "il_mem h' (of_nat (q + i)) = il_mem h (of_nat (q + i))"
proof -
  let ?n = "unat (align2 siz)" and ?a = "unat (mstart h)"
  obtain pre sz post where bs: "il_blocks h = pre @ (sz, False) # post" "\<forall>b\<in>set pre. \<not> fits ?n b" "?n + 4 \<le> sz"
    using il_grants_split [OF inv g refl] .
  define c where "c = ?a + blocks_len pre"
  from inv bs have wf: "il_wf h (pre @ (sz, False) # post)" by (simp add: il_invar_def)
  have "fits ?n (sz, False)" using bs(3) by (simp add: fits_def)
  from il_alloc_first_fit [OF wf bs(2) this c_def] al
  have h': "il_mem h' = alloc_place (of_nat c) (of_nat ?n) (il_mem h)" by auto
  have stop: "unat (mend h) = c + (sz + 4) + blocks_len post"
    using heap_blocks_end [OF wf [unfolded il_wf_def]] by (simp add: c_def)
  have "(q, k) \<in> live ?a pre \<union> live (c + (sz + 4)) post"
    using r by (simp add: il_regions_def bs live_append c_def algebra_simps)
  then have "q + i < c \<or> c + 4 + sz \<le> q + i" and "q + i < unat (mend h)"
    using live_bounds [of "(q, k)" ?a pre] live_bounds [of "(q, k)" "c + (sz + 4)" post] stop \<open>i < k\<close>
    by (auto simp: c_def)
  then show ?thesis unfolding h'
    using stop unat_u32_lt [of "mend h"] bs(3) by (intro alloc_place_elsewhere) auto
qed

lemma alloc_loop_skip:
  assumes "heap_blocks (il_mem h) a c pre" and "c < unat (mend h)" and "\<forall>b\<in>set pre. \<not> fits (unat siz) b"
  shows "alloc_loop (of_nat a) siz h = alloc_loop (of_nat c) siz h"
  using assms
proof (induction pre arbitrary: a)
  case (Cons b pre)
  obtain sz al where b: "b = (sz, al)" by (cases b)
  have lt: "c < 2 ^ 32" using Cons.prems(2) unat_u32_lt [of "mend h"] by simp
  note hd = header_at [OF Cons.prems(1) [unfolded b] lt]
  have "(of_nat a :: u32) \<noteq> mend h"
    using Cons.prems(1,2) b lt unat_of_nat_u32 [of a] by auto
  moreover have "\<not> (siz \<le> size_of_block (il_mem h) (of_nat a) \<and> \<not> is_allocated (il_mem h) (of_nat a))"
    using hd Cons.prems(3) by (simp add: fits_def b word_le_nat_alt)
  ultimately have "alloc_loop (of_nat a) siz h = alloc_loop (of_nat (a + 4 + sz)) siz h"
    using hd(3) by (subst alloc_loop.simps) (auto simp del: of_nat_add)
  with Cons b show ?case by (simp del: of_nat_add)
qed simp

lemma alloc_place_exact:
  assumes hb: "heap_blocks m c e ((n, False) # (sz2, al2) # post)" and e: "e < 2 ^ 32"
  shows "alloc_place (of_nat c) (of_nat n) m =
    write32 (write32 m (of_nat c) (of_nat n OR 1)) (of_nat (c + 4 + n)) 0xFFFFFFFC"
proof -
  have "(of_nat n :: u32) - 4 - of_nat n = - 4" by simp
  also have "(- 4 :: u32) = 0xFFFFFFFC" by simp
  finally have rem: "(of_nat n :: u32) - 4 - of_nat n = 0xFFFFFFFC" .
  have "slice_block (of_nat c) (of_nat n) = of_nat (c + 4 + n)" by (simp add: slice_block_def)
  then show ?thesis
    unfolding alloc_place_def header_at(1) [OF hb e] rem Let_def
    by (simp add: record_block_header del: of_nat_add)
qed

section \<open>The self test\<close>

lemma minus_4_u32: "(- 4 :: u32) = 0xFFFFFFFC"
  by simp

lemmas heap_eval = minus_4_u32 kmalloc_def il_alloc_def align2_def alloc_loop.simps [of "numeral k" for k]
  size_of_block_def is_allocated_def record_block_def alloc_bit_def next_block_def
  read32_write32_apart alloc_place_def slice_block_def kfree_def il_free_def

definition test_blocks :: "il_allocator \<Rightarrow> bool" where
  "test_blocks h \<longleftrightarrow> mstart h = 0xD0000000 \<and> mend h = 0xD1000000
     \<and> read32 (il_mem h) 0xD0000000 = 50 \<and> read32 (il_mem h) 0xD0000036 = 500"

lemma test_first_round: "\<exists>h. test_kmalloc_round (init_heap m) = Some (Inr h) \<and> test_blocks h"
  by (simp add: test_kmalloc_round_def init_heap_def ImplicitListAllocator_def kHeapStart_def
      kHeapEnd_def test_blocks_def heap_eval)

lemma test_next_round:
  assumes "test_blocks h"
  shows "\<exists>h'. test_kmalloc_round h = Some (Inr h') \<and> test_blocks h'
    \<and> read32 (il_mem h') 0xD000022E = 0xFFFFFE04"
  using assms by (simp add: test_kmalloc_round_def test_blocks_def heap_eval)

lemma test_rounds:
  "test_blocks h \<Longrightarrow> \<exists>h'. test_kmalloc_loop (Suc n) h = Some (Inr h') \<and> test_blocks h'
     \<and> read32 (il_mem h') 0xD000022E = 0xFFFFFE04"
proof (induction n arbitrary: h)
  case 0
  then show ?case using test_next_round [OF 0] by (auto simp: numeral_eq_Suc)
next
  case (Suc n)
  from test_next_round [OF Suc.prems] obtain h' where "test_kmalloc_round h = Some (Inr h')" "test_blocks h'"
    by blast
  with Suc.IH [of h'] show ?case by simp
qed

section \<open>Properties\<close>

lemma alloc_loop_bounds:
  assumes "alloc_loop cur siz h = Some r"
  shows "mstart (snd r) = mstart h \<and> mend (snd r) = mend h"
  using assms
  by (rule alloc_loop.raw_induct [where P = "\<lambda>cur siz h r. mstart (snd r) = mstart h \<and> mend (snd r) = mend h", rotated])
    (fastforce split: if_splits)

lemma kmalloc_bounds: "kmalloc siz h = Some (p, h') \<Longrightarrow> mstart h' = mstart h \<and> mend h' = mend h"
  using alloc_loop_bounds [of _ _ h "(p, h')"] by (simp add: kmalloc_def il_alloc_def)

lemma kfree_bounds: "mstart (kfree p h) = mstart h" "mend (kfree p h) = mend h"
  by (simp_all add: kfree_def il_free_def Let_def)

lemma kmalloc_fresh:
  assumes "il_invar h" and "il_grants siz h"
  shows "\<exists>p len h'. kmalloc siz h = Some (p, h') \<and> il_invar h' \<and> unat siz \<le> len
    \<and> mstart h' = mstart h \<and> mend h' = mend h
    \<and> unat (mstart h) \<le> unat p \<and> unat p + len \<le> unat (mend h)
    \<and> il_regions h' = insert (unat p, len) (il_regions h)
    \<and> (\<forall>(q, k)\<in>il_regions h. \<not> overlap (unat p, len) (q, k)
         \<and> (\<forall>i<k. il_mem h' (of_nat (q + i)) = il_mem h (of_nat (q + i))))"
proof -
  obtain p len h' where "il_alloc siz h = Some (p, h')" "il_invar h'" "unat siz \<le> len"
    "il_regions h' = insert (unat p, len) (il_regions h)" "\<forall>r\<in>il_regions h. \<not> overlap (unat p, len) r"
    "unat (mstart h) \<le> unat p" "unat p + len \<le> unat (mend h)"
    using il_alloc_fresh [OF assms] by blast
  with il_alloc_contents [OF assms] kmalloc_bounds [of siz h p h'] show ?thesis unfolding kmalloc_def by blast
qed

text \<open>C2. A request that the heap can serve from a block with room for a remainder header returns:
  the new payload is at least as large as asked for, lies inside the heap, overlaps no live
  payload, becomes live itself, leaves every byte of the other live payloads unchanged, and the
  heap stays well formed.\<close>

theorem kmalloc_returns_fresh_block:
  assumes "il_invar h" and "il_grants siz h"
  shows "\<exists>p len h'. kmalloc siz h = Some (p, h') \<and> il_invar h' \<and> unat siz \<le> len
    \<and> unat (mstart h) \<le> unat p \<and> unat p + len \<le> unat (mend h)
    \<and> il_regions h' = insert (unat p, len) (il_regions h)
    \<and> (\<forall>(q, k)\<in>il_regions h. \<not> overlap (unat p, len) (q, k)
         \<and> (\<forall>i<k. il_mem h' (of_nat (q + i)) = il_mem h (of_nat (q + i))))"
  using kmalloc_fresh [OF assms] by blast

lemma init_heap_facts:
  "il_invar (init_heap m)" "il_blocks (init_heap m) = [(0xFFFFFC, False)]" "il_regions (init_heap m) = {}"
  using il_wf_blocks [OF init_heap_wf, of m] il_wf_invar [OF init_heap_wf, of m]
  by (simp_all add: il_regions_def)

theorem kmalloc_returns_fresh_block_witness:
  "\<exists>p len h'. kmalloc 50 (init_heap (\<lambda>_. 0)) = Some (p, h') \<and> il_invar h' \<and> 50 \<le> len
    \<and> 0xD0000000 \<le> unat p \<and> unat p + len \<le> 0xD1000000 \<and> il_regions h' = {(unat p, len)}"
  using kmalloc_returns_fresh_block [of "init_heap (\<lambda>_. 0)" 50]
  by (simp add: init_heap_facts il_grants_def fits_def align2_def)
    (simp add: init_heap_def ImplicitListAllocator_def kHeapStart_def kHeapEnd_def)

text \<open>C5. Freeing a live payload that is not at the end of the heap removes exactly that payload
  from the live ones, keeps the heap well formed, and writes nothing but the block's own header.\<close>

theorem kfree_removes_block:
  assumes "il_invar h" and "il_releasable (p, len) h"
  shows "il_invar (kfree (of_nat p) h) \<and> il_regions (kfree (of_nat p) h) = il_regions h - {(p, len)}
    \<and> (\<forall>x. x \<notin> {of_nat p - 4, of_nat p - 3, of_nat p - 2, of_nat p - 1} \<longrightarrow>
         il_mem (kfree (of_nat p) h) x = il_mem h x)"
proof -
  have "il_mem (kfree (of_nat p) h) x = il_mem h x"
    if "x \<notin> {of_nat p - 4, of_nat p - 3, of_nat p - 2, of_nat p - 1}" for x
    using that by (simp add: kfree_def il_free_def record_block_header Let_def write32_def)
  then show ?thesis using il_free_removes [OF assms] by (simp add: kfree_def)
qed

definition example_heap :: il_allocator where
  "example_heap = \<lparr>mstart = 0x1000, mend = 0x1040,
     il_mem = write32 (write32 (\<lambda>_. 0) 0x1000 (20 OR 1)) 0x1018 36\<rparr>"

lemma example_heap_wf: "il_wf example_heap [(20, True), (36, False)]"
  by (simp add: il_wf_def example_heap_def read32_def write32_def)

theorem kfree_removes_block_witness:
  "il_invar (kfree 0x1004 example_heap) \<and> il_regions (kfree 0x1004 example_heap) = {}
    \<and> il_mem (kfree 0x1004 example_heap) 0x2000 = il_mem example_heap 0x2000"
proof -
  have "il_invar example_heap" by (rule il_wf_invar [OF example_heap_wf])
  moreover have "il_releasable (0x1004, 20) example_heap" and "il_regions example_heap = {(0x1004, 20)}"
    using il_wf_blocks [OF example_heap_wf] by (simp_all add: il_releasable_def il_regions_def example_heap_def)
  ultimately show ?thesis using kfree_removes_block [of example_heap "0x1004" 20] by simp
qed

text \<open>C21. \<open>kmalloc\<close> ends on every well-formed heap, whatever is asked for; when no free block is
  large enough it returns a null pointer and changes nothing.\<close>

theorem kmalloc_terminates:
  assumes "il_invar h"
  shows "(\<exists>p h'. kmalloc siz h = Some (p, h'))
    \<and> ((\<forall>b\<in>set (il_blocks h). \<not> fits (unat (align2 siz)) b) \<longrightarrow> kmalloc siz h = Some (0, h))"
proof -
  have "\<exists>p h'. kmalloc siz h = Some (p, h')"
    using alloc_loop_walks [OF assms [unfolded il_invar_def il_wf_def], of "align2 siz"]
    by (auto simp: kmalloc_def il_alloc_def Let_def split: list.splits)
  then show ?thesis using il_alloc_no_fit [OF assms [unfolded il_invar_def]] by (simp add: kmalloc_def)
qed

theorem kmalloc_terminates_witness:
  "(\<exists>p h'. kmalloc 0x2000000 (init_heap (\<lambda>_. 0)) = Some (p, h'))
    \<and> kmalloc 0x2000000 (init_heap (\<lambda>_. 0)) = Some (0, init_heap (\<lambda>_. 0))"
  using kmalloc_terminates [of "init_heap (\<lambda>_. 0)" "0x2000000"]
  by (simp add: init_heap_facts fits_def align2_def)

text \<open>Allocating from a block that leaves a remainder and freeing the result at once restores
  the list of blocks exactly: the freed block merges with the remainder behind it.\<close>

lemma kmalloc_kfree_roundtrip:
  assumes "il_wf h (pre @ (sz, False) # post)" and "\<forall>b\<in>set pre. \<not> fits (unat (align2 siz)) b"
    and "unat (align2 siz) + 4 < sz"
  shows "\<exists>p h'. kmalloc siz h = Some (p, h') \<and> il_wf (kfree p h') (pre @ (sz, False) # post)"
proof -
  let ?n = "unat (align2 siz)"
  define c where "c = unat (mstart h) + blocks_len pre"
  have "?n + 4 \<le> sz" using assms(3) by simp
  from il_alloc_carves [OF assms(1) refl assms(2) this c_def] obtain h' where h':
    "il_alloc siz h = Some (of_nat (c + 4), h')" "il_wf h' (pre @ carve ?n sz @ post)" "mstart h' = mstart h"
    by blast
  from h'(2) assms(3) have "il_wf h' (pre @ (?n, True) # (sz - 4 - ?n, False) # post)"
    by (simp add: carve_def)
  from il_free_releases(1) [OF this] h'(3) assms(3)
  have "il_wf (il_free (of_nat (c + 4)) h') (pre @ (sz, False) # post)"
    by (simp add: c_def del: of_nat_add)
  with h'(1) show ?thesis by (auto simp: kmalloc_def kfree_def)
qed

lemma kmalloc_kfree_roundtrip_witness:
  "\<exists>p h'. kmalloc 500 (init_heap (\<lambda>_. 0)) = Some (p, h') \<and> il_wf (kfree p h') [(0xFFFFFC, False)]"
  using kmalloc_kfree_roundtrip [of "init_heap (\<lambda>_. 0)" "[]" "0xFFFFFC" "[]" 500] init_heap_wf
  by (simp add: align2_def)

text \<open>C38. A free block of exactly the requested size is mishandled: the size of the remainder
  wraps around, its header is written over the header of the live block behind, and the next
  request of the same size returns the address of that live block a second time.\<close>

theorem kmalloc_exact_fit_double_allocation:
  assumes wf: "il_wf h (pre @ (sz, False) # (sz2, True) # post)" and sz: "sz = unat (align2 siz)"
    and pre: "\<forall>b\<in>set pre. \<not> fits sz b"
  shows "\<exists>p h1 q h2. kmalloc siz h = Some (p, h1) \<and> kmalloc siz h1 = Some (q, h2)
    \<and> read32 (il_mem h1) (q - 4) = 0xFFFFFFFC \<and> (unat q, sz2) \<in> il_regions h"
proof -
  let ?a = "unat (mstart h)" and ?e = "unat (mend h)"
  define c where "c = ?a + blocks_len pre"
  define d where "d = c + 4 + sz"
  note e = unat_u32_lt [of "mend h"]
  have siz: "align2 siz = of_nat sz" by (simp add: sz)
  from wf have hb: "heap_blocks (il_mem h) ?a ?e (pre @ (sz, False) # (sz2, True) # post)"
    by (simp add: il_wf_def)
  then have hc: "heap_blocks (il_mem h) c ?e ((sz, False) # (sz2, True) # post)"
    and hpre: "heap_blocks (il_mem h) ?a c pre" unfolding heap_blocks_append c_def by auto
  then have lt: "d + 4 + sz2 \<le> ?e" "even sz" by (simp_all add: d_def)
  let ?m = "write32 (write32 (il_mem h) (of_nat c) (of_nat sz OR 1)) (of_nat d) 0xFFFFFFFC"
  let ?h1 = "h\<lparr>il_mem := ?m\<rparr>"
  have "fits sz (sz, False)" by (simp add: fits_def)
  with pre have "\<forall>b\<in>set pre. \<not> fits (unat (align2 siz)) b" "fits (unat (align2 siz)) (sz, False)"
    by (simp_all add: sz)
  from il_alloc_first_fit [OF wf this c_def] alloc_place_exact [OF hc e]
  have k1: "kmalloc siz h = Some (of_nat c + 4, ?h1)" by (simp add: kmalloc_def siz d_def del: of_nat_add)
  have rc: "read32 ?m (of_nat c) = of_nat sz OR of_bool True"
    using lt e by (subst read32_write32_other) (auto simp: d_def)
  have hpre1: "heap_blocks ?m ?a c pre"
    using hpre lt e by (subst heap_blocks_write_above; simp add: d_def)+
  have nc: "(of_nat c :: u32) \<noteq> mend h" and nd: "(of_nat d :: u32) \<noteq> mend h"
    using lt e unat_of_nat_u32 [of c] unat_of_nat_u32 [of d] by (auto simp: d_def)
  have "alloc_loop (mstart h) (of_nat sz) ?h1 = alloc_loop (of_nat c) (of_nat sz) ?h1"
    using alloc_loop_skip [of ?h1 ?a c pre "of_nat sz"] hpre1 lt pre e unat_of_nat_u32 [of sz]
    by (simp add: d_def)
  also have "\<dots> = alloc_loop (of_nat d) (of_nat sz) ?h1"
    using nc rc header_decode [OF lt(2), of True]
    by (subst alloc_loop.simps)
      (simp add: is_allocated_def size_of_block_def next_block_def d_def add.commute add.left_commute)
  also have "\<dots> = Some (of_nat d + 4, ?h1\<lparr>il_mem := alloc_place (of_nat d) (of_nat sz) ?m\<rparr>)"
    using nd lt e unat_of_nat_u32 [of sz]
    by (subst alloc_loop.simps) (simp add: is_allocated_def size_of_block_def word_le_nat_alt d_def)
  finally have k2: "kmalloc siz ?h1 = Some (of_nat d + 4, ?h1\<lparr>il_mem := alloc_place (of_nat d) (of_nat sz) ?m\<rparr>)"
    by (simp add: kmalloc_def il_alloc_def siz)
  have "unat (of_nat d + 4 :: u32) = d + 4"
    using unat_of_nat_u32 [of "d + 4"] lt e by simp
  then have "(unat (of_nat d + 4 :: u32), sz2) \<in> il_regions h"
    using il_wf_blocks [OF wf] by (simp add: il_regions_def live_append c_def d_def)
  with k1 k2 show ?thesis by auto
qed

definition exact_heap :: il_allocator where
  "exact_heap = \<lparr>mstart = 0x1000, mend = 0x1030,
     il_mem = write32 (write32 (\<lambda>_. 0) 0x1000 20) 0x1018 (20 OR 1)\<rparr>"

lemma exact_heap_wf: "il_wf exact_heap ([] @ (20, False) # (20, True) # [])"
  by (simp add: il_wf_def exact_heap_def read32_def write32_def)

theorem kmalloc_exact_fit_double_allocation_witness:
  "\<exists>p h1 q h2. kmalloc 20 exact_heap = Some (p, h1) \<and> kmalloc 20 h1 = Some (q, h2)
    \<and> read32 (il_mem h1) (q - 4) = 0xFFFFFFFC \<and> (unat q, 20) \<in> il_regions exact_heap"
  by (rule kmalloc_exact_fit_double_allocation [OF exact_heap_wf]) (simp_all add: align2_def)

text \<open>The kernel's own heap test passes all its rounds on a fresh heap, yet it leaves the heap
  damaged: from its second round on the exact fit above occurs, the list of blocks ends in a cycle
  that never reaches the end of the heap, and a request for 32 MiB, twice the size of the heap, is
  granted.\<close>

lemma test_kmalloc_passes_on_damaged_heap:
  "\<exists>h p h'. test_kmalloc (init_heap m) = Some (Inr h) \<and> next_block (il_mem h) 0xD000022E = 0xD0000036
     \<and> kmalloc 0x2000000 h = Some (p, h') \<and> p \<noteq> 0 \<and> unat (mend h - mstart h) < 0x2000000"
proof -
  obtain h1 where h1: "test_kmalloc_round (init_heap m) = Some (Inr h1)" "test_blocks h1"
    using test_first_round by blast
  obtain h where h: "test_kmalloc_loop (Suc 4093) h1 = Some (Inr h)" "test_blocks h"
    "read32 (il_mem h) 0xD000022E = 0xFFFFFE04"
    using test_rounds [OF h1(2)] by blast
  have "(0x1000 :: nat) - 1 = Suc (Suc 4093)" by simp
  then have "test_kmalloc (init_heap m) = Some (Inr h)"
    unfolding test_kmalloc_def using h1(1) h(1) by (simp only: test_kmalloc_loop.simps option.case sum.case)
  moreover have "next_block (il_mem h) 0xD000022E = 0xD0000036" using h(3) by (simp add: heap_eval)
  moreover have "\<exists>p h'. kmalloc 0x2000000 h = Some (p, h') \<and> p \<noteq> 0"
    using h(2,3) by (simp add: test_blocks_def heap_eval)
  moreover have "unat (mend h - mstart h) < 0x2000000" using h(2) by (simp add: test_blocks_def)
  ultimately show ?thesis by blast
qed
end
