(* ===== verification/Sprite_String.thy ===== *)
theory Sprite_String
  imports Sprite_Memory "HOL-Library.Sublist"
begin

text \<open>
  The byte and string routines of \<open>lib/string.cc\<close> on byte memory. A \<open>char\<close> is a signed byte. The
  loops that look for a terminating NUL need not end on arbitrary memory, so they are partial
  functions; that they do end on a terminated string is part of what is proved. The \<open>int\<close> that
  \<open>strlen\<close> counts in is kept at 32 bits.
\<close>

section \<open>The routines\<close>

definition memcpy :: "u32 \<Rightarrow> u32 \<Rightarrow> u32 \<Rightarrow> mem \<Rightarrow> mem" where
  "memcpy dst src siz m = fold (\<lambda>i m. m(dst + of_nat i := m (src + of_nat i))) [0..<unat siz] m"

definition memset :: "u32 \<Rightarrow> u8 \<Rightarrow> u32 \<Rightarrow> mem \<Rightarrow> mem" where
  "memset dst val siz m = fold (\<lambda>i m. m(dst + of_nat i := val)) [0..<unat siz] m"

definition bzero :: "u32 \<Rightarrow> u32 \<Rightarrow> mem \<Rightarrow> mem" where
  "bzero dst siz m = memset dst 0 siz m"

partial_function (option) strcmp :: "mem \<Rightarrow> u32 \<Rightarrow> u32 \<Rightarrow> int option" where
  "strcmp m str1 str2 =
     (if m str1 \<noteq> 0 \<and> m str2 \<noteq> 0
      then if m str1 \<noteq> m str2 then Some (sint (m str1) - sint (m str2)) else strcmp m (str1 + 1) (str2 + 1)
      else if m str1 = 0 then Some 0
      else Some (sint (m str1) - sint (m str2)))"

partial_function (option) strcpy :: "u32 \<Rightarrow> u32 \<Rightarrow> mem \<Rightarrow> (u32 \<times> mem) option" where
  "strcpy dst src m =
     (if m src \<noteq> 0 then strcpy (dst + 1) (src + 1) (m(dst := m src)) else Some (dst, m))"

text \<open>The loop \<open>while (*dst++)\<close>: it returns the address one behind the NUL.\<close>

partial_function (option) skip_string :: "mem \<Rightarrow> u32 \<Rightarrow> u32 option" where
  "skip_string m dst = (if m dst \<noteq> 0 then skip_string m (dst + 1) else Some (dst + 1))"

definition strcat :: "u32 \<Rightarrow> u32 \<Rightarrow> mem \<Rightarrow> (u32 \<times> mem) option" where
  "strcat dst src m = Option.bind (skip_string m dst) (\<lambda>d. strcpy d src m)"

partial_function (option) strfind :: "mem \<Rightarrow> u32 \<Rightarrow> u8 \<Rightarrow> u32 option" where
  "strfind m str ch = (if m str \<noteq> 0 \<and> m str \<noteq> ch then strfind m (str + 1) ch else Some str)"

partial_function (option) strlen_loop :: "mem \<Rightarrow> u32 \<Rightarrow> u32 \<Rightarrow> u32 option" where
  "strlen_loop m src len = (if m src \<noteq> 0 then strlen_loop m (src + 1) (len + 1) else Some len)"

definition strlen :: "mem \<Rightarrow> u32 \<Rightarrow> u32 option" where
  "strlen m src = strlen_loop m src 0"

section \<open>Terminated strings\<close>

fun cstr :: "mem \<Rightarrow> u32 \<Rightarrow> u8 list \<Rightarrow> bool" where
  "cstr m a [] \<longleftrightarrow> m a = 0"
| "cstr m a (x # xs) \<longleftrightarrow> x \<noteq> 0 \<and> m a = x \<and> cstr m (a + 1) xs"

definition apart :: "u32 \<Rightarrow> nat \<Rightarrow> u32 \<Rightarrow> nat \<Rightarrow> bool" where
  "apart a n b k \<longleftrightarrow> (\<forall>i<n. \<forall>j<k. a + of_nat i \<noteq> b + of_nat j)"

lemma apartD: "apart a n b k \<Longrightarrow> i < n \<Longrightarrow> j < k \<Longrightarrow> a + of_nat i \<noteq> b + of_nat j"
  by (simp add: apart_def)

lemma apart_0D: "apart a n b k \<Longrightarrow> i < n \<Longrightarrow> 0 < k \<Longrightarrow> a + of_nat i \<noteq> b"
  using apartD [of a n b k i 0] by simp

lemma apart_Suc:
  assumes "apart a (Suc n) b (Suc k)"
  shows "apart (a + 1) n (b + 1) k"
  unfolding apart_def
proof (intro allI impI)
  fix i j assume "i < n" "j < k"
  then show "a + 1 + of_nat i \<noteq> b + 1 + of_nat j"
    using apartD [OF assms, of "Suc i" "Suc j"] by (simp add: algebra_simps)
qed

lemma apart_below:
  assumes "unat a + n \<le> unat b" and "unat b + k \<le> 2 ^ 32"
  shows "apart a n b k"
proof -
  have "unat (a + of_nat i) = unat a + i" if "i < n" for i
    using that assms unat_of_nat_u32 [of i] by (subst unat_add_lem [THEN iffD1]) auto
  moreover have "unat (b + of_nat j) = unat b + j" if "j < k" for j
    using that assms unat_of_nat_u32 [of j] by (subst unat_add_lem [THEN iffD1]) auto
  ultimately have "unat (a + of_nat i) \<noteq> unat (b + of_nat j)" if "i < n" "j < k" for i j
    using that assms by auto
  then show ?thesis unfolding apart_def by metis
qed

lemma apart_commute: "apart a n b k \<longleftrightarrow> apart b k a n"
  unfolding apart_def by metis

lemma cstr_nth: "cstr m a xs \<Longrightarrow> i < length xs \<Longrightarrow> m (a + of_nat i) = xs ! i"
proof (induction xs arbitrary: a i)
  case (Cons x xs)
  then show ?case using Cons.IH [of "a + 1" "i - 1"] by (cases i) (auto simp: algebra_simps)
qed simp

lemma cstr_end: "cstr m a xs \<Longrightarrow> m (a + of_nat (length xs)) = 0"
proof (induction xs arbitrary: a)
  case (Cons x xs)
  then show ?case using Cons.IH [of "a + 1"] by (auto simp: algebra_simps)
qed simp

lemma cstr_unique: "cstr m a xs \<Longrightarrow> cstr m a ys \<Longrightarrow> xs = ys"
proof (induction xs arbitrary: a ys)
  case Nil
  then show ?case by (cases ys) auto
next
  case (Cons x xs)
  then show ?case by (cases ys) auto
qed

lemma cstr_cong:
  "cstr m a xs \<Longrightarrow> (\<And>i. i \<le> length xs \<Longrightarrow> m' (a + of_nat i) = m (a + of_nat i)) \<Longrightarrow> cstr m' a xs"
proof (induction xs arbitrary: a)
  case Nil
  then show ?case using Nil.prems(2) [of 0] by simp
next
  case (Cons x xs)
  have "m' (a + 1 + of_nat i) = m (a + 1 + of_nat i)" if "i \<le> length xs" for i
    using Cons.prems(2) [of "Suc i"] that by (simp add: algebra_simps)
  with Cons show ?case using Cons.prems(2) [of 0] by auto
qed

lemma cstr_upd:
  "cstr m a xs \<Longrightarrow> (\<And>i. i \<le> length xs \<Longrightarrow> a + of_nat i \<noteq> x) \<Longrightarrow> cstr (m(x := v)) a xs"
  by (erule cstr_cong) simp

section \<open>What the routines compute\<close>

lemma offset_eq_iff: "i < 2 ^ 32 \<Longrightarrow> j < 2 ^ 32 \<Longrightarrow> (a :: u32) + of_nat i = a + of_nat j \<longleftrightarrow> i = j"
  by (simp add: of_nat_u32_eq_iff)

lemma memcpy_fold:
  assumes "n < 2 ^ 32" and "apart src n dst n"
  shows "(\<forall>i<n. fold (\<lambda>i m. m(dst + of_nat i := m (src + of_nat i))) [0..<n] m (dst + of_nat i) = m (src + of_nat i))
    \<and> (\<forall>x. (\<forall>i<n. x \<noteq> dst + of_nat i) \<longrightarrow>
         fold (\<lambda>i m. m(dst + of_nat i := m (src + of_nat i))) [0..<n] m x = m x)"
  using assms
proof (induction n)
  case (Suc n)
  have "apart src n dst n" using Suc.prems(2) by (simp add: apart_def)
  note IH = Suc.IH [OF _ this]
  have "src + of_nat n \<noteq> dst + of_nat i" if "i < n" for i
    using apartD [OF Suc.prems(2), of n i] that by simp
  with IH Suc.prems(1) show ?case by (auto simp: less_Suc_eq offset_eq_iff)
qed simp

lemma memset_fold:
  assumes "n < 2 ^ 32"
  shows "fold (\<lambda>i m. m((dst :: u32) + of_nat i := v)) [0..<n] m x = (if \<exists>i<n. x = dst + of_nat i then v else m x)"
  using assms by (induction n) (auto simp: less_Suc_eq)

lemma write_fold:
  assumes "n < 2 ^ 32"
  shows "i < n \<Longrightarrow> fold (\<lambda>i m. m((dst :: u32) + of_nat i := f i)) [0..<n] m (dst + of_nat i) = f i"
    and "(\<And>i. i < n \<Longrightarrow> x \<noteq> dst + of_nat i) \<Longrightarrow> fold (\<lambda>i m. m(dst + of_nat i := f i)) [0..<n] m x = m x"
  using assms by (induction n) (auto simp: less_Suc_eq of_nat_u32_eq_iff)

lemma sint_eq_iff: "sint (x :: u8) = sint y \<longleftrightarrow> x = y"
  by (metis signed_word_eqI)

lemma sint_zero_iff: "sint (x :: u8) = 0 \<longleftrightarrow> x = 0"
  using sint_eq_iff [of x 0] by simp

fun strcmp_list :: "u8 list \<Rightarrow> u8 list \<Rightarrow> int" where
  "strcmp_list [] ys = 0"
| "strcmp_list (x # xs) [] = sint x"
| "strcmp_list (x # xs) (y # ys) = (if x = y then strcmp_list xs ys else sint x - sint y)"

lemma strcmp_cstr: "cstr m a xs \<Longrightarrow> cstr m b ys \<Longrightarrow> strcmp m a b = Some (strcmp_list xs ys)"
  by (induction xs ys arbitrary: a b rule: strcmp_list.induct) (subst strcmp.simps; force)+

lemma strcmp_list_zero: "0 \<notin> set xs \<Longrightarrow> strcmp_list xs ys = 0 \<longleftrightarrow> prefix xs ys"
  by (induction xs ys rule: strcmp_list.induct) (auto simp: sint_eq_iff sint_zero_iff)

lemma cstr_nonzero: "cstr m a xs \<Longrightarrow> 0 \<notin> set xs"
  by (induction xs arbitrary: a) auto

lemma strcpy_cstr:
  assumes "cstr m src xs" and "apart src (Suc (length xs)) dst (length xs)"
  shows "strcpy dst src m = Some (dst + of_nat (length xs),
    fold (\<lambda>i m. m(dst + of_nat i := xs ! i)) [0..<length xs] m)"
  using assms
proof (induction xs arbitrary: src dst m)
  case Nil
  then show ?case by (subst strcpy.simps) simp
next
  case (Cons x xs)
  have ne: "src + of_nat i \<noteq> dst" if "i \<le> Suc (length xs)" for i
    using apart_0D [OF Cons.prems(2), of i] that by simp
  have "src + 1 + of_nat i \<noteq> dst" if "i \<le> length xs" for i
    using ne [of "Suc i"] that by (simp add: add.assoc)
  then have "cstr (m(dst := x)) (src + 1) xs" using Cons.prems(1) by (intro cstr_upd) auto
  moreover have "apart (src + 1) (Suc (length xs)) (dst + 1) (length xs)"
    using apart_Suc [of src "Suc (length xs)" dst "length xs"] Cons.prems(2) by simp
  ultimately have "strcpy (dst + 1) (src + 1) (m(dst := x)) = Some (dst + 1 + of_nat (length xs),
    fold (\<lambda>i m. m(dst + 1 + of_nat i := xs ! i)) [0..<length xs] (m(dst := x)))"
    by (rule Cons.IH)
  moreover have "fold (\<lambda>i m. m(dst + of_nat i := (x # xs) ! i)) [0..<Suc (length xs)] m =
    fold (\<lambda>i m. m(dst + 1 + of_nat i := xs ! i)) [0..<length xs] (m(dst := x))"
    by (simp add: upt_conv_Cons fold_map o_def add.assoc flip: map_Suc_upt del: upt_Suc)
  ultimately show ?case using Cons.prems(1)
    by (subst strcpy.simps) (simp add: add.assoc del: upt_Suc)
qed

lemma skip_string_cstr: "cstr m a xs \<Longrightarrow> skip_string m a = Some (a + of_nat (length xs) + 1)"
  by (induction xs arbitrary: a) (subst skip_string.simps; simp add: add.assoc)+

lemma strfind_cstr: "cstr m a xs \<Longrightarrow> strfind m a ch = Some (a + of_nat (length (takeWhile (\<lambda>x. x \<noteq> ch) xs)))"
  by (induction xs arbitrary: a) (subst strfind.simps; auto simp: add.assoc)+

lemma strlen_loop_cstr: "cstr m a xs \<Longrightarrow> strlen_loop m a n = Some (n + of_nat (length xs))"
  by (induction xs arbitrary: a n) (subst strlen_loop.simps; simp add: add.assoc)+

section \<open>Properties\<close>

text \<open>\<open>memcpy\<close> between two areas that do not overlap makes the destination equal to the source
  byte by byte and changes nothing else; \<open>bzero\<close> clears exactly its area.\<close>

lemma memcpy_copies:
  assumes "apart src (unat siz) dst (unat siz)"
  shows "(\<forall>i<unat siz. memcpy dst src siz m (dst + of_nat i) = m (src + of_nat i))
    \<and> (\<forall>x. (\<forall>i<unat siz. x \<noteq> dst + of_nat i) \<longrightarrow> memcpy dst src siz m x = m x)
    \<and> (\<forall>x. bzero dst siz m x = (if \<exists>i<unat siz. x = dst + of_nat i then 0 else m x))"
  using memcpy_fold [OF unat_u32_lt assms]
  by (simp add: memcpy_def bzero_def memset_def memset_fold [OF unat_u32_lt])

definition example_mem :: mem where
  "example_mem = (\<lambda>_. 0)(0x1000 := 0x61, 0x1001 := 0x62, 0x2000 := 0x61, 0x2001 := 0x62, 0x2002 := 0x63)"

lemma example_strings: "cstr example_mem 0x1000 [0x61, 0x62]" "cstr example_mem 0x2000 [0x61, 0x62, 0x63]"
  by (simp_all add: example_mem_def)

lemma memcpy_copies_witness:
  "memcpy 0x3000 0x2000 3 example_mem 0x3002 = 0x63 \<and> bzero 0x2000 3 example_mem 0x2001 = 0"
proof -
  have "apart 0x2000 3 0x3000 3" by (rule apart_below) simp_all
  then have "memcpy 0x3000 0x2000 3 example_mem (0x3000 + of_nat 2) = example_mem (0x2000 + of_nat 2)"
    using memcpy_copies [of "0x2000" 3 "0x3000" example_mem] by (simp del: of_nat_numeral)
  moreover have "apart 0x3000 3 0x2000 3" using \<open>apart 0x2000 3 0x3000 3\<close> by (simp add: apart_commute)
  then have "bzero 0x2000 3 example_mem (0x2000 + of_nat 1) =
      (if \<exists>i<3. (0x2000 :: u32) + of_nat 1 = 0x2000 + of_nat i then 0 else example_mem 0x2001)"
    using memcpy_copies [of "0x3000" 3 "0x2000" example_mem] by simp
  then have "bzero 0x2000 3 example_mem (0x2000 + of_nat 1) = 0"
    by (rule trans) (rule if_P, rule exI [of _ 1], simp)
  ultimately show ?thesis by (simp add: example_mem_def)
qed

text \<open>C33. \<open>strcmp\<close> of two terminated strings returns, and its result is zero exactly when the first
  string is a prefix of the second: a shorter name equals every longer one that starts with it.
  \<open>strlen\<close> returns the length and \<open>strfind\<close> the first occurrence or the end.\<close>

theorem strcmp_zero_iff_prefix:
  assumes "cstr m a xs" and "cstr m b ys"
  shows "\<exists>r. strcmp m a b = Some r \<and> (r = 0 \<longleftrightarrow> prefix xs ys)
    \<and> strlen m a = Some (of_nat (length xs))
    \<and> strfind m a ch = Some (a + of_nat (length (takeWhile (\<lambda>x. x \<noteq> ch) xs)))"
  using strcmp_cstr [OF assms] strcmp_list_zero [OF cstr_nonzero [OF assms(1)]]
    strlen_loop_cstr [OF assms(1), of 0] strfind_cstr [OF assms(1)]
  by (simp add: strlen_def)

theorem strcmp_zero_iff_prefix_witness:
  "strcmp example_mem 0x1000 0x2000 = Some 0 \<and> strlen example_mem 0x1000 = Some 2
    \<and> strlen example_mem 0x2000 = Some 3 \<and> strfind example_mem 0x2000 0x62 = Some 0x2001"
  using strcmp_zero_iff_prefix [OF example_strings, of 0]
    strcmp_zero_iff_prefix [OF example_strings(2,1), of "0x62"]
  by auto

text \<open>\<open>strcpy\<close> and \<open>strcat\<close> do not build terminated strings: \<open>strcpy\<close> copies the characters of
  the source but leaves the byte behind them as it was, and \<open>strcat\<close> appends behind the NUL of
  its first argument, which as a string stays what it was.\<close>

lemma strcpy_strcat_terminators:
  assumes "cstr m src xs" and "apart src (Suc (length xs)) dst (Suc (length ys) + length xs)"
    and "cstr m dst ys" and "length ys + length xs + 1 < 2 ^ 32"
  shows "(\<exists>m1. strcpy dst src m = Some (dst + of_nat (length xs), m1)
      \<and> (\<forall>i<length xs. m1 (dst + of_nat i) = xs ! i)
      \<and> m1 (dst + of_nat (length xs)) = m (dst + of_nat (length xs)))
    \<and> (\<exists>m2. strcat dst src m = Some (dst + of_nat (length ys + 1 + length xs), m2) \<and> cstr m2 dst ys)"
proof -
  let ?n = "length xs" and ?k = "length ys" and ?d = "dst + of_nat (length ys) + 1"
  have c: "apart src (Suc ?n) dst ?n" using assms(2) by (simp add: apart_def)
  have "src + of_nat i \<noteq> ?d + of_nat j" if "i < Suc ?n" "j < ?n" for i j
    using apartD [OF assms(2), of i "Suc ?k + j"] that by (simp add: algebra_simps)
  then have d: "apart src (Suc ?n) ?d ?n" by (simp add: apart_def)
  have ne: "dst + of_nat i \<noteq> ?d + of_nat j" if "i \<le> ?k" "j < ?n" for i j
    using offset_eq_iff [of i "?k + 1 + j" dst] that assms(4) by (simp add: algebra_simps)
  have "dst + of_nat ?n \<noteq> dst + of_nat i" if "i < ?n" for i
    using offset_eq_iff [of ?n i dst] that assms(4) by simp
  then have 1: "\<exists>m1. strcpy dst src m = Some (dst + of_nat ?n, m1) \<and> (\<forall>i<?n. m1 (dst + of_nat i) = xs ! i)
      \<and> m1 (dst + of_nat ?n) = m (dst + of_nat ?n)"
    using strcpy_cstr [OF assms(1) c] assms(4) by (simp add: write_fold)
  have "cstr (fold (\<lambda>i m. m(?d + of_nat i := xs ! i)) [0..<?n] m) dst ys"
    using assms(3) by (rule cstr_cong) (use ne assms(4) in \<open>simp add: write_fold\<close>)
  then have "\<exists>m2. strcat dst src m = Some (dst + of_nat (?k + 1 + ?n), m2) \<and> cstr m2 dst ys"
    using skip_string_cstr [OF assms(3)] strcpy_cstr [OF assms(1) d]
    by (simp add: strcat_def algebra_simps)
  with 1 show ?thesis by blast
qed

lemma strcpy_strcat_terminators_witness:
  "(\<exists>m1. strcpy 0x2000 0x1000 example_mem = Some (0x2002, m1) \<and> m1 0x2002 = 0x63)
    \<and> (\<exists>m2. strcat 0x2000 0x1000 example_mem = Some (0x2006, m2) \<and> cstr m2 0x2000 [0x61, 0x62, 0x63])"
proof -
  have "apart 0x1000 (Suc (length [0x61, 0x62 :: u8])) 0x2000
      (Suc (length [0x61, 0x62, 0x63 :: u8]) + length [0x61, 0x62 :: u8])"
    by (rule apart_below) simp_all
  from strcpy_strcat_terminators [OF example_strings(1) this example_strings(2)]
  show ?thesis by (auto simp: example_mem_def)
qed

end
