(* ===== verification/Sprite_Lru.thy ===== *)
theory Sprite_Lru
  imports Sprite_Heap Sprite_String
begin

text \<open>
  The cache of \<open>include/lrucache.hpp\<close>. The nodes form a doubly linked ring through \<open>prev\<close> and
  \<open>next\<close>, the least recently used one first, and are found through an open hash table with linear
  probing. The node fields are kept in a store that maps addresses to structures, the addresses come
  from the kernel heap, and the cached values lie behind the fields of their nodes in the heap's
  memory. The template parameters are arguments: \<open>N\<close>, the capacity, and \<open>tsz\<close>, the size of a value.
  The callback that a cache calls before it drops a value is the parameter \<open>cb\<close>: what the code at
  the address in \<open>cb_\<close> does when it is called with a key and the address of a value. It works on the
  whole state, the cache included, so that a callback which calls the cache again can be expressed;
  the state is an extensible record for the same reason. Loops that end only on a well-formed table
  are partial functions.
\<close>

section \<open>State\<close>

record ListNode =
  node_key :: u32
  node_prev :: u32
  node_next :: u32

record lru =
  lru_queue :: u32
  lru_pool :: u32
  lru_table :: "nat \<Rightarrow> u32"
  lru_count :: u32
  lru_cb :: u32
  lru_nodes :: "u32 \<Rightarrow> ListNode"
  lru_heap :: il_allocator

type_synonym 's callback = "u32 \<Rightarrow> u32 \<Rightarrow> u32 \<Rightarrow> 's \<Rightarrow> 's result option"

text \<open>A cache in static storage with its default member values.\<close>

definition LRUCache :: "(u32 \<Rightarrow> ListNode) \<Rightarrow> il_allocator \<Rightarrow> lru" where
  "LRUCache m h = \<lparr>lru_queue = 0, lru_pool = 0, lru_table = (\<lambda>_. 0), lru_count = 0, lru_cb = 0, lru_nodes = m, lru_heap = h\<rparr>"

text \<open>The address of the value of a node, and the size of a node.\<close>

definition value_of :: "u32 \<Rightarrow> u32" where
  "value_of x = x + 12"

definition sizeof_ListNode :: "u32 \<Rightarrow> u32" where
  "sizeof_ListNode tsz = (12 + tsz + 3) AND NOT 3"

definition set_key :: "u32 \<Rightarrow> u32 \<Rightarrow> (u32 \<Rightarrow> ListNode) \<Rightarrow> u32 \<Rightarrow> ListNode" where
  "set_key a k m = m(a := (m a)\<lparr>node_key := k\<rparr>)"

definition set_prev :: "u32 \<Rightarrow> u32 \<Rightarrow> (u32 \<Rightarrow> ListNode) \<Rightarrow> u32 \<Rightarrow> ListNode" where
  "set_prev a b m = m(a := (m a)\<lparr>node_prev := b\<rparr>)"

definition set_next :: "u32 \<Rightarrow> u32 \<Rightarrow> (u32 \<Rightarrow> ListNode) \<Rightarrow> u32 \<Rightarrow> ListNode" where
  "set_next a b m = m(a := (m a)\<lparr>node_next := b\<rparr>)"

section \<open>The queue\<close>

definition detach :: "u32 \<Rightarrow> 'a lru_scheme \<Rightarrow> 'a lru_scheme result" where
  "detach x s =
     (let m = lru_nodes s in
      if x = 0 \<or> node_prev (m x) = 0 then Inl NullDeref
      else let m = set_next (node_prev (m x)) (node_next (m x)) m in
        if node_next (m x) = 0 then Inl NullDeref
        else Inr (s\<lparr>lru_count := lru_count s - 1, lru_nodes := set_prev (node_next (m x)) (node_prev (m x)) m\<rparr>))"

definition push_back :: "nat \<Rightarrow> u32 \<Rightarrow> 'a lru_scheme \<Rightarrow> 'a lru_scheme result" where
  "push_back N x s =
     (if \<not> unat (lru_count s) < N then Inl (AssertFail ''full list'')
      else let s = s\<lparr>lru_count := lru_count s + 1\<rparr>; m = lru_nodes s; q = lru_queue s in
      if x = 0 then Inl NullDeref
      else if q \<noteq> 0
        then let tail = node_prev (m q) in
          if tail = 0 then Inl NullDeref
          else Inr (s\<lparr>lru_nodes := set_prev q x (set_next x q (set_prev x tail (set_next tail x m)))\<rparr>)
        else Inr (s\<lparr>lru_queue := x, lru_nodes := set_prev x x (set_next x x m)\<rparr>))"

definition pop_front :: "'a lru_scheme \<Rightarrow> 'a lru_scheme result" where
  "pop_front s =
     (let s = s\<lparr>lru_count := lru_count s - 1\<rparr>; m = lru_nodes s; q = lru_queue s in
      if q = 0 then Inl (AssertFail ''empty list'')
      else let tail = node_prev (m q); successor = node_next (m q) in
        if tail = 0 \<or> successor = 0 then Inl NullDeref
        else Inr (s\<lparr>lru_queue := successor, lru_nodes := set_next tail successor (set_prev successor tail m)\<rparr>))"

definition front :: "'a lru_scheme \<Rightarrow> u32 result" where
  "front s = (if lru_queue s = 0 then Inl (AssertFail ''empty list'') else Inr (lru_queue s))"

section \<open>Nodes\<close>

text \<open>\<open>alloc\<close> and \<open>free\<close> of the source. The constructor of a node clears its links only.\<close>

definition alloc_node :: "u32 \<Rightarrow> 'a lru_scheme \<Rightarrow> (u32 \<times> 'a lru_scheme) result option" where
  "alloc_node tsz s =
     (if lru_pool s \<noteq> 0
      then Some (Inr (lru_pool s, s\<lparr>lru_pool := node_next (lru_nodes s (lru_pool s))\<rparr>))
      else Option.bind (operator_new (sizeof_ListNode tsz) (lru_heap s)) (\<lambda>(p, h).
        if p = 0 then Some (Inl NullDeref)
        else Some (Inr (p, s\<lparr>lru_heap := h, lru_nodes := set_next p 0 (set_prev p 0 (lru_nodes s))\<rparr>))))"

definition free_node :: "'a lru_scheme callback \<Rightarrow> u32 \<Rightarrow> 'a lru_scheme \<Rightarrow> 'a lru_scheme result option" where
  "free_node cb x s =
     robind (if lru_cb s \<noteq> 0 then cb (lru_cb s) (node_key (lru_nodes s x)) (value_of x) s else Some (Inr s))
       (\<lambda>s. Some (Inr (s\<lparr>lru_nodes := set_next x (lru_pool s) (lru_nodes s), lru_pool := x\<rparr>)))"

section \<open>The hash table\<close>

definition hash :: "nat \<Rightarrow> nat \<Rightarrow> nat" where
  "hash N val = val mod N"

definition rehash :: "nat \<Rightarrow> nat \<Rightarrow> nat" where
  "rehash N val = hash N (val + 1)"

partial_function (option) erase_probe :: "nat \<Rightarrow> u32 \<Rightarrow> nat \<Rightarrow> 'a lru_scheme \<Rightarrow> nat result option" where
  "erase_probe N k h s =
     (if lru_table s h = 0 then Some (Inl NullDeref)
      else if node_key (lru_nodes s (lru_table s h)) \<noteq> k then erase_probe N k (rehash N h) s
      else Some (Inr h))"

definition erase :: "'a lru_scheme callback \<Rightarrow> nat \<Rightarrow> u32 \<Rightarrow> 'a lru_scheme \<Rightarrow> 'a lru_scheme result option" where
  "erase cb N k s =
     robind (erase_probe N k (hash N (unat k)) s) (\<lambda>h.
     robind (free_node cb (lru_table s h) s) (\<lambda>s.
     Some (Inr (s\<lparr>lru_table := (lru_table s)(h := 0)\<rparr>))))"

definition Promote :: "nat \<Rightarrow> nat \<Rightarrow> 'a lru_scheme \<Rightarrow> 'a lru_scheme result" where
  "Promote N h s =
     (let x = lru_table s h in
      rbind (detach x s) (\<lambda>s.
      push_back N x (if x = lru_queue s then s\<lparr>lru_queue := node_next (lru_nodes s (lru_queue s))\<rparr> else s)))"

text \<open>The loop of \<open>Get\<close>; the first argument is the number of probes \<open>cnt\<close> still allows.\<close>

fun get_probe :: "nat \<Rightarrow> nat \<Rightarrow> u32 \<Rightarrow> nat \<Rightarrow> 'a lru_scheme \<Rightarrow> nat option" where
  "get_probe 0 N k h s = None"
| "get_probe (Suc c) N k h s =
     (if lru_table s h = 0 then None
      else if node_key (lru_nodes s (lru_table s h)) \<noteq> k then get_probe c N k (rehash N h) s
      else Some h)"

definition Get :: "nat \<Rightarrow> u32 \<Rightarrow> 'a lru_scheme \<Rightarrow> (u32 \<times> 'a lru_scheme) result" where
  "Get N k s = (case get_probe N N k (hash N (unat k)) s of
       None \<Rightarrow> Inr (0, s)
     | Some h \<Rightarrow> rbind (Promote N h s) (\<lambda>s. Inr (value_of (lru_table s h), s)))"

partial_function (option) free_slot :: "nat \<Rightarrow> nat \<Rightarrow> 'a lru_scheme \<Rightarrow> nat option" where
  "free_slot N h s = (if lru_table s h \<noteq> 0 then free_slot N (rehash N h) s else Some h)"

text \<open>The first part of \<open>Set\<close>, which makes room in a full cache.\<close>

definition evict :: "'a lru_scheme callback \<Rightarrow> nat \<Rightarrow> 'a lru_scheme \<Rightarrow> 'a lru_scheme result option" where
  "evict cb N s =
     (if unat (lru_count s) \<ge> N
      then robind (Some (front s)) (\<lambda>tmp.
           robind (Some (pop_front s)) (\<lambda>s. erase cb N (node_key (lru_nodes s tmp)) s))
      else Some (Inr s))"

definition Set_value :: "'a lru_scheme callback \<Rightarrow> nat \<Rightarrow> u32 \<Rightarrow> u32 \<Rightarrow> u32 \<Rightarrow> 'a lru_scheme \<Rightarrow> (u32 \<times> 'a lru_scheme) result option" where
  "Set_value cb N tsz k v s =
     robind (evict cb N s) (\<lambda>s.
     Option.bind (free_slot N (hash N (unat k)) s) (\<lambda>h.
     robind (alloc_node tsz s) (\<lambda>(x, s).
     robind (Some (push_back N x (s\<lparr>lru_table := (lru_table s)(h := x)\<rparr>))) (\<lambda>s.
     let s = s\<lparr>lru_nodes := set_key x k (lru_nodes s)\<rparr>;
         s = (if v \<noteq> 0
              then s\<lparr>lru_heap := (lru_heap s)\<lparr>il_mem := memcpy (value_of x) v tsz (il_mem (lru_heap s))\<rparr>\<rparr>
              else s)
     in robind (Some (Promote N h s)) (\<lambda>s. Some (Inr (value_of x, s)))))))"

definition Alloc :: "'a lru_scheme callback \<Rightarrow> nat \<Rightarrow> u32 \<Rightarrow> u32 \<Rightarrow> 'a lru_scheme \<Rightarrow> (u32 \<times> 'a lru_scheme) result option" where
  "Alloc cb N tsz k s = Set_value cb N tsz k 0 s"

definition SetUncacheCallback :: "u32 \<Rightarrow> 'a lru_scheme \<Rightarrow> 'a lru_scheme" where
  "SetUncacheCallback cb s = s\<lparr>lru_cb := cb\<rparr>"

text \<open>\<open>clear\<close>: both loops delete a node after reading its link. A link that leads to 0 in the first
  loop is followed, which is a fault.\<close>

partial_function (option) clear_queue :: "u32 \<Rightarrow> 'a lru_scheme \<Rightarrow> 'a lru_scheme result option" where
  "clear_queue iter s =
     (if iter = 0 then Some (Inl NullDeref)
      else let tmp = node_next (lru_nodes s iter); s = s\<lparr>lru_heap := operator_delete iter (lru_heap s)\<rparr>
           in if tmp \<noteq> lru_queue s then clear_queue tmp s else Some (Inr s))"

partial_function (option) clear_pool :: "'a lru_scheme \<Rightarrow> 'a lru_scheme option" where
  "clear_pool s =
     (if lru_pool s \<noteq> 0
      then clear_pool (s\<lparr>lru_heap := operator_delete (lru_pool s) (lru_heap s),
             lru_pool := node_next (lru_nodes s (lru_pool s))\<rparr>)
      else Some s)"

definition clear :: "nat \<Rightarrow> 'a lru_scheme \<Rightarrow> 'a lru_scheme result option" where
  "clear N s =
     (let s = s\<lparr>lru_table := (\<lambda>h. if h < N then 0 else lru_table s h)\<rparr> in
      robind (if lru_queue s \<noteq> 0
              then robind (clear_queue (lru_queue s) s) (\<lambda>s. Some (Inr (s\<lparr>lru_queue := 0\<rparr>)))
              else Some (Inr s))
        (\<lambda>s. map_option Inr (clear_pool s)))"

text \<open>The destructor, and the two sizes.\<close>

definition LRUCache_destroy :: "nat \<Rightarrow> 'a lru_scheme \<Rightarrow> 'a lru_scheme result option" where
  "LRUCache_destroy N s = clear N s"

definition LRUCache_size :: "nat \<Rightarrow> nat" where
  "LRUCache_size N = N"

definition LRUCache_count :: "'a lru_scheme \<Rightarrow> u32" where
  "LRUCache_count s = lru_count s"

section \<open>Doubly linked rings\<close>

definition dlinked :: "(u32 \<Rightarrow> ListNode) \<Rightarrow> u32 list \<Rightarrow> bool" where
  "dlinked m xs = successively (\<lambda>a b. node_next (m a) = b \<and> node_prev (m b) = a) xs"

definition dring :: "(u32 \<Rightarrow> ListNode) \<Rightarrow> u32 list \<Rightarrow> bool" where
  "dring m xs \<longleftrightarrow> xs \<noteq> [] \<and> distinct xs \<and> 0 \<notin> set xs \<and> dlinked m (xs @ [hd xs])"

lemma dlinked_simps [simp]:
  "dlinked m []" "dlinked m [a]"
  "dlinked m (a # b # xs) \<longleftrightarrow> node_next (m a) = b \<and> node_prev (m b) = a \<and> dlinked m (b # xs)"
  by (simp_all add: dlinked_def)

lemma dlinked_append: "dlinked m (xs @ a # ys) \<longleftrightarrow> dlinked m (xs @ [a]) \<and> dlinked m (a # ys)"
  by (induction xs rule: induct_list012) (auto simp: dlinked_def)

lemma dlinked_appendD: "dlinked m (xs @ ys) \<Longrightarrow> dlinked m xs"
  by (simp add: dlinked_def successively_append_iff)

lemma last_notin_butlast: "distinct xs \<Longrightarrow> xs \<noteq> [] \<Longrightarrow> last xs \<notin> set (butlast xs)"
  by (induction xs rule: rev_induct) auto

lemma node_fields [simp]:
  "node_next (set_next a b m x) = (if x = a then b else node_next (m x))"
  "node_prev (set_next a b m x) = node_prev (m x)"
  "node_next (set_prev a b m x) = node_next (m x)"
  "node_prev (set_prev a b m x) = (if x = a then b else node_prev (m x))"
  "node_next (set_key a k m x) = node_next (m x)" "node_prev (set_key a k m x) = node_prev (m x)"
  "node_key (set_next a b m x) = node_key (m x)" "node_key (set_prev a b m x) = node_key (m x)"
  "node_key (set_key a k m x) = (if x = a then k else node_key (m x))"
  by (simp_all add: set_next_def set_prev_def set_key_def)

lemma dlinked_set_next: "a \<notin> set (butlast xs) \<Longrightarrow> dlinked (set_next a b m) xs \<longleftrightarrow> dlinked m xs"
  by (induction xs rule: induct_list012) auto

lemma dlinked_set_prev: "a \<notin> set (tl xs) \<Longrightarrow> dlinked (set_prev a b m) xs \<longleftrightarrow> dlinked m xs"
  by (induction xs rule: induct_list012) auto

lemma dlinked_set_key [simp]: "dlinked (set_key a k m) xs = dlinked m xs"
  by (induction xs rule: induct_list012) auto

lemma dring_set_key [simp]: "dring (set_key a k m) xs = dring m xs"
  by (simp add: dring_def)

lemma dring_frame:
  "x \<notin> set xs \<Longrightarrow> dring (set_next x b m) xs = dring m xs"
  "x \<notin> set xs \<Longrightarrow> dring (set_prev x b m) xs = dring m xs"
  by (cases xs; auto simp: dring_def dlinked_set_next dlinked_set_prev butlast_append)+

lemma dring_rotate1: "dring m (x # xs) \<Longrightarrow> dring m (xs @ [x])"
  using dlinked_append [of m xs x "[hd (xs @ [x])]"]
  by (cases xs) (auto simp: dring_def dlinked_append)

lemma dring_rotate: "dring m (xs @ ys) \<Longrightarrow> dring m (ys @ xs)"
proof (induction xs arbitrary: ys)
  case (Cons x xs)
  then show ?case using dring_rotate1 [of m x "xs @ ys"] Cons.IH [of "ys @ [x]"] by simp
qed simp

lemma dring_first:
  assumes "dring m (x # ys)"
  shows "node_next (m x) = hd (ys @ [x])" and "node_prev (m x) = last (x # ys)"
proof -
  show "node_next (m x) = hd (ys @ [x])" using assms by (cases ys) (auto simp: dring_def)
  obtain us l where us: "x # ys = us @ [l]" by (metis rev_exhaust list.distinct(1))
  have "dlinked m ((x # ys) @ [x])" using assms by (simp add: dring_def)
  then have "dlinked m (us @ l # [x])" by (simp only: us append_assoc append.simps)
  then show "node_prev (m x) = last (x # ys)"
    using dlinked_append [of m us l "[x]"] by (simp add: us)
qed

text \<open>Taking the first element out of a ring, and appending one.\<close>

lemma dring_unlink:
  assumes "dring m (x # ys)" and "ys \<noteq> []"
  shows "dring (set_prev (hd ys) (last ys) (set_next (last ys) (hd ys) m)) ys"
proof -
  let ?m = "set_prev (hd ys) (last ys) (set_next (last ys) (hd ys) m)"
  obtain y zs where ys: "ys = y # zs" using assms(2) by (cases ys) auto
  have d: "distinct ys" "0 \<notin> set ys" using assms(1) by (auto simp: dring_def)
  have "dlinked m (x # ys @ [x])" using assms(1) by (simp add: dring_def)
  then have "dlinked m (ys @ [x])" by (simp add: ys)
  then have "dlinked m ys" by (rule dlinked_appendD)
  then have "dlinked ?m ys"
    using d last_notin_butlast [OF d(1) assms(2)] by (simp add: dlinked_set_prev dlinked_set_next ys)
  then have "dlinked ?m (butlast ys @ [last ys])" by (simp only: append_butlast_last_id [OF assms(2)])
  then have "dlinked ?m (butlast ys @ last ys # [hd ys])"
    using d by (subst dlinked_append) auto
  then have "dlinked ?m (ys @ [hd ys])" using assms(2)
    by (metis append_Cons append_assoc append_butlast_last_id append_self_conv2)
  then show ?thesis using d assms(2) by (simp add: dring_def)
qed

lemma dring_push:
  assumes "dring m ys" and "x \<notin> set ys" and "x \<noteq> 0"
  shows "dring (set_prev (hd ys) x (set_next x (hd ys) (set_prev x (last ys) (set_next (last ys) x m)))) (ys @ [x])"
proof -
  let ?m = "set_prev (hd ys) x (set_next x (hd ys) (set_prev x (last ys) (set_next (last ys) x m)))"
  obtain y zs where ys: "ys = y # zs" using assms(1) by (cases ys) (auto simp: dring_def)
  have d: "distinct ys" "0 \<notin> set ys" using assms(1) by (auto simp: dring_def)
  have ne: "ys \<noteq> []" by (simp add: ys)
  have "x \<notin> set (butlast ys)" "x \<notin> set (tl ys)" "hd ys \<notin> set (tl ys)"
    using assms(2) d(1) by (auto simp: ys dest: in_set_butlastD split: if_splits)
  note n = this last_notin_butlast [OF d(1) ne]
  have "dlinked m (ys @ [y])" using assms(1) by (simp add: dring_def ys)
  then have "dlinked m ys" by (simp add: dlinked_def successively_append_iff)
  then have "dlinked ?m ys"
    using n by (simp add: dlinked_set_prev dlinked_set_next)
  then have "dlinked ?m (butlast ys @ [last ys])" by (simp only: append_butlast_last_id [OF ne])
  then have "dlinked ?m (butlast ys @ last ys # [x, hd ys])"
    using d assms(2) ys by (subst dlinked_append) auto
  moreover have "butlast ys @ last ys # [x, hd ys] = (ys @ [x]) @ [hd (ys @ [x])]" using ys by simp
  ultimately have "dlinked ?m ((ys @ [x]) @ [hd (ys @ [x])])" by (simp only:)
  then show ?thesis using d assms(2,3) by (simp add: dring_def)
qed

lemma dring_hd_prev: "dring m ys \<Longrightarrow> node_prev (m (hd ys)) = last ys"
  by (cases ys) (auto simp: dring_first dring_def)

lemma dring_nonzero: "dring m ys \<Longrightarrow> hd ys \<noteq> 0 \<and> last ys \<noteq> 0"
  by (metis dring_def hd_in_set last_in_set)

lemma push_back_ring:
  assumes "dring (lru_nodes s) ys" and "lru_queue s = hd ys" and "unat (lru_count s) < N" and "x \<notin> set ys" and "x \<noteq> 0"
  shows "\<exists>m. push_back N x s = Inr (s\<lparr>lru_count := lru_count s + 1, lru_nodes := m\<rparr>)
    \<and> dring m (ys @ [x]) \<and> (\<forall>a. node_key (m a) = node_key (lru_nodes s a))"
proof (intro exI conjI allI)
  show "push_back N x s = Inr (s\<lparr>lru_count := lru_count s + 1, lru_nodes :=
      set_prev (hd ys) x (set_next x (hd ys) (set_prev x (last ys) (set_next (last ys) x (lru_nodes s))))\<rparr>)"
    using assms dring_nonzero [OF assms(1)] by (simp add: push_back_def dring_hd_prev Let_def)
  show "dring (set_prev (hd ys) x (set_next x (hd ys) (set_prev x (last ys) (set_next (last ys) x (lru_nodes s))))) (ys @ [x])"
    by (rule dring_push [OF assms(1,4,5)])
qed simp

lemma pop_front_ring:
  assumes "dring (lru_nodes s) (x # ys)" and "lru_queue s = x" and "ys \<noteq> []"
  shows "\<exists>m. pop_front s = Inr (s\<lparr>lru_count := lru_count s - 1, lru_queue := hd ys, lru_nodes := m\<rparr>)
    \<and> dring m ys \<and> (\<forall>a. node_key (m a) = node_key (lru_nodes s a))"
proof (intro exI conjI allI)
  have d: "hd ys \<noteq> 0" "last ys \<noteq> 0" "x \<noteq> 0" using assms(1,3) by (auto simp: dring_def) (metis hd_in_set last_in_set)+
  show "pop_front s = Inr (s\<lparr>lru_count := lru_count s - 1, lru_queue := hd ys,
      lru_nodes := set_prev (hd ys) (last ys) (set_next (last ys) (hd ys) (lru_nodes s))\<rparr>)"
    using assms d dring_first [OF assms(1)]
    by (simp add: pop_front_def Let_def hd_append) (auto simp: set_prev_def set_next_def fun_eq_iff)
  show "dring (set_prev (hd ys) (last ys) (set_next (last ys) (hd ys) (lru_nodes s))) ys"
    by (rule dring_unlink [OF assms(1,3)])
qed simp

lemma queue_step:
  "(if b then t\<lparr>lru_queue := a\<rparr> else t) = t\<lparr>lru_queue := (if b then a else lru_queue t)\<rparr>"
  by simp

lemma lru_update_order:
  "s\<lparr>lru_nodes := m, lru_queue := q\<rparr> = s\<lparr>lru_queue := q, lru_nodes := m\<rparr>"
  "s\<lparr>lru_nodes := m, lru_count := c\<rparr> = s\<lparr>lru_count := c, lru_nodes := m\<rparr>"
  "s\<lparr>lru_queue := q, lru_count := c\<rparr> = s\<lparr>lru_count := c, lru_queue := q\<rparr>"
  by simp_all

lemma Promote_ring:
  assumes ring: "dring (lru_nodes s) (xs @ x # ys)" and q: "lru_queue s = hd (xs @ x # ys)" and t: "lru_table s h = x"
    and cnt: "0 < unat (lru_count s)" "unat (lru_count s) \<le> N"
  shows "\<exists>m. Promote N h s = Inr (s\<lparr>lru_queue := hd (xs @ ys @ [x]), lru_nodes := m\<rparr>)
    \<and> dring m (xs @ ys @ [x]) \<and> (\<forall>a. node_key (m a) = node_key (lru_nodes s a))"
proof -
  let ?m = "lru_nodes s"
  have c: "unat (lru_count s - 1) < N" using cnt by (subst unat_pred_word) auto
  have r: "dring ?m (x # ys @ xs)" using dring_rotate [OF ring] by simp
  have x0: "x \<noteq> 0" and d: "x \<notin> set ys" "x \<notin> set xs" using ring by (auto simp: dring_def)
  note f = dring_first [OF r]
  show ?thesis
  proof (cases "ys @ xs = []")
    case True
    let ?n = "set_prev x x (set_next x x (set_prev x x (set_next x x (set_prev x x (set_next x x ?m)))))"
    have "Promote N h s = Inr (s\<lparr>lru_nodes := ?n\<rparr>)" using True f q t x0 c
      by (simp add: Promote_def detach_def push_back_def Let_def)
    moreover have "dring ?n [x]" using x0 by (simp add: dring_def)
    ultimately show ?thesis using True q by (intro exI [of _ ?n]) simp
  next
    case False
    define n where "n = set_prev (hd (ys @ xs)) (last (ys @ xs)) (set_next (last (ys @ xs)) (hd (ys @ xs)) ?m)"
    let ?s = "s\<lparr>lru_count := lru_count s - 1, lru_queue := hd (xs @ ys), lru_nodes := n\<rparr>"
    have n: "dring n (xs @ ys)" unfolding n_def by (intro dring_rotate [of _ ys xs] dring_unlink [OF r False])
    have nz: "hd (ys @ xs) \<noteq> 0" "last (ys @ xs) \<noteq> 0" "x \<noteq> last (ys @ xs)"
      using dring_nonzero [OF dring_rotate [OF n]] last_in_set [OF False] d by auto
    have nx: "node_next (?m x) = hd (ys @ xs)" "node_prev (?m x) = last (ys @ xs)" using f False by (auto simp: hd_append)
    have det: "detach x s = Inr (s\<lparr>lru_count := lru_count s - 1, lru_nodes := n\<rparr>)"
      using x0 nz nx by (simp add: detach_def Let_def n_def)
    have eq: "(if x = lru_queue s then node_next (n (lru_queue s)) else lru_queue s) = hd (xs @ ys)"
      using q False d nz nx(1) by (cases xs) (auto simp: n_def)
    have "Promote N h s = push_back N x ?s"
      unfolding Promote_def det t Let_def queue_step rbind_Inr eq [symmetric]
      by (simp add: lru_update_order del: if_split)
    moreover obtain m where "push_back N x ?s = Inr (?s\<lparr>lru_count := lru_count ?s + 1, lru_nodes := m\<rparr>)"
      "dring m ((xs @ ys) @ [x])" "\<forall>a. node_key (m a) = node_key (lru_nodes ?s a)"
      using push_back_ring [of ?s "xs @ ys" N x] n c d x0 by auto
    moreover have "hd (xs @ ys) = hd (xs @ ys @ [x])" using False by (auto simp: hd_append)
    ultimately show ?thesis by (intro exI [of _ m]) (simp add: n_def)
  qed
qed

section \<open>Linear probing\<close>

text \<open>The probe sequence of a key, and the nodes it leads to without meeting an empty slot.\<close>

definition probe :: "nat \<Rightarrow> u32 \<Rightarrow> nat \<Rightarrow> nat" where
  "probe N k i = (unat k + i) mod N"

definition reached :: "nat \<Rightarrow> (nat \<Rightarrow> u32) \<Rightarrow> u32 \<Rightarrow> u32 \<Rightarrow> bool" where
  "reached N tbl k x \<longleftrightarrow> (\<exists>i<N. tbl (probe N k i) = x \<and> (\<forall>j<i. tbl (probe N k j) \<noteq> 0))"

lemma probe_0 [simp]: "hash N (unat k) = probe N k 0"
  by (simp add: hash_def probe_def)

lemma probe_Suc [simp]: "rehash N (probe N k i) = probe N k (Suc i)"
  by (simp add: rehash_def hash_def probe_def mod_Suc_eq)

lemma probe_less [simp]: "0 < N \<Longrightarrow> probe N k i < N"
  by (simp add: probe_def)

lemma probe_covers:
  assumes "h < N"
  shows "\<exists>i<N. probe N k i = h"
proof -
  let ?i = "(h + (N - unat k mod N)) mod N"
  have lt: "unat k mod N < N" using assms by simp
  have "(unat k + ?i) mod N = (unat k mod N + (h + (N - unat k mod N))) mod N"
    by (simp add: mod_simps)
  also have "\<dots> = (h + N) mod N" using lt by (simp add: algebra_simps)
  finally have "probe N k ?i = h" using assms by (simp add: probe_def)
  then show ?thesis using assms by (intro exI [of _ ?i]) simp
qed

lemma get_probe_hit:
  assumes "d \<le> i" and "i < d + c" and "lru_table s (probe N k i) \<noteq> 0"
    and "node_key (lru_nodes s (lru_table s (probe N k i))) = k"
    and "\<forall>j<i. lru_table s (probe N k j) \<noteq> 0 \<and> node_key (lru_nodes s (lru_table s (probe N k j))) \<noteq> k"
  shows "get_probe c N k (probe N k d) s = Some (probe N k i)"
  using assms(1,2)
proof (induction c arbitrary: d)
  case (Suc c)
  show ?case
  proof (cases "d = i")
    case False
    then show ?thesis using Suc assms(5) by simp
  qed (use assms in simp)
qed simp

lemma get_probe_miss:
  assumes "\<And>h. h < N \<Longrightarrow> lru_table s h \<noteq> 0 \<Longrightarrow> node_key (lru_nodes s (lru_table s h)) \<noteq> k" and "0 < N"
  shows "get_probe c N k (probe N k d) s = None"
  by (induction c arbitrary: d) (use assms in auto)

lemma erase_probe_hit:
  assumes "d \<le> i" and "lru_table s (probe N k i) \<noteq> 0"
    and "node_key (lru_nodes s (lru_table s (probe N k i))) = k"
    and "\<forall>j<i. lru_table s (probe N k j) \<noteq> 0 \<and> node_key (lru_nodes s (lru_table s (probe N k j))) \<noteq> k"
  shows "erase_probe N k (probe N k d) s = Some (Inr (probe N k i))"
  using assms(1)
proof (induction "i - d" arbitrary: d)
  case 0
  then show ?case using assms by (subst erase_probe.simps) simp
next
  case (Suc n)
  then have "d < i" by simp
  then show ?case using Suc assms(4) by (subst erase_probe.simps) simp
qed

lemma free_slot_found:
  assumes "d \<le> i" and "lru_table s (probe N k i) = 0" and "\<forall>j<i. lru_table s (probe N k j) \<noteq> 0"
  shows "free_slot N (probe N k d) s = Some (probe N k i)"
  using assms(1)
proof (induction "i - d" arbitrary: d)
  case 0
  then show ?case using assms by (subst free_slot.simps) simp
next
  case (Suc n)
  then have "d < i" by simp
  then show ?case using Suc assms(3) by (subst free_slot.simps) simp
qed

lemma first_empty:
  assumes "h < N" and "tbl h = (0 :: u32)"
  shows "\<exists>i<N. tbl (probe N k i) = 0 \<and> (\<forall>j<i. tbl (probe N k j) \<noteq> 0)"
proof -
  obtain i0 where i0: "i0 < N" "tbl (probe N k i0) = 0" using probe_covers [OF assms(1), of k] assms(2) by auto
  define i where "i = (LEAST i. tbl (probe N k i) = 0)"
  have 0: "tbl (probe N k i) = 0" unfolding i_def using i0(2) by (rule LeastI)
  have le: "i \<le> i0" unfolding i_def using i0(2) by (rule Least_le)
  have "tbl (probe N k j) \<noteq> 0" if "j < i" for j using not_less_Least [OF that [unfolded i_def]] .
  with 0 le i0(1) show ?thesis by (metis le_less_trans)
qed

text \<open>The slots in use of a table that holds the nodes \<open>A\<close>, each once.\<close>

definition slots :: "nat \<Rightarrow> (nat \<Rightarrow> u32) \<Rightarrow> nat set" where
  "slots N tbl = {h. h < N \<and> tbl h \<noteq> 0}"

lemma finite_slots [simp]: "finite (slots N tbl)"
  by (simp add: slots_def)

lemma slots_insert: "h < N \<Longrightarrow> x \<noteq> 0 \<Longrightarrow> slots N (tbl(h := x)) = insert h (slots N tbl)"
  by (auto simp: slots_def)

lemma slots_remove: "slots N (tbl(h := 0)) = slots N tbl - {h}"
  by (auto simp: slots_def)

lemma table_insert:
  assumes "bij_betw tbl (slots N tbl) A" and "h < N" and "tbl h = 0" and "x \<notin> A" and "x \<noteq> 0"
  shows "bij_betw (tbl(h := x)) (slots N (tbl(h := x))) (insert x A)"
proof -
  have n: "h \<notin> slots N tbl" using assms(3) by (simp add: slots_def)
  have "bij_betw (tbl(h := x)) (slots N tbl) A"
    using assms(1) n by (subst bij_betw_cong [where g = tbl]) auto
  then have "bij_betw (tbl(h := x)) (insert h (slots N tbl)) (insert ((tbl(h := x)) h) A)"
    using n assms(4) by (intro notIn_Un_bij_betw [of h _ _ A, simplified]) auto
  then show ?thesis using assms by (simp add: slots_insert)
qed

lemma table_remove:
  assumes "bij_betw tbl (slots N tbl) A" and "h \<in> slots N tbl"
  shows "bij_betw (tbl(h := 0)) (slots N (tbl(h := 0))) (A - {tbl h})"
proof -
  have "bij_betw tbl (slots N tbl - {h}) (A - {tbl h})"
    using assms by (auto simp: bij_betw_def inj_on_def)
  then have "bij_betw (tbl(h := 0)) (slots N tbl - {h}) (A - {tbl h})"
    by (subst bij_betw_cong [where g = tbl]) auto
  then show ?thesis by (simp add: slots_remove)
qed

lemma table_empty_slot:
  assumes "bij_betw tbl (slots N tbl) A" and "card A < N"
  shows "\<exists>h<N. tbl h = 0"
proof (rule ccontr)
  assume "\<not> ?thesis"
  then have "slots N tbl = {..<N}" by (auto simp: slots_def)
  then show False using bij_betw_same_card [OF assms(1)] assms(2) by simp
qed

lemma table_full:
  assumes "bij_betw tbl (slots N tbl) A" and "card A = N" and "h < N"
  shows "tbl h \<noteq> 0"
proof -
  have "slots N tbl \<subseteq> {..<N}" by (auto simp: slots_def)
  moreover have "card (slots N tbl) = card {..<N}" using bij_betw_same_card [OF assms(1)] assms(2) by simp
  ultimately have "slots N tbl = {..<N}" by (intro card_subset_eq) auto
  then show ?thesis using assms(3) by (auto simp: slots_def)
qed

section \<open>The invariant\<close>

definition queue_list :: "'a lru_scheme \<Rightarrow> u32 list \<Rightarrow> bool" where
  "queue_list s ns \<longleftrightarrow> (if ns = [] then lru_queue s = 0 else dring (lru_nodes s) ns \<and> lru_queue s = hd ns)"

text \<open>\<open>lru_list N tsz s ns\<close>: the cache holds the nodes \<open>ns\<close>, the least recently used one first. The
  table holds each of them once, where probing for its key finds it; keys are distinct; the pool is
  empty between operations; every node is the start of a live heap block that is large enough.\<close>

definition lru_list :: "nat \<Rightarrow> u32 \<Rightarrow> 'a lru_scheme \<Rightarrow> u32 list \<Rightarrow> bool" where
  "lru_list N tsz s ns \<longleftrightarrow> 1 < N \<and> N < 2 ^ 32 \<and> 12 \<le> unat (sizeof_ListNode tsz) \<and> queue_list s ns
     \<and> unat (lru_count s) = length ns \<and> length ns \<le> N
     \<and> bij_betw (lru_table s) (slots N (lru_table s)) (set ns)
     \<and> (\<forall>x\<in>set ns. reached N (lru_table s) (node_key (lru_nodes s x)) x)
     \<and> distinct (map (\<lambda>x. node_key (lru_nodes s x)) ns)
     \<and> lru_pool s = 0 \<and> il_invar (lru_heap s) \<and> 0 < mstart (lru_heap s)
     \<and> (\<forall>x\<in>set ns. \<exists>len>0. unat (sizeof_ListNode tsz) \<le> len \<and> (unat x, len) \<in> il_regions (lru_heap s))"

definition lru_keys :: "'a lru_scheme \<Rightarrow> u32 list \<Rightarrow> u32 list" where
  "lru_keys s ns = map (\<lambda>x. node_key (lru_nodes s x)) ns"

text \<open>What a cache does to the keys it holds, the least recently used one first.\<close>

definition spec_get :: "u32 \<Rightarrow> u32 list \<Rightarrow> u32 list" where
  "spec_get k ks = (if k \<in> set ks then remove1 k ks @ [k] else ks)"

definition spec_alloc :: "nat \<Rightarrow> u32 \<Rightarrow> u32 list \<Rightarrow> u32 list" where
  "spec_alloc N k ks = (if length ks < N then ks else tl ks) @ [k]"

lemma lru_list_nonzero: "lru_list N tsz s ns \<Longrightarrow> 0 \<notin> set ns \<and> distinct ns"
  by (cases "ns = []") (auto simp: lru_list_def queue_list_def dring_def)

lemma table_nodes: "bij_betw tbl (slots N tbl) A \<Longrightarrow> h < N \<Longrightarrow> tbl h \<noteq> 0 \<Longrightarrow> tbl h \<in> A"
  by (auto simp: bij_betw_def slots_def)

text \<open>The first probe that meets a node of the cache.\<close>

lemma probe_node:
  assumes inv: "lru_list N tsz s ns" and x: "x \<in> set ns" and k: "node_key (lru_nodes s x) = k"
  shows "\<exists>i<N. lru_table s (probe N k i) = x \<and>
    (\<forall>j<i. lru_table s (probe N k j) \<noteq> 0 \<and> node_key (lru_nodes s (lru_table s (probe N k j))) \<noteq> k)"
proof -
  let ?P = "\<lambda>i. lru_table s (probe N k i) = x"
  obtain i where i: "i < N" "?P i" "\<forall>j<i. lru_table s (probe N k j) \<noteq> 0"
    using inv x k by (auto simp: lru_list_def reached_def)
  define i' where "i' = (LEAST i. ?P i)"
  have P: "?P i'" unfolding i'_def using i(2) by (rule LeastI)
  have le: "i' \<le> i" unfolding i'_def using i(2) by (rule Least_le)
  have "lru_table s (probe N k j) \<noteq> 0 \<and> node_key (lru_nodes s (lru_table s (probe N k j))) \<noteq> k" if j: "j < i'" for j
  proof
    show nz: "lru_table s (probe N k j) \<noteq> 0" using i(3) le j by simp
    have "lru_table s (probe N k j) \<in> set ns"
      using inv nz i(1) by (intro table_nodes [of _ N]) (auto simp: lru_list_def)
    moreover have "lru_table s (probe N k j) \<noteq> x" using not_less_Least [OF j [unfolded i'_def]] .
    ultimately show "node_key (lru_nodes s (lru_table s (probe N k j))) \<noteq> k"
      using inv x k by (auto simp: lru_list_def distinct_map inj_on_def)
  qed
  with P le i(1) show ?thesis by (metis le_less_trans)
qed

lemma lru_list_promoted:
  assumes inv: "lru_list N tsz s (xs @ x # ys)" and ring: "dring m (xs @ ys @ [x])"
    and key: "\<forall>a. node_key (m a) = node_key (lru_nodes s a)"
  shows "lru_list N tsz (s\<lparr>lru_queue := hd (xs @ ys @ [x]), lru_nodes := m\<rparr>) (xs @ ys @ [x])"
  using inv ring key by (auto simp: lru_list_def queue_list_def)

lemma Promote_list:
  assumes inv: "lru_list N tsz s (xs @ x # ys)" and t: "lru_table s h = x"
  shows "\<exists>m. Promote N h s = Inr (s\<lparr>lru_queue := hd (xs @ ys @ [x]), lru_nodes := m\<rparr>)
    \<and> (\<forall>a. node_key (m a) = node_key (lru_nodes s a))
    \<and> lru_list N tsz (s\<lparr>lru_queue := hd (xs @ ys @ [x]), lru_nodes := m\<rparr>) (xs @ ys @ [x])"
proof -
  have "dring (lru_nodes s) (xs @ x # ys)" "lru_queue s = hd (xs @ x # ys)"
    "0 < unat (lru_count s)" "unat (lru_count s) \<le> N" using inv by (simp_all add: lru_list_def queue_list_def)
  from Promote_ring [OF this(1,2) t this(3,4)] lru_list_promoted [OF inv] show ?thesis by blast
qed

lemma Get_hit:
  assumes inv: "lru_list N tsz s (xs @ x # ys)"
  shows "\<exists>m. Get N (node_key (lru_nodes s x)) s = Inr (value_of x, s\<lparr>lru_queue := hd (xs @ ys @ [x]), lru_nodes := m\<rparr>)
    \<and> (\<forall>a. node_key (m a) = node_key (lru_nodes s a))
    \<and> lru_list N tsz (s\<lparr>lru_queue := hd (xs @ ys @ [x]), lru_nodes := m\<rparr>) (xs @ ys @ [x])"
proof -
  let ?k = "node_key (lru_nodes s x)"
  obtain i where i: "i < N" "lru_table s (probe N ?k i) = x"
    "\<forall>j<i. lru_table s (probe N ?k j) \<noteq> 0 \<and> node_key (lru_nodes s (lru_table s (probe N ?k j))) \<noteq> ?k"
    using probe_node [OF inv, of x ?k] by auto
  have "x \<noteq> 0" using lru_list_nonzero [OF inv] by auto
  then have "get_probe N N ?k (probe N ?k 0) s = Some (probe N ?k i)" using i by (intro get_probe_hit) auto
  moreover obtain m where "Promote N (probe N ?k i) s = Inr (s\<lparr>lru_queue := hd (xs @ ys @ [x]), lru_nodes := m\<rparr>)"
    "\<forall>a. node_key (m a) = node_key (lru_nodes s a)"
    "lru_list N tsz (s\<lparr>lru_queue := hd (xs @ ys @ [x]), lru_nodes := m\<rparr>) (xs @ ys @ [x])"
    using Promote_list [OF inv i(2)] by blast
  ultimately show ?thesis using i(2) by (intro exI [of _ m]) (simp add: Get_def)
qed

lemma Get_miss:
  assumes inv: "lru_list N tsz s ns" and k: "k \<notin> set (lru_keys s ns)"
  shows "Get N k s = Inr (0, s)"
proof -
  have "node_key (lru_nodes s (lru_table s h)) \<noteq> k" if "h < N" "lru_table s h \<noteq> 0" for h
    using table_nodes [of "lru_table s" N "set ns" h] that inv k by (auto simp: lru_list_def lru_keys_def)
  then have "get_probe N N k (probe N k 0) s = None" using inv by (intro get_probe_miss) (auto simp: lru_list_def)
  then show ?thesis by (simp add: Get_def)
qed

section \<open>Insertion and eviction\<close>

text \<open>The part of the invariant that also holds in the middle of \<open>Set\<close>.\<close>

definition lru_core :: "nat \<Rightarrow> u32 \<Rightarrow> 'a lru_scheme \<Rightarrow> u32 list \<Rightarrow> bool" where
  "lru_core N tsz s ns \<longleftrightarrow> 1 < N \<and> N < 2 ^ 32 \<and> 12 \<le> unat (sizeof_ListNode tsz) \<and> queue_list s ns
     \<and> unat (lru_count s) = length ns \<and> length ns \<le> N
     \<and> bij_betw (lru_table s) (slots N (lru_table s)) (set ns)
     \<and> distinct (map (\<lambda>x. node_key (lru_nodes s x)) ns)
     \<and> il_invar (lru_heap s) \<and> 0 < mstart (lru_heap s)
     \<and> (\<forall>x\<in>set ns. \<exists>len>0. unat (sizeof_ListNode tsz) \<le> len \<and> (unat x, len) \<in> il_regions (lru_heap s))"

definition all_reached :: "nat \<Rightarrow> 'a lru_scheme \<Rightarrow> u32 list \<Rightarrow> bool" where
  "all_reached N s ns \<longleftrightarrow> (\<forall>x\<in>set ns. reached N (lru_table s) (node_key (lru_nodes s x)) x)"

lemma lru_list_core: "lru_list N tsz s ns \<longleftrightarrow> lru_core N tsz s ns \<and> all_reached N s ns \<and> lru_pool s = 0"
  by (auto simp: lru_list_def lru_core_def all_reached_def)

text \<open>A table without empty slots leads to every node, whatever its key.\<close>

lemma full_reached:
  assumes "bij_betw tbl (slots N tbl) A" and "card A = N" and "x \<in> A"
  shows "reached N tbl k x"
proof -
  obtain h where h: "h < N" "tbl h = x" using assms(1,3) by (auto simp: bij_betw_def slots_def)
  then obtain i where "i < N" "probe N k i = h" using probe_covers by blast
  moreover have "tbl (probe N k j) \<noteq> 0" for j
    using table_full [OF assms(1,2), of "probe N k j"] h(1) by auto
  ultimately show ?thesis unfolding reached_def using h(2) by blast
qed

lemma reached_upd: "reached N tbl k x \<Longrightarrow> tbl h = 0 \<Longrightarrow> x \<noteq> 0 \<Longrightarrow> y \<noteq> 0 \<Longrightarrow> reached N (tbl(h := y)) k x"
  unfolding reached_def by (metis fun_upd_other fun_upd_same)

lemma push_back_list:
  assumes "queue_list s ns" and "unat (lru_count s) < N" and "x \<notin> set ns" and "x \<noteq> 0"
  shows "\<exists>m. push_back N x s = Inr (s\<lparr>lru_count := lru_count s + 1, lru_queue := hd (ns @ [x]), lru_nodes := m\<rparr>)
    \<and> dring m (ns @ [x]) \<and> (\<forall>a. node_key (m a) = node_key (lru_nodes s a))"
proof (cases "ns = []")
  case True
  then show ?thesis using assms
    by (intro exI [of _ "set_prev x x (set_next x x (lru_nodes s))"])
      (simp add: push_back_def queue_list_def Let_def dring_def)
next
  case False
  then have q: "dring (lru_nodes s) ns" "lru_queue s = hd ns" "hd (ns @ [x]) = lru_queue s"
    using assms by (simp_all add: queue_list_def)
  have e: "s\<lparr>lru_count := c, lru_queue := lru_queue s, lru_nodes := m\<rparr> = s\<lparr>lru_count := c, lru_nodes := m\<rparr>" for c m
    by simp
  show ?thesis using push_back_ring [OF q(1,2) assms(2-4)] unfolding q(3) e .
qed

text \<open>\<open>entry = alloc(); push_back(entry); entry->key = k;\<close> for a node \<open>x\<close> that is not in the cache.\<close>

lemma insert_list:
  assumes core: "lru_core N tsz s ns" and pool: "lru_pool s = 0"
    and len: "length ns < N" and x: "x \<notin> set ns" "x \<noteq> 0" and k: "k \<notin> set (lru_keys s ns)"
    and blk: "0 < sz" "unat (sizeof_ListNode tsz) \<le> sz" "(unat x, sz) \<in> il_regions (lru_heap s)"
    and i: "i < N" "lru_table s (probe N k i) = 0" "\<forall>j<i. lru_table s (probe N k j) \<noteq> 0"
    and r: "all_reached N s ns \<or> Suc (length ns) = N"
  shows "\<exists>m. push_back N x (s\<lparr>lru_table := (lru_table s)(probe N k i := x)\<rparr>) =
       Inr (s\<lparr>lru_table := (lru_table s)(probe N k i := x), lru_count := lru_count s + 1,
              lru_queue := hd (ns @ [x]), lru_nodes := m\<rparr>)
    \<and> (\<forall>a. node_key (m a) = node_key (lru_nodes s a))
    \<and> lru_list N tsz (s\<lparr>lru_table := (lru_table s)(probe N k i := x), lru_count := lru_count s + 1,
              lru_queue := hd (ns @ [x]), lru_nodes := set_key x k m\<rparr>) (ns @ [x])"
proof -
  let ?tbl = "(lru_table s)(probe N k i := x)"
  let ?t = "s\<lparr>lru_table := ?tbl\<rparr>"
  have bij: "bij_betw ?tbl (slots N ?tbl) (set (ns @ [x]))"
    using core table_insert [of "lru_table s" N "set ns" "probe N k i" x] x i by (simp add: lru_core_def)
  have ns: "0 \<notin> set ns" "distinct ns" using core by (auto simp: lru_core_def queue_list_def dring_def split: if_splits)
  have qt: "queue_list ?t ns" using core by (simp add: lru_core_def queue_list_def)
  obtain m where m: "push_back N x ?t = Inr (?t\<lparr>lru_count := lru_count s + 1, lru_queue := hd (ns @ [x]), lru_nodes := m\<rparr>)"
    "dring m (ns @ [x])" "\<forall>a. node_key (m a) = node_key (lru_nodes s a)"
    using push_back_list [OF qt, of N x] core len x by (auto simp: lru_core_def)
  let ?s = "?t\<lparr>lru_count := lru_count s + 1, lru_queue := hd (ns @ [x]), lru_nodes := set_key x k m\<rparr>"
  have keys: "node_key (lru_nodes ?s a) = (if a = x then k else node_key (lru_nodes s a))" for a using m(3) by simp
  have cnt: "unat (lru_count s + 1) = Suc (length ns)"
    using core len by (subst unat_Suc_word) (simp_all add: lru_core_def)
  have mp: "map (\<lambda>a. node_key (lru_nodes ?s a)) (ns @ [x]) = lru_keys s ns @ [k]"
    unfolding lru_keys_def keys using x(1) by auto
  have "distinct (map (\<lambda>a. node_key (lru_nodes ?s a)) (ns @ [x]))"
    using core k unfolding mp by (auto simp: lru_core_def lru_keys_def)
  moreover have "reached N ?tbl (node_key (lru_nodes ?s a)) a" if a: "a \<in> set (ns @ [x])" for a
  proof (cases "Suc (length ns) = N")
    case True
    then show ?thesis using full_reached [OF bij] a ns(2) x(1) by (simp add: distinct_card)
  next
    case False
    have "reached N ?tbl k x" unfolding reached_def using i x(2)
      by (intro exI [of _ i]) auto
    moreover have "reached N ?tbl (node_key (lru_nodes s a)) a" if "a \<in> set ns"
      using r False that i(2) x ns(1) by (intro reached_upd) (auto simp: all_reached_def)
    ultimately show ?thesis using a x(1) unfolding keys by auto
  qed
  ultimately have "lru_list N tsz ?s (ns @ [x])"
    using core len bij m(2) cnt pool blk by (auto simp: lru_list_def lru_core_def queue_list_def)
  then show ?thesis using m by blast
qed

lemma enter_list:
  assumes "lru_core N tsz s ns" and "lru_pool s = 0" and "length ns < N" and "x \<notin> set ns" and "x \<noteq> 0"
    and "k \<notin> set (lru_keys s ns)" and "0 < sz" and "unat (sizeof_ListNode tsz) \<le> sz"
    and "(unat x, sz) \<in> il_regions (lru_heap s)" and "i < N" and "lru_table s (probe N k i) = 0"
    and "\<forall>j<i. lru_table s (probe N k j) \<noteq> 0" and "all_reached N s ns \<or> Suc (length ns) = N"
  shows "\<exists>s'. robind (Some (push_back N x (s\<lparr>lru_table := (lru_table s)(probe N k i := x)\<rparr>)))
       (\<lambda>s. robind (Some (Promote N (probe N k i) (s\<lparr>lru_nodes := set_key x k (lru_nodes s)\<rparr>)))
              (\<lambda>s. Some (Inr (value_of x, s)))) = Some (Inr (value_of x, s'))
    \<and> lru_list N tsz s' (ns @ [x]) \<and> (\<forall>a. node_key (lru_nodes s' a) = (if a = x then k else node_key (lru_nodes s a)))
    \<and> lru_heap s' = lru_heap s \<and> lru_cb s' = lru_cb s \<and> lru.more s' = lru.more s"
proof -
  obtain m where m: "push_back N x (s\<lparr>lru_table := (lru_table s)(probe N k i := x)\<rparr>) =
       Inr (s\<lparr>lru_table := (lru_table s)(probe N k i := x), lru_count := lru_count s + 1,
              lru_queue := hd (ns @ [x]), lru_nodes := m\<rparr>)"
    "\<forall>a. node_key (m a) = node_key (lru_nodes s a)"
    "lru_list N tsz (s\<lparr>lru_table := (lru_table s)(probe N k i := x), lru_count := lru_count s + 1,
              lru_queue := hd (ns @ [x]), lru_nodes := set_key x k m\<rparr>) (ns @ [x])" (is "lru_list N tsz ?s _")
    using insert_list [OF assms] by blast
  obtain m' where "Promote N (probe N k i) ?s = Inr (?s\<lparr>lru_queue := hd (ns @ [x]), lru_nodes := m'\<rparr>)"
    "\<forall>a. node_key (m' a) = node_key (lru_nodes ?s a)"
    "lru_list N tsz (?s\<lparr>lru_queue := hd (ns @ [x]), lru_nodes := m'\<rparr>) (ns @ [x])"
    using Promote_list [of N tsz ?s ns x "[]" "probe N k i"] m(3) by auto
  then show ?thesis using m(1,2) by simp
qed

text \<open>A callback that returns and touches only what lies outside of the cache; \<open>g\<close> is its effect,
  which may depend on the heap's memory, where the value lies.\<close>

definition callback_outside :: "'a lru_scheme callback \<Rightarrow> (u32 \<Rightarrow> u32 \<Rightarrow> u32 \<Rightarrow> mem \<Rightarrow> 'a \<Rightarrow> 'a) \<Rightarrow> bool" where
  "callback_outside cb g \<longleftrightarrow>
     (\<forall>f k v s. cb f k v s = Some (Inr (s\<lparr>lru.more := g f k v (il_mem (lru_heap s)) (lru.more s)\<rparr>)))"

lemma lru_core_more [simp]: "lru_core N tsz (s\<lparr>lru.more := w\<rparr>) ns = lru_core N tsz s ns"
  by (simp add: lru_core_def queue_list_def)

lemma lru_core_pop:
  assumes "lru_core N tsz s (x # ys)" and "dring m ys" and "\<forall>a. node_key (m a) = node_key (lru_nodes s a)"
    and "lru_table s h = x" and "h < N"
  shows "lru_core N tsz (s\<lparr>lru_count := lru_count s - 1, lru_queue := hd ys, lru_nodes := set_next x 0 m,
    lru_pool := x, lru_table := (lru_table s)(h := 0)\<rparr>) ys"
proof -
  have x: "x \<noteq> 0" "x \<notin> set ys" "distinct ys" using assms(1) by (auto simp: lru_core_def queue_list_def dring_def)
  have "unat (lru_count s - 1) = length ys" using assms(1) by (subst unat_pred_word) (auto simp: lru_core_def)
  moreover have "bij_betw ((lru_table s)(h := 0)) (slots N ((lru_table s)(h := 0))) (set ys)"
    using assms(1,4,5) x table_remove [of "lru_table s" N "set (x # ys)" h] by (auto simp: lru_core_def slots_def)
  moreover have "dring (set_next x 0 m) ys" using assms(2) x
    by (simp add: dring_frame)
  ultimately show ?thesis using assms x by (auto simp: lru_core_def queue_list_def dring_def)
qed

lemma evict_full:
  assumes inv: "lru_list N tsz s (x # ys)" and full: "length (x # ys) = N" and cb: "lru_cb s = 0 \<or> callback_outside cb g"
  shows "\<exists>s'. evict cb N s = Some (Inr s') \<and> lru_core N tsz s' ys \<and> lru_pool s' = x \<and> node_next (lru_nodes s' x) = 0
    \<and> (\<forall>a. node_key (lru_nodes s' a) = node_key (lru_nodes s a))
    \<and> lru_heap s' = lru_heap s \<and> lru_cb s' = lru_cb s
    \<and> lru.more s' = (if lru_cb s = 0 then lru.more s
        else g (lru_cb s) (node_key (lru_nodes s x)) (value_of x) (il_mem (lru_heap s)) (lru.more s))"
proof -
  let ?k = "node_key (lru_nodes s x)"
  have x: "x \<noteq> 0" and ys: "ys \<noteq> []" and q: "lru_queue s = x" "dring (lru_nodes s) (x # ys)" and c: "unat (lru_count s) = N"
    using inv full lru_list_nonzero [OF inv] by (auto simp: lru_list_def queue_list_def)
  obtain m where m: "pop_front s = Inr (s\<lparr>lru_count := lru_count s - 1, lru_queue := hd ys, lru_nodes := m\<rparr>)"
    "dring m ys" "\<forall>a. node_key (m a) = node_key (lru_nodes s a)"
    using pop_front_ring [OF q(2,1) ys] by blast
  let ?s = "s\<lparr>lru_count := lru_count s - 1, lru_queue := hd ys, lru_nodes := m\<rparr>"
  obtain i where i: "i < N" "lru_table s (probe N ?k i) = x"
    "\<forall>j<i. lru_table s (probe N ?k j) \<noteq> 0 \<and> node_key (lru_nodes s (lru_table s (probe N ?k j))) \<noteq> ?k"
    using probe_node [OF inv, of x ?k] by auto
  have ep: "erase_probe N ?k (probe N ?k 0) ?s = Some (Inr (probe N ?k i))"
    using i m(3) x by (intro erase_probe_hit) auto
  have core: "lru_core N tsz (s\<lparr>lru_count := lru_count s - 1, lru_queue := hd ys, lru_nodes := set_next x 0 m,
    lru_pool := x, lru_table := (lru_table s)(probe N ?k i := 0)\<rparr>) ys" (is "lru_core N tsz ?t ys")
    using inv i m by (intro lru_core_pop) (auto simp: lru_list_core)
  let ?w = "if lru_cb s = 0 then lru.more s
    else g (lru_cb s) ?k (value_of x) (il_mem (lru_heap s)) (lru.more s)"
  have p: "lru_pool s = 0" using inv by (simp add: lru_list_def)
  have "evict cb N s = erase cb N ?k ?s"
    using c q(1) x m(1,3) by (simp add: evict_def front_def)
  also have "\<dots> = Some (Inr (?t\<lparr>lru.more := ?w\<rparr>))"
    using ep i(2) cb m(3) p by (auto simp: erase_def free_node_def callback_outside_def)
  finally show ?thesis using core m(3) by (intro exI [of _ "?t\<lparr>lru.more := ?w\<rparr>"]) simp
qed

lemma core_empty_slot:
  assumes "lru_core N tsz s ns" and "length ns < N"
  shows "\<exists>i<N. lru_table s (probe N k i) = 0 \<and> (\<forall>j<i. lru_table s (probe N k j) \<noteq> 0)"
proof -
  have "distinct ns" using assms(1) by (auto simp: lru_core_def queue_list_def dring_def split: if_splits)
  then obtain h where "h < N" "lru_table s h = 0"
    using assms table_empty_slot [of "lru_table s" N "set ns"] by (auto simp: lru_core_def distinct_card)
  then show ?thesis by (rule first_empty)
qed

text \<open>\<open>Alloc\<close> on a full cache reuses the node of the least recently used key.\<close>

lemma Alloc_full:
  assumes inv: "lru_list N tsz s (x # ys)" and full: "length (x # ys) = N" and cb: "lru_cb s = 0 \<or> callback_outside cb g"
    and k: "k \<notin> set (lru_keys s (x # ys))"
  shows "\<exists>s'. Alloc cb N tsz k s = Some (Inr (value_of x, s')) \<and> lru_list N tsz s' (ys @ [x])
    \<and> (\<forall>a. node_key (lru_nodes s' a) = (if a = x then k else node_key (lru_nodes s a)))
    \<and> lru_heap s' = lru_heap s \<and> lru_cb s' = lru_cb s
    \<and> lru.more s' = (if lru_cb s = 0 then lru.more s
        else g (lru_cb s) (node_key (lru_nodes s x)) (value_of x) (il_mem (lru_heap s)) (lru.more s))"
proof -
  obtain s1 where s1: "evict cb N s = Some (Inr s1)" "lru_core N tsz s1 ys" "lru_pool s1 = x" "node_next (lru_nodes s1 x) = 0"
    "\<forall>a. node_key (lru_nodes s1 a) = node_key (lru_nodes s a)" "lru_heap s1 = lru_heap s" "lru_cb s1 = lru_cb s"
    "lru.more s1 = (if lru_cb s = 0 then lru.more s
        else g (lru_cb s) (node_key (lru_nodes s x)) (value_of x) (il_mem (lru_heap s)) (lru.more s))"
    using evict_full [OF inv full cb] by blast
  have x: "x \<noteq> 0" "x \<notin> set ys" "length ys < N" "Suc (length ys) = N" using lru_list_nonzero [OF inv] full by auto
  obtain i where i: "i < N" "lru_table s1 (probe N k i) = 0" "\<forall>j<i. lru_table s1 (probe N k j) \<noteq> 0"
    using core_empty_slot [OF s1(2) x(3)] by blast
  have fs: "free_slot N (probe N k 0) s1 = Some (probe N k i)" using i by (intro free_slot_found) auto
  let ?s = "s1\<lparr>lru_pool := 0\<rparr>"
  have al: "alloc_node tsz s1 = Some (Inr (x, ?s))" using s1(3,4) x(1) by (simp add: alloc_node_def)
  obtain sz where sz: "0 < sz" "unat (sizeof_ListNode tsz) \<le> sz" "(unat x, sz) \<in> il_regions (lru_heap ?s)"
    using inv s1(6) by (auto simp: lru_list_def)
  have c: "lru_core N tsz ?s ys" using s1(2) by (simp add: lru_core_def queue_list_def)
  have k': "k \<notin> set (lru_keys ?s ys)" using k s1(5) by (simp add: lru_keys_def)
  have "lru_table ?s = lru_table s1" by simp
  then obtain s' where "robind (Some (push_back N x (?s\<lparr>lru_table := (lru_table ?s)(probe N k i := x)\<rparr>)))
       (\<lambda>s. robind (Some (Promote N (probe N k i) (s\<lparr>lru_nodes := set_key x k (lru_nodes s)\<rparr>)))
              (\<lambda>s. Some (Inr (value_of x, s)))) = Some (Inr (value_of x, s'))"
    "lru_list N tsz s' (ys @ [x])" "\<forall>a. node_key (lru_nodes s' a) = (if a = x then k else node_key (lru_nodes ?s a))"
    "lru_heap s' = lru_heap ?s" "lru_cb s' = lru_cb ?s" "lru.more s' = lru.more ?s"
    using enter_list [of N tsz ?s ys x k sz i] c x k' sz i by auto
  then show ?thesis using s1 fs al by (intro exI [of _ s']) (simp add: Alloc_def Set_value_def)
qed

text \<open>\<open>Alloc\<close> on a cache with room takes a new node from the heap.\<close>

lemma Alloc_room:
  assumes inv: "lru_list N tsz s ns" and room: "length ns < N" and g: "il_grants (sizeof_ListNode tsz) (lru_heap s)"
    and k: "k \<notin> set (lru_keys s ns)"
  shows "\<exists>x h s'. kmalloc (sizeof_ListNode tsz) (lru_heap s) = Some (x, h) \<and> x \<notin> set ns
    \<and> Alloc cb N tsz k s = Some (Inr (value_of x, s')) \<and> lru_list N tsz s' (ns @ [x])
    \<and> (\<forall>a. node_key (lru_nodes s' a) = (if a = x then k else node_key (lru_nodes s a)))
    \<and> lru_heap s' = h \<and> lru_cb s' = lru_cb s \<and> lru.more s' = lru.more s"
proof -
  have hs: "il_invar (lru_heap s)" "0 < mstart (lru_heap s)" using inv by (simp_all add: lru_list_def)
  obtain x sz h where h: "kmalloc (sizeof_ListNode tsz) (lru_heap s) = Some (x, h)" "il_invar h"
    "unat (sizeof_ListNode tsz) \<le> sz" "mstart h = mstart (lru_heap s)" "unat (mstart (lru_heap s)) \<le> unat x"
    "il_regions h = insert (unat x, sz) (il_regions (lru_heap s))"
    "\<forall>(q, k)\<in>il_regions (lru_heap s). \<not> overlap (unat x, sz) (q, k)"
    using kmalloc_fresh [OF hs(1) g] by (elim exE conjE) (rule that, auto)
  have sz: "0 < sz" using h(3) inv by (simp add: lru_list_def)
  have x0: "x \<noteq> 0" using hs(2) h(5) by (auto simp: word_less_nat_alt)
  have xn: "x \<notin> set ns"
  proof
    assume "x \<in> set ns"
    then obtain l where "0 < l" "(unat x, l) \<in> il_regions (lru_heap s)" using inv by (auto simp: lru_list_def)
    with h(7) sz show False by (fastforce simp: overlap_def)
  qed
  have ev: "evict cb N s = Some (Inr s)" using inv room by (simp add: evict_def lru_list_def)
  obtain i where i: "i < N" "lru_table s (probe N k i) = 0" "\<forall>j<i. lru_table s (probe N k j) \<noteq> 0"
    using core_empty_slot [of N tsz s ns k] inv room by (auto simp: lru_list_core)
  have fs: "free_slot N (probe N k 0) s = Some (probe N k i)" using i by (intro free_slot_found) auto
  let ?m = "set_next x 0 (set_prev x 0 (lru_nodes s))"
  let ?s = "s\<lparr>lru_heap := h, lru_nodes := ?m\<rparr>"
  have al: "alloc_node tsz s = Some (Inr (x, ?s))"
    using inv h(1) x0 by (simp add: alloc_node_def lru_list_def operator_new_def)
  have "dring ?m ns" if "ns \<noteq> []" using inv that xn
    by (simp add: lru_list_def queue_list_def dring_frame)
  then have c: "lru_core N tsz ?s ns" using inv h(2,4,6) unfolding lru_list_def lru_core_def queue_list_def by (auto cong: if_cong)
  have r: "all_reached N ?s ns" using inv by (simp add: lru_list_def all_reached_def)
  have k': "k \<notin> set (lru_keys ?s ns)" using k by (simp add: lru_keys_def)
  have t: "lru_pool ?s = 0" "(unat x, sz) \<in> il_regions (lru_heap ?s)" "lru_table ?s (probe N k i) = 0"
    "\<forall>j<i. lru_table ?s (probe N k j) \<noteq> 0" using inv h(6) i by (simp_all add: lru_list_def)
  obtain s' where "robind (Some (push_back N x (?s\<lparr>lru_table := (lru_table ?s)(probe N k i := x)\<rparr>)))
       (\<lambda>s. robind (Some (Promote N (probe N k i) (s\<lparr>lru_nodes := set_key x k (lru_nodes s)\<rparr>)))
              (\<lambda>s. Some (Inr (value_of x, s)))) = Some (Inr (value_of x, s'))"
    "lru_list N tsz s' (ns @ [x])" "\<forall>a. node_key (lru_nodes s' a) = (if a = x then k else node_key (lru_nodes ?s a))"
    "lru_heap s' = lru_heap ?s" "lru_cb s' = lru_cb ?s" "lru.more s' = lru.more ?s"
    using enter_list [OF c _ room xn x0 k' sz h(3) _ i(1) _ _ disjI1 [OF r]] t by blast
  then show ?thesis using ev fs al h(1) xn
    by (intro exI [of _ x] exI [of _ h] exI [of _ s']) (simp add: Alloc_def Set_value_def)
qed

section \<open>The cache as a list of keys\<close>

text \<open>The nodes in the order of the queue, and their keys: the abstraction of a cache.\<close>

primrec walk :: "(u32 \<Rightarrow> ListNode) \<Rightarrow> u32 \<Rightarrow> nat \<Rightarrow> u32 list" where
  "walk m a 0 = []"
| "walk m a (Suc n) = a # walk m (node_next (m a)) n"

definition cached_nodes :: "'a lru_scheme \<Rightarrow> u32 list" where
  "cached_nodes s = walk (lru_nodes s) (lru_queue s) (unat (lru_count s))"

definition cached_keys :: "'a lru_scheme \<Rightarrow> u32 list" where
  "cached_keys s = lru_keys s (cached_nodes s)"

definition lru_invar :: "nat \<Rightarrow> u32 \<Rightarrow> 'a lru_scheme \<Rightarrow> bool" where
  "lru_invar N tsz s \<longleftrightarrow> lru_list N tsz s (cached_nodes s)"

lemma walk_linked: "dlinked m (xs @ [b]) \<Longrightarrow> xs \<noteq> [] \<Longrightarrow> walk m (hd xs) (length xs) = xs"
proof (induction xs)
  case (Cons a xs)
  then show ?case by (cases xs) auto
qed simp

lemma cached_nodes_list: "lru_list N tsz s ns \<Longrightarrow> cached_nodes s = ns"
  by (cases "ns = []")
    (auto simp: lru_list_def queue_list_def cached_nodes_def dring_def intro: walk_linked)

lemma lru_invarI: "lru_list N tsz s ns \<Longrightarrow> lru_invar N tsz s \<and> cached_nodes s = ns \<and> cached_keys s = lru_keys s ns"
  by (simp add: lru_invar_def cached_keys_def cached_nodes_list)

lemma cached_keys_facts: "lru_invar N tsz s \<Longrightarrow> distinct (cached_keys s) \<and> length (cached_keys s) \<le> N \<and> 0 < N"
  by (auto simp: lru_invar_def lru_list_def cached_keys_def lru_keys_def)

lemma region_end: "il_invar h \<Longrightarrow> (a, l) \<in> il_regions h \<Longrightarrow> a + l \<le> unat (mend h)"
  using live_bounds [of "(a, l)" "unat (mstart h)" "il_blocks h"]
  by (auto simp: il_invar_def il_wf_def il_regions_def dest: heap_blocks_end)

lemma value_of_nonzero:
  assumes "lru_list N tsz s ns" and "x \<in> set ns"
  shows "value_of x \<noteq> 0"
proof -
  obtain l where l: "unat (sizeof_ListNode tsz) \<le> l" "(unat x, l) \<in> il_regions (lru_heap s)" "il_invar (lru_heap s)"
    "12 \<le> unat (sizeof_ListNode tsz)" using assms by (auto simp: lru_list_def)
  have "unat x + 12 < 2 ^ 32" using region_end [OF l(3,2)] l(1,4) unat_u32_lt [of "mend (lru_heap s)"] by simp
  then have "unat (value_of x) = unat x + 12" by (simp add: value_of_def unat_word_ariths)
  then show ?thesis by (metis add_is_0 unat_0 zero_neq_numeral)
qed

lemma remove1_keys:
  assumes "distinct (map f (xs @ x # ys))"
  shows "remove1 (f x) (map f (xs @ x # ys)) = map f (xs @ ys)"
  using assms by (auto simp: remove1_append image_iff)

lemma Get_keys:
  assumes "lru_invar N tsz s"
  shows "\<exists>a s'. Get N k s = Inr (a, s') \<and> lru_invar N tsz s' \<and> cached_keys s' = spec_get k (cached_keys s)
    \<and> (if k \<in> set (cached_keys s)
       then (\<exists>x\<in>set (cached_nodes s). a = value_of x \<and> a \<noteq> 0 \<and> node_key (lru_nodes s x) = k)
       else a = 0 \<and> s' = s)
    \<and> set (cached_nodes s') = set (cached_nodes s) \<and> (\<forall>x. node_key (lru_nodes s' x) = node_key (lru_nodes s x))
    \<and> lru_heap s' = lru_heap s \<and> lru_cb s' = lru_cb s \<and> lru.more s' = lru.more s"
proof (cases "k \<in> set (cached_keys s)")
  case True
  then obtain x where x: "x \<in> set (cached_nodes s)" "k = node_key (lru_nodes s x)"
    by (auto simp: cached_keys_def lru_keys_def)
  then obtain xs ys where ns: "cached_nodes s = xs @ x # ys" by (meson split_list)
  have inv: "lru_list N tsz s (xs @ x # ys)" using assms ns by (simp add: lru_invar_def)
  obtain m where m: "Get N k s = Inr (value_of x, s\<lparr>lru_queue := hd (xs @ ys @ [x]), lru_nodes := m\<rparr>)"
    "\<forall>a. node_key (m a) = node_key (lru_nodes s a)"
    "lru_list N tsz (s\<lparr>lru_queue := hd (xs @ ys @ [x]), lru_nodes := m\<rparr>) (xs @ ys @ [x])" (is "lru_list N tsz ?s _")
    using Get_hit [OF inv] x(2) by blast
  have "cached_keys ?s = spec_get k (cached_keys s)"
    using True remove1_keys [of "\<lambda>x. node_key (lru_nodes s x)" xs x ys] inv lru_invarI [OF m(3)] m(2) x(2)
    by (simp add: spec_get_def cached_keys_def lru_keys_def ns lru_list_def)
  then show ?thesis using m(1,2) True lru_invarI [OF m(3)] x value_of_nonzero [OF inv, of x] ns
    by (intro exI [of _ "value_of x"] exI [of _ ?s]) auto
next
  case False
  then have "Get N k s = Inr (0, s)" using assms Get_miss [of N tsz s "cached_nodes s" k]
    by (simp add: lru_invar_def cached_keys_def)
  then show ?thesis using False assms by (simp add: spec_get_def)
qed

lemma kmalloc_contents:
  assumes "il_invar h" and "il_grants siz h" and "kmalloc siz h = Some (p, h')" and "(unat y, l) \<in> il_regions h" and "i < l"
  shows "il_mem h' (y + of_nat i) = il_mem h (y + of_nat i)"
  using il_alloc_contents [OF assms(1,2) _ assms(4,5)] assms(3) by (simp add: kmalloc_def)

definition cache_ready :: "'a lru_scheme callback \<Rightarrow> nat \<Rightarrow> u32 \<Rightarrow> (u32 \<Rightarrow> u32 \<Rightarrow> u32 \<Rightarrow> mem \<Rightarrow> 'a \<Rightarrow> 'a) \<Rightarrow> 'a lru_scheme \<Rightarrow> bool" where
  "cache_ready cb N tsz g s \<longleftrightarrow> (lru_cb s = 0 \<or> callback_outside cb g)
     \<and> (length (cached_keys s) < N \<longrightarrow> il_grants (sizeof_ListNode tsz) (lru_heap s))"

lemma Alloc_keys:
  assumes inv: "lru_invar N tsz s" and k: "k \<notin> set (cached_keys s)" and rdy: "cache_ready cb N tsz g s"
  shows "\<exists>x s'. Alloc cb N tsz k s = Some (Inr (value_of x, s')) \<and> value_of x \<noteq> 0
    \<and> lru_invar N tsz s' \<and> cached_keys s' = spec_alloc N k (cached_keys s)
    \<and> set (cached_nodes s') = insert x (set (cached_nodes s))
    \<and> (\<forall>y. node_key (lru_nodes s' y) = (if y = x then k else node_key (lru_nodes s y)))
    \<and> (\<forall>y\<in>set (cached_nodes s). \<forall>i<unat (sizeof_ListNode tsz).
         il_mem (lru_heap s') (y + of_nat i) = il_mem (lru_heap s) (y + of_nat i))
    \<and> lru_cb s' = lru_cb s
    \<and> (if length (cached_keys s) < N then x \<notin> set (cached_nodes s) \<and> lru.more s' = lru.more s
       else x = hd (cached_nodes s) \<and> lru.more s' = (if lru_cb s = 0 then lru.more s
         else g (lru_cb s) (hd (cached_keys s)) (value_of x) (il_mem (lru_heap s)) (lru.more s)))"
proof (cases "length (cached_keys s) < N")
  case True
  let ?ns = "cached_nodes s"
  have l: "lru_list N tsz s ?ns" "length ?ns < N" "k \<notin> set (lru_keys s ?ns)" "il_grants (sizeof_ListNode tsz) (lru_heap s)"
    using inv k rdy True by (simp_all add: lru_invar_def cached_keys_def lru_keys_def cache_ready_def)
  obtain x h s' where x: "kmalloc (sizeof_ListNode tsz) (lru_heap s) = Some (x, h)" "x \<notin> set ?ns"
    "Alloc cb N tsz k s = Some (Inr (value_of x, s'))" "lru_list N tsz s' (?ns @ [x])"
    "\<forall>a. node_key (lru_nodes s' a) = (if a = x then k else node_key (lru_nodes s a))"
    "lru_heap s' = h" "lru_cb s' = lru_cb s" "lru.more s' = lru.more s"
    using Alloc_room [OF l(1,2,4,3)] by blast
  have "il_mem h (y + of_nat i) = il_mem (lru_heap s) (y + of_nat i)" if "y \<in> set ?ns" "i < unat (sizeof_ListNode tsz)" for y i
    using l(1) that kmalloc_contents [OF _ l(4) x(1), of y] by (fastforce simp: lru_list_def)
  moreover have "lru_keys s' (?ns @ [x]) = spec_alloc N k (cached_keys s)"
    using x(2,5) True by (auto simp: lru_keys_def spec_alloc_def cached_keys_def)
  ultimately show ?thesis using x True lru_invarI [OF x(4)] value_of_nonzero [OF x(4), of x]
    by (intro exI [of _ x] exI [of _ s']) auto
next
  case False
  have len: "length (cached_keys s) = N" "1 < N" using inv False cached_keys_facts [OF inv]
    by (auto simp: lru_invar_def lru_list_def)
  then obtain x ys where ns: "cached_nodes s = x # ys" by (cases "cached_nodes s") (auto simp: cached_keys_def lru_keys_def)
  have l: "lru_list N tsz s (x # ys)" "length (x # ys) = N" "k \<notin> set (lru_keys s (x # ys))" "lru_cb s = 0 \<or> callback_outside cb g"
    using inv k rdy len ns by (simp_all add: lru_invar_def cached_keys_def lru_keys_def cache_ready_def)
  obtain s' where x: "Alloc cb N tsz k s = Some (Inr (value_of x, s'))" "lru_list N tsz s' (ys @ [x])"
    "\<forall>a. node_key (lru_nodes s' a) = (if a = x then k else node_key (lru_nodes s a))"
    "lru_heap s' = lru_heap s" "lru_cb s' = lru_cb s" "lru.more s' = (if lru_cb s = 0 then lru.more s
        else g (lru_cb s) (node_key (lru_nodes s x)) (value_of x) (il_mem (lru_heap s)) (lru.more s))"
    using Alloc_full [OF l(1,2,4,3)] by blast
  have "x \<notin> set ys" using lru_list_nonzero [OF l(1)] by simp
  then have "lru_keys s' (ys @ [x]) = spec_alloc N k (cached_keys s)"
    using x(3) False by (auto simp: lru_keys_def spec_alloc_def cached_keys_def ns)
  moreover have "hd (cached_keys s) = node_key (lru_nodes s x)" by (simp add: cached_keys_def lru_keys_def ns)
  ultimately show ?thesis using x False lru_invarI [OF x(2)] value_of_nonzero [OF x(2), of x] ns
    by (intro exI [of _ x] exI [of _ s']) auto
qed

lemma LRUCache_invar:
  assumes "1 < N" and "N < 2 ^ 32" and "12 \<le> unat (sizeof_ListNode tsz)" and "il_invar h" and "0 < mstart h"
  shows "lru_invar N tsz (LRUCache m h) \<and> cached_keys (LRUCache m h) = []"
proof -
  have "lru_list N tsz (LRUCache m h) []"
    using assms by (simp add: lru_list_def queue_list_def LRUCache_def slots_def bij_betw_def)
  from lru_invarI [OF this] show ?thesis by (simp add: lru_keys_def)
qed

section \<open>The interface\<close>

text \<open>What a client of a cache may rely on: its keys evolve as the two abstract operations say.\<close>

definition spec_access :: "nat \<Rightarrow> u32 \<Rightarrow> u32 list \<Rightarrow> u32 list" where
  "spec_access N k ks = (if k \<in> set ks then spec_get k ks else spec_alloc N k ks)"

text \<open>A key is dropped only after \<open>N\<close> other keys have been used since.\<close>

lemma spec_access_recent:
  assumes "distinct ks" and "length ks \<le> N" and "ks = as @ k # bs" and "set bs \<subseteq> J" and "card (insert j J - {k}) < N"
    and "finite J" and "k \<notin> J" and "j \<noteq> k"
  shows "\<exists>as' bs'. spec_access N j ks = as' @ k # bs' \<and> set bs' \<subseteq> insert j J"
proof (cases "j \<in> set ks")
  case True
  then consider "j \<in> set as" | "j \<in> set bs" "j \<notin> set as" using assms(3,8) by auto
  then show ?thesis
  proof cases
    case 1
    then have "spec_access N j ks = remove1 j as @ k # (bs @ [j])"
      using True assms(3) by (simp add: spec_access_def spec_get_def remove1_append)
    then show ?thesis using assms(4) by (intro exI [of _ "remove1 j as"] exI [of _ "bs @ [j]"]) auto
  next
    case 2
    then have "spec_access N j ks = as @ k # (remove1 j bs @ [j])"
      using True assms(3,8) by (simp add: spec_access_def spec_get_def remove1_append)
    moreover have "set (remove1 j bs) \<subseteq> J" using assms(4) set_remove1_subset [of j bs] by blast
    ultimately show ?thesis by (intro exI [of _ as] exI [of _ "remove1 j bs @ [j]"]) auto
  qed
next
  case False
  show ?thesis
  proof (cases "length ks < N")
    case True
    then show ?thesis using False assms(3,4)
      by (intro exI [of _ as] exI [of _ "bs @ [j]"]) (auto simp: spec_access_def spec_alloc_def)
  next
    case full: False
    have "as \<noteq> []"
    proof
      assume "as = []"
      then have b: "card (set bs) = N - 1" "j \<notin> set bs" "0 < N" using assms(1-3) full False by (auto simp: distinct_card)
      have "insert j (set bs) \<subseteq> insert j J - {k}" using assms(1,3,4,8) by auto
      then have "card (insert j (set bs)) \<le> card (insert j J - {k})" using assms(6) by (intro card_mono) auto
      with b assms(5) show False by simp
    qed
    then show ?thesis using False full assms(3,4)
      by (intro exI [of _ "tl as"] exI [of _ "bs @ [j]"]) (auto simp: spec_access_def spec_alloc_def)
  qed
qed

lemma length_spec_get [simp]: "length (spec_get k ks) = length ks"
  by (auto simp: spec_get_def length_remove1 dest: length_pos_if_in_set)

lemma spec_access_facts:
  assumes "distinct ks" and "length ks \<le> N" and "0 < N"
  shows "\<exists>as. spec_access N k ks = as @ [k]" and "length ks = N \<Longrightarrow> length (spec_access N k ks) = N"
  using assms by (auto simp: spec_access_def spec_get_def spec_alloc_def length_remove1 dest: length_pos_if_in_set)

locale cache =
  fixes get :: "u32 \<Rightarrow> 's \<Rightarrow> (u32 \<times> 's) result"
    and alloc :: "u32 \<Rightarrow> 's \<Rightarrow> (u32 \<times> 's) result option"
    and keys :: "'s \<Rightarrow> u32 list"
    and invar :: "'s \<Rightarrow> bool"
    and ready :: "'s \<Rightarrow> bool"
    and N :: nat
  assumes get_spec: "invar s \<Longrightarrow> \<exists>a s'. get k s = Inr (a, s') \<and> invar s' \<and> keys s' = spec_get k (keys s)
      \<and> (a \<noteq> 0 \<longleftrightarrow> k \<in> set (keys s)) \<and> (a = 0 \<longrightarrow> s' = s) \<and> (ready s \<longrightarrow> ready s')"
    and alloc_spec: "invar s \<Longrightarrow> ready s \<Longrightarrow> k \<notin> set (keys s) \<Longrightarrow>
      \<exists>a s'. alloc k s = Some (Inr (a, s')) \<and> a \<noteq> 0 \<and> invar s' \<and> keys s' = spec_alloc N k (keys s)
        \<and> (length (keys s) = N \<longrightarrow> ready s')"
    and keys_bounded: "invar s \<Longrightarrow> distinct (keys s) \<and> length (keys s) \<le> N \<and> 0 < N"
begin

text \<open>Look a key up and allocate it on a miss.\<close>

definition access :: "u32 \<Rightarrow> 's \<Rightarrow> (u32 \<times> 's) result option" where
  "access k s = robind (Some (get k s)) (\<lambda>(a, s). if a \<noteq> 0 then Some (Inr (a, s)) else alloc k s)"

primrec accesses :: "u32 list \<Rightarrow> 's \<Rightarrow> 's result option" where
  "accesses [] s = Some (Inr s)"
| "accesses (k # ks) s = robind (access k s) (\<lambda>(_, s). accesses ks s)"

lemma access_spec:
  assumes "invar s" and "ready s"
  shows "\<exists>a s'. access k s = Some (Inr (a, s')) \<and> a \<noteq> 0 \<and> invar s' \<and> keys s' = spec_access N k (keys s)
    \<and> (length (keys s) = N \<longrightarrow> ready s')"
proof -
  obtain a s1 where g: "get k s = Inr (a, s1)" "invar s1" "keys s1 = spec_get k (keys s)"
    "a \<noteq> 0 \<longleftrightarrow> k \<in> set (keys s)" "a = 0 \<longrightarrow> s1 = s" "ready s1"
    using get_spec [OF assms(1), of k] assms(2) by blast
  show ?thesis
  proof (cases "k \<in> set (keys s)")
    case True
    then show ?thesis using g by (simp add: access_def spec_access_def)
  next
    case False
    then show ?thesis using g alloc_spec [OF assms False] by (auto simp: access_def spec_access_def)
  qed
qed

lemma accesses_keep:
  assumes "invar s" and "ready s" and "length (keys s) = N" and "keys s = as @ k # bs" and "set bs \<subseteq> J"
    and "finite J" and "k \<notin> J \<union> set js" and "card (J \<union> set js) < N"
  shows "\<exists>s'. accesses js s = Some (Inr s') \<and> invar s' \<and> k \<in> set (keys s')"
  using assms
proof (induction js arbitrary: s as bs J)
  case (Cons j js)
  obtain a s1 where s1: "access j s = Some (Inr (a, s1))" "invar s1" "keys s1 = spec_access N j (keys s)" "ready s1"
    using access_spec [OF Cons.prems(1,2), of j] Cons.prems(3) by auto
  note b = keys_bounded [OF Cons.prems(1)]
  have "card (insert j J - {k}) \<le> card (J \<union> set (j # js))" using Cons.prems(6) by (intro card_mono) auto
  then obtain as' bs' where "spec_access N j (keys s) = as' @ k # bs'" "set bs' \<subseteq> insert j J"
    using spec_access_recent [of "keys s" N as k bs J j] b Cons.prems by auto
  moreover have "length (spec_access N j (keys s)) = N" using spec_access_facts(2) b Cons.prems(3) by blast
  ultimately obtain s' where "accesses js s1 = Some (Inr s')" "invar s'" "k \<in> set (keys s')"
    using Cons.IH [of s1 as' bs' "insert j J"] s1 Cons.prems(6-8) by auto
  then show ?case using s1(1) by simp
qed auto

text \<open>The cache keeps what was used recently: after an access to \<open>k\<close>, accesses to fewer than \<open>N\<close>
  other keys leave \<open>k\<close> in the cache.\<close>

lemma recent_kept:
  assumes "invar s" and "ready s" and "length (keys s) = N" and "k \<notin> set js" and "card (set js) < N"
  shows "\<exists>a s1 s2 b s3. access k s = Some (Inr (a, s1)) \<and> accesses js s1 = Some (Inr s2) \<and> get k s2 = Inr (b, s3) \<and> b \<noteq> 0"
proof -
  obtain a s1 where s1: "access k s = Some (Inr (a, s1))" "invar s1" "keys s1 = spec_access N k (keys s)" "ready s1"
    using access_spec [OF assms(1,2), of k] assms(3) by auto
  note b = keys_bounded [OF assms(1)]
  obtain as where "keys s1 = as @ k # []" using spec_access_facts(1) [of "keys s" N k] b s1(3) by auto
  moreover have "length (keys s1) = N" using spec_access_facts(2) b assms(3) s1(3) by metis
  ultimately obtain s2 where s2: "accesses js s1 = Some (Inr s2)" "invar s2" "k \<in> set (keys s2)"
    using accesses_keep [of s1 as k "[]" "{}" js] s1 assms(4,5) by auto
  then show ?thesis using get_spec [OF s2(2), of k] s1(1) by blast
qed

end

interpretation lru_cache: cache "Get N" "Alloc cb N tsz" cached_keys "lru_invar N tsz" "cache_ready cb N tsz g" N for cb N tsz g
proof unfold_locales
  fix s :: "'a lru_scheme" and k
  assume inv: "lru_invar N tsz s"
  obtain a s' where s': "Get N k s = Inr (a, s')" "lru_invar N tsz s'" "cached_keys s' = spec_get k (cached_keys s)"
    "if k \<in> set (cached_keys s) then \<exists>x\<in>set (cached_nodes s). a = value_of x \<and> a \<noteq> 0 \<and> node_key (lru_nodes s x) = k
     else a = 0 \<and> s' = s" "lru_heap s' = lru_heap s" "lru_cb s' = lru_cb s"
    using Get_keys [OF inv, of k] by blast
  have "length (cached_keys s') = length (cached_keys s)"
    unfolding s'(3) by simp
  then show "\<exists>a s'. Get N k s = Inr (a, s') \<and> lru_invar N tsz s' \<and> cached_keys s' = spec_get k (cached_keys s)
      \<and> (a \<noteq> 0 \<longleftrightarrow> k \<in> set (cached_keys s)) \<and> (a = 0 \<longrightarrow> s' = s)
      \<and> (cache_ready cb N tsz g s \<longrightarrow> cache_ready cb N tsz g s')"
    using s' by (intro exI [of _ a] exI [of _ s']) (auto simp: cache_ready_def split: if_splits)
next
  fix s :: "'a lru_scheme" and k
  assume a: "lru_invar N tsz s" "cache_ready cb N tsz g s" "k \<notin> set (cached_keys s)"
  obtain x s' where s': "Alloc cb N tsz k s = Some (Inr (value_of x, s'))" "value_of x \<noteq> 0" "lru_invar N tsz s'"
    "cached_keys s' = spec_alloc N k (cached_keys s)" "lru_cb s' = lru_cb s"
    using Alloc_keys [OF a(1,3,2)] by blast
  have "length (cached_keys s) = N \<Longrightarrow> length (cached_keys s') = N"
    unfolding s'(4) spec_alloc_def using cached_keys_facts [OF a(1)] by (cases "cached_keys s") auto
  then show "\<exists>a s'. Alloc cb N tsz k s = Some (Inr (a, s')) \<and> a \<noteq> 0 \<and> lru_invar N tsz s'
      \<and> cached_keys s' = spec_alloc N k (cached_keys s) \<and> (length (cached_keys s) = N \<longrightarrow> cache_ready cb N tsz g s')"
    using s' a(2) by (intro exI [of _ "value_of x"] exI [of _ s']) (auto simp: cache_ready_def)
qed (rule cached_keys_facts)

section \<open>Correctness\<close>

text \<open>A cache of three values of four bytes, full, whose keys 3 and 6 collide.\<close>

definition example_nodes :: "u32 \<Rightarrow> ListNode" where
  "example_nodes = (\<lambda>_. \<lparr>node_key = 0, node_prev = 0, node_next = 0\<rparr>)
     (0x1004 := \<lparr>node_key = 3, node_prev = 0x1034, node_next = 0x101C\<rparr>,
      0x101C := \<lparr>node_key = 6, node_prev = 0x1004, node_next = 0x1034\<rparr>,
      0x1034 := \<lparr>node_key = 5, node_prev = 0x101C, node_next = 0x1004\<rparr>)"

definition nodes_heap :: il_allocator where
  "nodes_heap = \<lparr>mstart = 0x1000, mend = 0x1048,
     il_mem = write32 (write32 (write32 (\<lambda>_. 0) 0x1000 21) 0x1018 21) 0x1030 21\<rparr>"

definition example_cache :: lru where
  "example_cache = \<lparr>lru_queue = 0x1004, lru_pool = 0, lru_table = (\<lambda>_. 0)(0 := 0x1004, 1 := 0x101C, 2 := 0x1034),
     lru_count = 3, lru_cb = 1, lru_nodes = example_nodes, lru_heap = nodes_heap\<rparr>"

lemma nodes_heap_facts:
  "il_invar nodes_heap" "il_regions nodes_heap = {(0x1004, 20), (0x101C, 20), (0x1034, 20)}"
  "0 < mstart nodes_heap"
proof -
  have wf: "il_wf nodes_heap [(20, True), (20, True), (20, True)]"
    by (simp add: il_wf_def nodes_heap_def read32_def write32_def)
  show "il_invar nodes_heap" by (rule il_wf_invar [OF wf])
  show "il_regions nodes_heap = {(0x1004, 20), (0x101C, 20), (0x1034, 20)}"
    unfolding il_regions_def il_wf_blocks [OF wf] by (auto simp: nodes_heap_def)
  show "0 < mstart nodes_heap" by (simp add: nodes_heap_def)
qed

lemma example_cache_list: "lru_list 3 4 example_cache [0x1004, 0x101C, 0x1034]"
proof -
  let ?t = "lru_table example_cache"
  have t: "?t 0 = 0x1004" "?t 1 = 0x101C" "?t 2 = 0x1034" by (simp_all add: example_cache_def)
  have "slots 3 ?t = {0, 1, 2}" by (auto simp: slots_def example_cache_def)
  then have "bij_betw ?t (slots 3 ?t) {0x1004, 0x101C, 0x1034}" using t by (simp add: bij_betw_def)
  moreover have "reached 3 ?t 3 0x1004" unfolding reached_def by (rule exI [of _ 0]) (simp add: probe_def t t(2) [simplified])
  moreover have "reached 3 ?t 6 0x101C" unfolding reached_def by (rule exI [of _ 1]) (simp add: probe_def t t(2) [simplified])
  moreover have "reached 3 ?t 5 0x1034" unfolding reached_def by (rule exI [of _ 0]) (simp add: probe_def t t(2) [simplified])
  ultimately show ?thesis
    by (simp add: lru_list_def queue_list_def dring_def sizeof_ListNode_def nodes_heap_facts)
      (simp add: example_cache_def example_nodes_def nodes_heap_facts)
qed

lemma example_cache_facts:
  "lru_invar 3 4 example_cache" "cached_nodes example_cache = [0x1004, 0x101C, 0x1034]"
  "cached_keys example_cache = [3, 6, 5]"
  "node_key (lru_nodes example_cache 0x1004) = 3" "node_key (lru_nodes example_cache 0x101C) = 6"
  "node_key (lru_nodes example_cache 0x1034) = 5"
  using lru_invarI [OF example_cache_list] by (simp_all add: lru_keys_def example_cache_def example_nodes_def)

text \<open>C22. \<open>Get\<close> on a well-formed cache finds exactly the keys the cache holds. For a key it holds it
  returns the address of that key's value and moves the key to the most recently used end; for
  another key it returns null and changes nothing. No key moves to another node, and the cached
  values and all that lies outside of the cache stay as they are.\<close>

theorem Get_refines:
  assumes "lru_invar N tsz s"
  shows "\<exists>a s'. Get N k s = Inr (a, s') \<and> lru_invar N tsz s' \<and> cached_keys s' = spec_get k (cached_keys s)
    \<and> (if k \<in> set (cached_keys s)
       then (\<exists>x\<in>set (cached_nodes s). a = value_of x \<and> a \<noteq> 0 \<and> node_key (lru_nodes s x) = k)
       else a = 0 \<and> s' = s)
    \<and> set (cached_nodes s') = set (cached_nodes s) \<and> (\<forall>x. node_key (lru_nodes s' x) = node_key (lru_nodes s x))
    \<and> lru_heap s' = lru_heap s \<and> lru_cb s' = lru_cb s \<and> lru.more s' = lru.more s"
  by (rule Get_keys [OF assms])

theorem Get_refines_witness:
  "\<exists>s'. Get 3 6 example_cache = Inr (0x1028, s') \<and> cached_keys s' = [3, 5, 6] \<and> lru_invar 3 4 s'"
proof -
  obtain a s' x where "Get 3 6 example_cache = Inr (a, s')" "lru_invar 3 4 s'"
    "cached_keys s' = spec_get 6 (cached_keys example_cache)" "x \<in> set (cached_nodes example_cache)"
    "a = value_of x" "node_key (lru_nodes example_cache x) = 6"
    using Get_refines [OF example_cache_facts(1), of 6] by (auto simp: example_cache_facts(3))
  then show ?thesis
    by (auto simp: example_cache_facts spec_get_def value_of_def)
qed

text \<open>C23. \<open>Alloc\<close> of a key that a well-formed cache does not hold returns a node for it. With room, the
  node is a new heap block; in a full cache it is the node of the least recently used key, which is
  dropped, and the callback is called with that key and its value, which is still in place. The new
  key becomes the most recently used one, the other keys keep their order and nodes and the other
  cached values their contents. Assumed: no callback is installed or the installed one stays out of
  the cache, and with room the heap has a block to give.\<close>

theorem Alloc_refines:
  assumes "lru_invar N tsz s" and "k \<notin> set (cached_keys s)" and "cache_ready cb N tsz g s"
  shows "\<exists>x s'. Alloc cb N tsz k s = Some (Inr (value_of x, s')) \<and> value_of x \<noteq> 0
    \<and> lru_invar N tsz s' \<and> cached_keys s' = spec_alloc N k (cached_keys s)
    \<and> set (cached_nodes s') = insert x (set (cached_nodes s))
    \<and> (\<forall>y. node_key (lru_nodes s' y) = (if y = x then k else node_key (lru_nodes s y)))
    \<and> (\<forall>y\<in>set (cached_nodes s). \<forall>i<unat (sizeof_ListNode tsz).
         il_mem (lru_heap s') (y + of_nat i) = il_mem (lru_heap s) (y + of_nat i))
    \<and> lru_cb s' = lru_cb s
    \<and> (if length (cached_keys s) < N then x \<notin> set (cached_nodes s) \<and> lru.more s' = lru.more s
       else x = hd (cached_nodes s) \<and> lru.more s' = (if lru_cb s = 0 then lru.more s
         else g (lru_cb s) (hd (cached_keys s)) (value_of x) (il_mem (lru_heap s)) (lru.more s)))"
  by (rule Alloc_keys [OF assms])

theorem Alloc_refines_witness:
  "\<exists>s'. Alloc (\<lambda>f k v s. Some (Inr s)) 3 4 7 example_cache = Some (Inr (0x1010, s')) \<and> cached_keys s' = [6, 5, 7]"
proof -
  have "cache_ready (\<lambda>f k v s. Some (Inr s)) 3 4 (\<lambda>_ _ _ _ w. w) example_cache"
    by (simp add: cache_ready_def callback_outside_def example_cache_facts)
  from Alloc_refines [OF example_cache_facts(1) _ this, of 7] show ?thesis
    by (auto simp: example_cache_facts spec_alloc_def value_of_def)
qed

section \<open>Clearing\<close>

text \<open>\<open>clear\<close> ends, but it does not reset the count: the next \<open>Alloc\<close> of a cache that was full stops at
  an assertion.\<close>

lemma clear_queue_path:
  "dlinked (lru_nodes s) (a # ys @ [lru_queue s]) \<Longrightarrow> lru_queue s \<notin> set ys \<Longrightarrow> 0 \<notin> set (a # ys) \<Longrightarrow>
     \<exists>h. clear_queue a s = Some (Inr (s\<lparr>lru_heap := h\<rparr>))"
proof (induction ys arbitrary: a s)
  case (Cons b ys)
  let ?s = "s\<lparr>lru_heap := operator_delete a (lru_heap s)\<rparr>"
  obtain h where "clear_queue b ?s = Some (Inr (?s\<lparr>lru_heap := h\<rparr>))" using Cons.IH [of ?s b] Cons.prems by auto
  then show ?case using Cons.prems by (subst clear_queue.simps) auto
qed (subst clear_queue.simps, auto)

lemma clear_keeps_count:
  assumes "lru_invar N tsz s"
  shows "\<exists>s'. clear N s = Some (Inr s') \<and> lru_queue s' = 0 \<and> slots N (lru_table s') = {} \<and> lru_count s' = lru_count s"
proof -
  let ?t = "s\<lparr>lru_table := (\<lambda>h. if h < N then 0 else lru_table s h)\<rparr>"
  let ?ns = "cached_nodes s"
  have inv: "queue_list s ?ns" "lru_pool s = 0" using assms by (simp_all add: lru_invar_def lru_list_def)
  have pool: "clear_pool u = Some u" if "lru_pool u = 0" for u :: "'a lru_scheme"
    using that by (subst clear_pool.simps) simp
  show ?thesis
  proof (cases "?ns = []")
    case True
    then show ?thesis using inv pool by (simp add: clear_def queue_list_def slots_def)
  next
    case False
    then obtain q ys where ns: "?ns = q # ys" by (cases ?ns) auto
    then have "dlinked (lru_nodes ?t) (q # ys @ [lru_queue ?t])" "lru_queue ?t \<notin> set ys" "0 \<notin> set (q # ys)" "lru_queue s = q" "q \<noteq> 0"
      using inv by (auto simp: queue_list_def dring_def)
    with clear_queue_path [of ?t q ys] show ?thesis using inv pool by (auto simp: clear_def slots_def)
  qed
qed

lemma Alloc_after_clear:
  assumes "lru_invar N tsz s" and "length (cached_keys s) = N"
  shows "\<exists>s'. clear N s = Some (Inr s') \<and> Alloc cb N tsz k s' = Some (Inl (AssertFail ''empty list''))"
proof -
  have "unat (lru_count s) = N" using assms by (simp add: lru_invar_def lru_list_def cached_keys_def lru_keys_def)
  then show ?thesis using clear_keeps_count [OF assms(1)] by (auto simp: Alloc_def Set_value_def evict_def front_def)
qed

end
