(* ===== verification/Sprite_Ide.thy ===== *)
theory Sprite_Ide
  imports Sprite_String
begin

text \<open>
  The disk driver of \<open>lib/ide.cc\<close>. The controller is not part of the kernel: it is the parameter
  \<open>dev\<close>, the value a read from a port yields after a given history of port accesses. The kernel's
  side is the history itself, in order, the memory it copies to and from, and the description of
  the device it keeps. Waiting for the controller need not end, so it is a partial function.
  What the driver relies on is stated as laws about histories that follow the protocol of the ATA
  interface.
\<close>

section \<open>Ports\<close>

datatype io_event = Outb u16 u8 | Inb u16 | Insl u16 | Outsl u16 u32 | Hlt

type_synonym device = "io_event list \<Rightarrow> u16 \<Rightarrow> u32"

record ide_io =
  ide_mem :: mem
  io_log :: "io_event list"

definition outb :: "u16 \<Rightarrow> u8 \<Rightarrow> ide_io \<Rightarrow> ide_io" where
  "outb port val s = s\<lparr>io_log := io_log s @ [Outb port val]\<rparr>"

definition inb :: "device \<Rightarrow> u16 \<Rightarrow> ide_io \<Rightarrow> u8 \<times> ide_io" where
  "inb dev port s = (ucast (dev (io_log s) port), s\<lparr>io_log := io_log s @ [Inb port]\<rparr>)"

fun insl :: "device \<Rightarrow> u16 \<Rightarrow> u32 \<Rightarrow> nat \<Rightarrow> ide_io \<Rightarrow> ide_io" where
  "insl dev port addr 0 s = s"
| "insl dev port addr (Suc n) s =
     insl dev port (addr + 4) n
       (s\<lparr>ide_mem := write32 (ide_mem s) addr (dev (io_log s) port), io_log := io_log s @ [Insl port]\<rparr>)"

fun outsl :: "u16 \<Rightarrow> u32 \<Rightarrow> nat \<Rightarrow> ide_io \<Rightarrow> ide_io" where
  "outsl port addr 0 s = s"
| "outsl port addr (Suc n) s =
     outsl port (addr + 4) n (s\<lparr>io_log := io_log s @ [Outsl port (read32 (ide_mem s) addr)]\<rparr>)"

text \<open>\<open>cpu_hlt\<close>: the processor pauses until an interrupt, and the controller may go on.\<close>

definition io_hlt :: "ide_io \<Rightarrow> ide_io" where
  "io_hlt s = s\<lparr>io_log := io_log s @ [Hlt]\<rparr>"

section \<open>Constants\<close>

definition SECTSIZE :: u32 where "SECTSIZE = 512"
definition STAT_BSY :: u8 where "STAT_BSY = 0x80"
definition STAT_DF :: u8 where "STAT_DF = 0x20"
definition STAT_ERR :: u8 where "STAT_ERR = 0x01"
definition IDE_CMD_READ :: u8 where "IDE_CMD_READ = 0x20"
definition IDE_CMD_WRITE :: u8 where "IDE_CMD_WRITE = 0x30"
definition IDE_CMD_IDENTIFY :: u8 where "IDE_CMD_IDENTIFY = 0xEC"
definition IOBASE :: u16 where "IOBASE = 0x1F0"
definition IOCTRL :: u16 where "IOCTRL = 0x3F4"
definition ISA_DATA :: u16 where "ISA_DATA = 0"
definition ISA_CTRL :: u16 where "ISA_CTRL = 2"
definition ISA_SECCNT :: u16 where "ISA_SECCNT = 2"
definition ISA_LBA_LOW :: u16 where "ISA_LBA_LOW = 3"
definition ISA_LBA_MID :: u16 where "ISA_LBA_MID = 4"
definition ISA_LBA_HIGH :: u16 where "ISA_LBA_HIGH = 5"
definition ISA_LBA_TOP :: u16 where "ISA_LBA_TOP = 6"
definition ISA_SDH :: u16 where "ISA_SDH = 6"
definition ISA_STATUS :: u16 where "ISA_STATUS = 7"
definition ISA_COMMAND :: u16 where "ISA_COMMAND = 7"
definition MAX_DISK_NSECS :: u32 where "MAX_DISK_NSECS = 0x10000000"
definition kMaxSectors :: u32 where "kMaxSectors = 128"
definition IDE_IDENT_MODEL :: nat where "IDE_IDENT_MODEL = 54"
definition IDE_IDENT_CMDSETS :: nat where "IDE_IDENT_CMDSETS = 164"
definition IDE_IDENT_MAX_LBA :: nat where "IDE_IDENT_MAX_LBA = 120"
definition IDE_IDENT_MAX_LBA_EXT :: nat where "IDE_IDENT_MAX_LBA_EXT = 200"
definition IDE_DESC_LEN :: nat where "IDE_DESC_LEN = 40"

lemmas ide_consts = SECTSIZE_def STAT_BSY_def STAT_DF_def STAT_ERR_def IDE_CMD_READ_def IDE_CMD_WRITE_def
  IDE_CMD_IDENTIFY_def IOBASE_def IOCTRL_def ISA_DATA_def ISA_CTRL_def ISA_SECCNT_def ISA_LBA_LOW_def
  ISA_LBA_MID_def ISA_LBA_HIGH_def ISA_LBA_TOP_def ISA_SDH_def ISA_STATUS_def ISA_COMMAND_def
  MAX_DISK_NSECS_def kMaxSectors_def

record ide_device =
  dev_valid :: u8
  dev_sets :: u32
  dev_size :: u32
  dev_desc :: "nat \<Rightarrow> u8"

section \<open>Operations\<close>

partial_function (option) ide_wait_status :: "device \<Rightarrow> u16 \<Rightarrow> ide_io \<Rightarrow> (u8 \<times> ide_io) option" where
  "ide_wait_status dev iobase s =
     (let (r, s) = inb dev (iobase + ISA_STATUS) s in
      if r AND STAT_BSY \<noteq> 0 then ide_wait_status dev iobase (io_hlt s) else Some (r, s))"

definition ide_wait_ready :: "device \<Rightarrow> u16 \<Rightarrow> bool \<Rightarrow> ide_io \<Rightarrow> (int \<times> ide_io) option" where
  "ide_wait_ready dev iobase check_error s =
     map_option (\<lambda>(r, s). (if check_error \<and> r AND (STAT_DF OR STAT_ERR) \<noteq> 0 then - 1 else 0, s))
       (ide_wait_status dev iobase s)"

text \<open>The swap of the bytes of the model name and the removal of the trailing blanks in \<open>ide_init\<close>.\<close>

definition swap_desc :: "(nat \<Rightarrow> u8) \<Rightarrow> (nat \<Rightarrow> u8) \<Rightarrow> nat \<Rightarrow> u8" where
  "swap_desc data desc = fold (\<lambda>i d. d(2 * i := data (2 * i + 1), 2 * i + 1 := data (2 * i))) [0..<IDE_DESC_LEN div 2] desc"

fun trim_desc :: "nat \<Rightarrow> (nat \<Rightarrow> u8) \<Rightarrow> nat \<Rightarrow> u8" where
  "trim_desc 0 desc = desc(0 := 0)"
| "trim_desc (Suc i) desc =
     (let desc = desc(Suc i := 0) in if desc i = 0x20 then trim_desc i desc else desc)"

text \<open>\<open>ide_init\<close>; \<open>buf\<close> is the address of its local buffer.\<close>

definition ide_init :: "device \<Rightarrow> u32 \<Rightarrow> ide_device \<Rightarrow> ide_io \<Rightarrow> (int \<times> ide_device \<times> ide_io) option" where
  "ide_init dev buf d s =
     Option.bind (ide_wait_ready dev IOBASE False s) (\<lambda>(_, s).
     Option.bind (ide_wait_ready dev IOBASE False (outb (IOBASE + ISA_SDH) 0xE0 s)) (\<lambda>(_, s).
     Option.bind (ide_wait_ready dev IOBASE False (outb (IOBASE + ISA_COMMAND) IDE_CMD_IDENTIFY s)) (\<lambda>(_, s).
     let (st, s) = inb dev (IOBASE + ISA_STATUS) s in
     if st = 0 then Some (- 1, d, s)
     else Option.bind (ide_wait_ready dev IOBASE True s) (\<lambda>(r, s).
       if r \<noteq> 0 then Some (- 1, d, s)
       else
         let d = d\<lparr>dev_valid := 1\<rparr>;
             s = insl dev (IOBASE + ISA_DATA) buf 128 s;
             ident = (\<lambda>i. ide_mem s (buf + of_nat i));
             cmdsets = read32 (ide_mem s) (buf + of_nat IDE_IDENT_CMDSETS);
             sectors = (if cmdsets AND push_bit 26 1 \<noteq> 0
               then read32 (ide_mem s) (buf + of_nat IDE_IDENT_MAX_LBA_EXT)
               else read32 (ide_mem s) (buf + of_nat IDE_IDENT_MAX_LBA));
             desc = trim_desc IDE_DESC_LEN (swap_desc (\<lambda>i. ident (IDE_IDENT_MODEL + i)) (dev_desc d))
         in Some (0, d\<lparr>dev_sets := cmdsets, dev_size := sectors, dev_desc := desc\<rparr>, s)))))"

definition ide_device_valid :: "ide_device \<Rightarrow> bool" where
  "ide_device_valid d \<longleftrightarrow> dev_valid d = 1"

definition ide_get_desc :: "ide_device \<Rightarrow> nat \<Rightarrow> u8" where
  "ide_get_desc d = dev_desc d"

definition ide_get_nr_block :: "ide_device \<Rightarrow> u32" where
  "ide_get_nr_block d = (if ide_device_valid d then dev_size d else 0)"

text \<open>The seven writes that start a transfer of \<open>n\<close> sectors at \<open>secno\<close>.\<close>

definition ide_command :: "u8 \<Rightarrow> u32 \<Rightarrow> u32 \<Rightarrow> ide_io \<Rightarrow> ide_io" where
  "ide_command cmd secno n s =
     outb (IOBASE + ISA_COMMAND) cmd
      (outb (IOBASE + ISA_LBA_TOP) (ucast (0xE0 OR (drop_bit 24 secno AND 0xF)))
      (outb (IOBASE + ISA_LBA_HIGH) (ucast (drop_bit 16 secno AND 0xFF))
      (outb (IOBASE + ISA_LBA_MID) (ucast (drop_bit 8 secno AND 0xFF))
      (outb (IOBASE + ISA_LBA_LOW) (ucast (secno AND 0xFF))
      (outb (IOBASE + ISA_SECCNT) (ucast n)
      (outb (IOCTRL + ISA_CTRL) 0 s))))))"

fun read_sectors :: "device \<Rightarrow> nat \<Rightarrow> u32 \<Rightarrow> ide_io \<Rightarrow> (int \<times> u32 \<times> ide_io) option" where
  "read_sectors dev 0 out s = Some (0, out, s)"
| "read_sectors dev (Suc n) out s =
     Option.bind (ide_wait_ready dev IOBASE True s) (\<lambda>(ret, s).
     if ret \<noteq> 0 then Some (ret, out, s)
     else read_sectors dev n (out + SECTSIZE) (insl dev IOBASE out (unat SECTSIZE div 4) s))"

text \<open>The outer loop. After the inner loop the counter \<open>n\<close> is zero, so the additions to \<open>secno\<close> and
  \<open>out\<close> that follow it add nothing.\<close>

partial_function (option) read_loop :: "device \<Rightarrow> u32 \<Rightarrow> u32 \<Rightarrow> u32 \<Rightarrow> ide_io \<Rightarrow> (int \<times> ide_io) option" where
  "read_loop dev secno out nsecs s =
     (let n = min nsecs kMaxSectors; nsecs = nsecs - n in
      Option.bind (ide_wait_ready dev IOBASE False s) (\<lambda>(_, s).
      Option.bind (read_sectors dev (unat n) out (ide_command IDE_CMD_READ secno n s)) (\<lambda>(ret, out, s).
      if ret \<noteq> 0 then Some (ret, s)
      else let n = 0; secno = secno + n; out = out + n * SECTSIZE in
           if nsecs \<noteq> 0 then read_loop dev secno out nsecs s else Some (0, s))))"

definition secno_ok :: "u32 \<Rightarrow> u32 \<Rightarrow> bool" where
  "secno_ok secno nsecs \<longleftrightarrow> secno < MAX_DISK_NSECS \<and> secno + nsecs \<le> MAX_DISK_NSECS"

definition ide_read_secs :: "device \<Rightarrow> ide_device \<Rightarrow> u32 \<Rightarrow> u32 \<Rightarrow> u32 \<Rightarrow> ide_io \<Rightarrow> (int \<times> ide_io) result option" where
  "ide_read_secs dev d secno dst nsecs s =
     (if \<not> ide_device_valid d then Some (Inl (AssertFail ''ide device error''))
      else if \<not> secno_ok secno nsecs then Some (Inl (AssertFail ''secno error!''))
      else map_option Inr (read_loop dev secno dst nsecs s))"

fun write_sectors :: "device \<Rightarrow> nat \<Rightarrow> u32 \<Rightarrow> ide_io \<Rightarrow> (int \<times> u32 \<times> ide_io) option" where
  "write_sectors dev 0 input s = Some (0, input, s)"
| "write_sectors dev (Suc n) input s =
     Option.bind (ide_wait_ready dev IOBASE True s) (\<lambda>(ret, s).
     if ret \<noteq> 0 then Some (ret, input, s)
     else write_sectors dev n (input + SECTSIZE) (outsl IOBASE input (unat SECTSIZE div 4) s))"

partial_function (option) write_loop :: "device \<Rightarrow> u32 \<Rightarrow> u32 \<Rightarrow> u32 \<Rightarrow> ide_io \<Rightarrow> (int \<times> ide_io) option" where
  "write_loop dev secno input nsecs s =
     (let n = min nsecs kMaxSectors; nsecs = nsecs - n in
      Option.bind (ide_wait_ready dev IOBASE False s) (\<lambda>(_, s).
      Option.bind (write_sectors dev (unat n) input (ide_command IDE_CMD_WRITE secno n s)) (\<lambda>(ret, input, s).
      if ret \<noteq> 0 then Some (ret, s)
      else let n = 0; secno = secno + n; input = input + n * SECTSIZE in
           if nsecs \<noteq> 0 then write_loop dev secno input nsecs s else Some (0, s))))"

definition ide_write_secs :: "device \<Rightarrow> ide_device \<Rightarrow> u32 \<Rightarrow> u32 \<Rightarrow> u32 \<Rightarrow> ide_io \<Rightarrow> (int \<times> ide_io) result option" where
  "ide_write_secs dev d secno src nsecs s =
     (if \<not> ide_device_valid d then Some (Inl (AssertFail ''ide device error''))
      else if \<not> secno_ok secno nsecs then Some (Inl (AssertFail ''secno error!''))
      else map_option Inr (write_loop dev secno src nsecs s))"

datatype io_type_t = IO_READ | IO_WRITE

record io_request_t =
  req_io_type :: io_type_t
  req_secno :: u32
  req_nsecs :: u32
  req_buffer :: u32
  req_bsize :: u32

definition ide_request :: "device \<Rightarrow> ide_device \<Rightarrow> io_request_t \<Rightarrow> ide_io \<Rightarrow> (int \<times> ide_io) result option" where
  "ide_request dev d req s = (case req_io_type req of
       IO_READ \<Rightarrow>
         if req_bsize req < SECTSIZE * req_nsecs req then Some (Inr (- 1, s))
         else ide_read_secs dev d (req_secno req) (req_buffer req) (req_nsecs req) s
     | IO_WRITE \<Rightarrow>
         if req_bsize req < SECTSIZE * req_nsecs req then Some (Inr (- 1, s))
         else ide_write_secs dev d (req_secno req) (req_buffer req) (req_nsecs req) s)"

definition ide_ioctl :: "int \<Rightarrow> int \<Rightarrow> int" where
  "ide_ioctl op flag = (if op \<noteq> 0 \<and> flag \<noteq> 0 then - 1 else 0)"

text \<open>The self test, without its output: \<open>buf\<close> is the address of its local buffer. The results of the two
  transfers are not looked at.\<close>

definition test_ide :: "device \<Rightarrow> ide_device \<Rightarrow> u32 \<Rightarrow> ide_io \<Rightarrow> ide_io result option" where
  "test_ide dev d buf s =
     (let secno = 1; s = s\<lparr>ide_mem := fold (\<lambda>i m. m(buf + of_nat i := of_nat i)) [0..<512] (ide_mem s)\<rparr> in
      robind (ide_write_secs dev d secno buf 1 s) (\<lambda>(_, s).
      robind (ide_read_secs dev d secno buf 1 (s\<lparr>ide_mem := bzero buf 512 (ide_mem s)\<rparr>)) (\<lambda>(_, s).
      Some (if list_all (\<lambda>i. unat (ide_mem s (buf + of_nat i)) = i mod 256) [0..<512]
            then Inr s else Inl (AssertFail ''ide disk error'')))))"

section \<open>The controller\<close>

text \<open>The disk behind the controller: \<open>dsk h\<close> is its content after the history \<open>h\<close>, in words numbered from the start
  of sector 0.\<close>

type_synonym disk = "io_event list \<Rightarrow> nat \<Rightarrow> u32"

definition status :: "device \<Rightarrow> io_event list \<Rightarrow> u8" where
  "status dev h = ucast (dev h 0x1F7)"

definition busy :: "device \<Rightarrow> io_event list \<Rightarrow> bool" where
  "busy dev h \<longleftrightarrow> status dev h AND STAT_BSY \<noteq> 0"

definition failed :: "device \<Rightarrow> io_event list \<Rightarrow> bool" where
  "failed dev h \<longleftrightarrow> status dev h AND (STAT_DF OR STAT_ERR) \<noteq> 0"

text \<open>Writes of the registers for a command: the device control register (without the reset bit), the sector count, the three
  low bytes of the address, and the device register, which selects device 0.\<close>

fun reg_write :: "u16 \<times> u8 \<Rightarrow> bool" where
  "reg_write (p, v) \<longleftrightarrow> p = 0x3F6 \<and> v AND 4 = 0 \<or> p \<in> {0x1F2, 0x1F3, 0x1F4, 0x1F5} \<or> p = 0x1F6 \<and> v AND 0x10 = 0"

fun out_event :: "u16 \<times> u8 \<Rightarrow> io_event" where
  "out_event (p, v) = Outb p v"

definition lba :: "u8 \<Rightarrow> u8 \<Rightarrow> u8 \<Rightarrow> u8 \<Rightarrow> nat" where
  "lba l0 l1 l2 l3 = unat l0 + 2 ^ 8 * unat l1 + 2 ^ 16 * unat l2 + 2 ^ 24 * (unat l3 mod 16)"

text \<open>The registers hold a request for \<open>n\<close> sectors from \<open>a\<close> on, in LBA mode; the count 0 stands for 256.\<close>

definition addressed :: "(u16 \<times> u8) list \<Rightarrow> nat \<Rightarrow> nat \<Rightarrow> bool" where
  "addressed w n a \<longleftrightarrow> (\<exists>c l0 l1 l2 l3. map_of (rev w) 0x1F2 = Some c \<and> map_of (rev w) 0x1F3 = Some l0
     \<and> map_of (rev w) 0x1F4 = Some l1 \<and> map_of (rev w) 0x1F5 = Some l2 \<and> map_of (rev w) 0x1F6 = Some l3
     \<and> l3 AND 0x40 \<noteq> 0 \<and> n = (if c = 0 then 256 else unat c) \<and> a = lba l0 l1 l2 l3)"

text \<open>A command that transfers \<open>n\<close> sectors, from the disk or (\<open>wr\<close>) to it; after \<open>h\<close>, it is issued behind a look at the status.\<close>

definition command :: "bool \<Rightarrow> nat \<Rightarrow> (u16 \<times> u8) list \<Rightarrow> u8 \<Rightarrow> bool" where
  "command wr n w cmd \<longleftrightarrow> list_all reg_write w \<and> (if cmd = 0xEC then \<not> wr \<and> n = 1
     else cmd = (if wr then 0x30 else 0x20) \<and> (\<exists>a. addressed w n a))"

definition issue :: "io_event list \<Rightarrow> (u16 \<times> u8) list \<Rightarrow> u8 \<Rightarrow> io_event list" where
  "issue h w cmd = h @ Inb 0x1F7 # map out_event w @ [Outb 0x1F7 cmd]"

text \<open>The transfer behind a command: each sector is moved after a status without the busy bit.\<close>

definition data_block :: "bool \<Rightarrow> io_event list \<Rightarrow> bool" where
  "data_block wr b \<longleftrightarrow> length b = 128 \<and> list_all (\<lambda>e. if wr then \<exists>x. e = Outsl 0x1F0 x else e = Insl 0x1F0) b"

inductive transfer :: "device \<Rightarrow> bool \<Rightarrow> io_event list \<Rightarrow> nat \<Rightarrow> io_event list \<Rightarrow> bool" for dev wr base where
  begun: "transfer dev wr base 0 []"
| polled: "transfer dev wr base n t \<Longrightarrow> transfer dev wr base n (t @ [Inb 0x1F7])"
| paused: "transfer dev wr base n t \<Longrightarrow> transfer dev wr base n (t @ [Hlt])"
| moved: "transfer dev wr base n t \<Longrightarrow> \<not> busy dev (base @ t) \<Longrightarrow> data_block wr b \<Longrightarrow> transfer dev wr base (Suc n) (t @ Inb 0x1F7 # b)"

text \<open>Histories after which no command is under way: registers are written and commands are issued only behind a status without the
  busy bit, and every transfer was completed.\<close>

inductive ata_idle :: "device \<Rightarrow> io_event list \<Rightarrow> bool" for dev where
  power_on: "ata_idle dev []"
| poll: "ata_idle dev h \<Longrightarrow> ata_idle dev (h @ [Inb 0x1F7])"
| pause: "ata_idle dev h \<Longrightarrow> ata_idle dev (h @ [Hlt])"
| register: "ata_idle dev h \<Longrightarrow> \<not> busy dev h \<Longrightarrow> reg_write r \<Longrightarrow> ata_idle dev (h @ [Inb 0x1F7, out_event r])"
| finished: "ata_idle dev h \<Longrightarrow> \<not> busy dev h \<Longrightarrow> command wr n w cmd \<Longrightarrow> transfer dev wr (issue h w cmd) n t \<Longrightarrow>
    ata_idle dev (issue h w cmd @ t)"

text \<open>A command was issued in an idle state and \<open>m\<close> of its \<open>n\<close> sectors have been moved by the events \<open>t\<close>.\<close>

definition under_way :: "device \<Rightarrow> bool \<Rightarrow> nat \<Rightarrow> (u16 \<times> u8) list \<Rightarrow> u8 \<Rightarrow> io_event list \<Rightarrow> nat \<Rightarrow> io_event list \<Rightarrow> bool" where
  "under_way dev wr n w cmd h m t \<longleftrightarrow> ata_idle dev h \<and> \<not> busy dev h \<and> command wr n w cmd
     \<and> transfer dev wr (issue h w cmd) m t \<and> m \<le> n"

text \<open>The laws. The controller may be busy at any time, but for a host that follows the protocol it becomes ready after
  finitely many looks at the status.\<close>

definition polls :: "nat \<Rightarrow> io_event list" where
  "polls k = concat (replicate k [Inb 0x1F7, Hlt])"

definition ata_answers :: "device \<Rightarrow> bool" where
  "ata_answers dev \<longleftrightarrow> (\<forall>h. ata_idle dev h \<longrightarrow> (\<exists>k. \<not> busy dev (h @ polls k)))
     \<and> (\<forall>wr n w cmd h m t. under_way dev wr n w cmd h m t \<longrightarrow> (\<exists>k. \<not> busy dev (issue h w cmd @ t @ polls k)))"

text \<open>Reading: for the next sector of a read command the controller, once it is ready, reports an error when the sector is
  \<open>bad\<close>, and otherwise delivers its 128 words, one after the other.\<close>

definition ata_reads :: "device \<Rightarrow> disk \<Rightarrow> nat set \<Rightarrow> bool" where
  "ata_reads dev dsk bad \<longleftrightarrow> (\<forall>n w a h m t. under_way dev False n w 0x20 h m t \<and> addressed w n a \<and> a + n \<le> 0x10000000 \<and> m < n
     \<and> \<not> busy dev (issue h w 0x20 @ t) \<longrightarrow> (failed dev (issue h w 0x20 @ t) \<longleftrightarrow> a + m \<in> bad)
       \<and> (a + m \<notin> bad \<longrightarrow> (\<forall>r<128. dev (issue h w 0x20 @ t @ Inb 0x1F7 # replicate r (Insl 0x1F0)) 0x1F0 = dsk h (128 * (a + m) + r))))"

text \<open>Writing: the words sent behind a write command are on the disk when all sectors have been moved.\<close>

fun sent_words :: "io_event list \<Rightarrow> u32 list" where
  "sent_words [] = []"
| "sent_words (Outsl p w # h) = w # sent_words h"
| "sent_words (e # h) = sent_words h"

definition put_words :: "(nat \<Rightarrow> u32) \<Rightarrow> nat \<Rightarrow> u32 list \<Rightarrow> nat \<Rightarrow> u32" where
  "put_words f a ws j = (if a \<le> j \<and> j < a + length ws then ws ! (j - a) else f j)"

definition ata_writes :: "device \<Rightarrow> disk \<Rightarrow> bool" where
  "ata_writes dev dsk \<longleftrightarrow> (\<forall>n w a h m t. under_way dev True n w 0x30 h m t \<and> addressed w n a \<and> a + n \<le> 0x10000000 \<longrightarrow>
     (m < n \<and> \<not> busy dev (issue h w 0x30 @ t) \<longrightarrow> \<not> failed dev (issue h w 0x30 @ t))
     \<and> (m = n \<longrightarrow> dsk (issue h w 0x30 @ t) = put_words (dsk h) (128 * a) (sent_words t)))"

text \<open>Nothing but data words changes the disk, as far as the three commands go that the driver uses.\<close>

fun harmless :: "io_event \<Rightarrow> bool" where
  "harmless (Outb p v) \<longleftrightarrow> p = 0x1F7 \<longrightarrow> v \<in> {0x20, 0x30, 0xEC}"
| "harmless (Outsl p w) \<longleftrightarrow> False"
| "harmless e \<longleftrightarrow> True"

definition ata_keeps :: "disk \<Rightarrow> bool" where
  "ata_keeps dsk \<longleftrightarrow> (\<forall>h e. harmless e \<longrightarrow> dsk (h @ [e]) = dsk h)"

text \<open>A drive of \<open>2\<^sup>2\<^sup>8\<close> sectors without a bad one.\<close>

definition ata_working :: "device \<Rightarrow> disk \<Rightarrow> bool" where
  "ata_working dev dsk \<longleftrightarrow> ata_answers dev \<and> ata_reads dev dsk {} \<and> ata_keeps dsk \<and> ata_writes dev dsk"

lemma sent_words_append [simp]: "sent_words (h @ h') = sent_words h @ sent_words h'"
  by (induction h rule: sent_words.induct) auto

lemma polls_Suc: "polls (Suc k) = [Inb 0x1F7, Hlt] @ polls k"
  by (simp add: polls_def)

lemma polls_events: "e \<in> set (polls k) \<Longrightarrow> e = Inb 0x1F7 \<or> e = Hlt"
  by (induction k) (auto simp: polls_Suc, simp add: polls_def)

lemma idle_polls: "ata_idle dev h \<Longrightarrow> ata_idle dev (h @ polls k)"
proof (induction k arbitrary: h)
  case (Suc k)
  then show ?case using Suc.IH [of "h @ [Inb 0x1F7] @ [Hlt]"] ata_idle.pause [OF ata_idle.poll] by (simp add: polls_Suc)
qed (simp add: polls_def)

lemma transfer_polls: "transfer dev wr base n t \<Longrightarrow> transfer dev wr base n (t @ polls k)"
proof (induction k arbitrary: t)
  case (Suc k)
  then show ?case using Suc.IH [of "t @ [Inb 0x1F7] @ [Hlt]"] transfer.paused [OF transfer.polled] by (simp add: polls_Suc)
qed (simp add: polls_def)

lemma under_way_polls: "under_way dev wr n w cmd h m t \<Longrightarrow> under_way dev wr n w cmd h m (t @ polls k)"
  by (simp add: under_way_def transfer_polls)

lemma under_way_moved:
  assumes "under_way dev wr n w cmd h m t" and "m < n" and "\<not> busy dev (issue h w cmd @ t)" and "data_block wr b"
  shows "under_way dev wr n w cmd h (Suc m) (t @ Inb 0x1F7 # b)"
  using assms by (auto simp: under_way_def intro: transfer.moved)

lemma under_way_done: "under_way dev wr n w cmd h n t \<Longrightarrow> ata_idle dev (issue h w cmd @ t)"
  by (auto simp: under_way_def intro: ata_idle.finished)

lemma keeps_harmless:
  assumes "ata_keeps dsk"
  shows "list_all harmless h \<Longrightarrow> dsk (l @ h) = dsk l"
proof (induction h rule: rev_induct)
  case (snoc e h)
  have "harmless e" using snoc.prems by simp
  then have "dsk ((l @ h) @ [e]) = dsk (l @ h)" using assms unfolding ata_keeps_def by blast
  then show ?case using snoc by simp
qed simp

lemma harmless_polls: "list_all harmless (polls k)"
  by (auto simp: list_all_iff dest: polls_events)

lemma harmless_reg: "reg_write r \<Longrightarrow> harmless (out_event r)"
  by (cases r) auto

lemma harmless_transfer: "transfer dev False base n t \<Longrightarrow> list_all harmless t"
  by (induction rule: transfer.induct) (auto simp: data_block_def list_all_iff)

lemma dsk_reads:
  assumes "ata_keeps dsk" and "under_way dev False n w cmd h m t"
  shows "dsk (issue h w cmd @ t) = dsk h"
proof -
  have "list_all harmless (map out_event w)" using assms(2) by (auto simp: under_way_def command_def list_all_iff intro: harmless_reg)
  moreover have "cmd \<in> {0x20, 0x30, 0xEC}" using assms(2) by (auto simp: under_way_def command_def split: if_splits)
  moreover have "list_all harmless t" using assms(2) by (auto simp: under_way_def intro: harmless_transfer)
  ultimately show ?thesis
    using keeps_harmless [OF assms(1), of "Inb 0x1F7 # map out_event w @ Outb 0x1F7 cmd # t" h] by (simp add: issue_def)
qed

text \<open>Waiting ends with the first status without the busy bit.\<close>

lemma wait_status:
  "\<not> busy dev (io_log s @ polls k) \<Longrightarrow> \<exists>k. \<not> busy dev (io_log s @ polls k)
     \<and> ide_wait_status dev IOBASE s = Some (status dev (io_log s @ polls k), s\<lparr>io_log := io_log s @ polls k @ [Inb 0x1F7]\<rparr>)"
proof (induction k arbitrary: s)
  case 0
  then have "status dev (io_log s) AND 0x80 = 0" by (simp add: busy_def polls_def STAT_BSY_def)
  then show ?case using 0 by (intro exI [of _ 0])
    (subst ide_wait_status.simps, simp add: inb_def ide_consts polls_def status_def)
next
  case (Suc k)
  show ?case
  proof (cases "busy dev (io_log s)")
    case False
    then have "status dev (io_log s) AND 0x80 = 0" by (simp add: busy_def STAT_BSY_def)
    then show ?thesis using False by (intro exI [of _ 0])
      (subst ide_wait_status.simps, simp add: inb_def ide_consts polls_def status_def)
  next
    case True
    let ?s = "s\<lparr>io_log := io_log s @ [Inb 0x1F7, Hlt]\<rparr>"
    obtain k' where k': "\<not> busy dev (io_log ?s @ polls k')"
      "ide_wait_status dev IOBASE ?s = Some (status dev (io_log ?s @ polls k'), ?s\<lparr>io_log := io_log ?s @ polls k' @ [Inb 0x1F7]\<rparr>)"
      using Suc.IH [of ?s] Suc.prems by (auto simp: polls_Suc)
    have "ide_wait_status dev IOBASE s = ide_wait_status dev IOBASE ?s"
      using True by (subst ide_wait_status.simps) (simp add: inb_def io_hlt_def ide_consts busy_def status_def)
    then show ?thesis using k' by (intro exI [of _ "Suc k'"]) (simp add: polls_Suc)
  qed
qed

lemma wait_ready:
  assumes "\<exists>k. \<not> busy dev (io_log s @ polls k)"
  shows "\<exists>k. \<not> busy dev (io_log s @ polls k) \<and> ide_wait_ready dev IOBASE check s =
    Some (if check \<and> failed dev (io_log s @ polls k) then - 1 else 0, s\<lparr>io_log := io_log s @ polls k @ [Inb 0x1F7]\<rparr>)"
  using assms wait_status [of dev s] by (fastforce simp: ide_wait_ready_def failed_def)

lemma wait_idle:
  assumes "ata_answers dev" and "ata_idle dev (io_log s)"
  shows "\<exists>k. \<not> busy dev (io_log s @ polls k) \<and> ide_wait_ready dev IOBASE False s = Some (0, s\<lparr>io_log := io_log s @ polls k @ [Inb 0x1F7]\<rparr>)"
  using wait_ready [of dev s False] assms by (simp add: ata_answers_def)

lemma wait_under_way:
  assumes "ata_answers dev" and "under_way dev wr n w cmd h m t" and "io_log s = issue h w cmd @ t"
  shows "\<exists>k. \<not> busy dev (issue h w cmd @ t @ polls k) \<and> ide_wait_ready dev IOBASE check s =
    Some (if check \<and> failed dev (issue h w cmd @ t @ polls k) then - 1 else 0, s\<lparr>io_log := issue h w cmd @ t @ polls k @ [Inb 0x1F7]\<rparr>)"
  using wait_ready [of dev s check] assms by (simp add: ata_answers_def)

section \<open>Transfers\<close>

definition write_words :: "mem \<Rightarrow> u32 \<Rightarrow> (nat \<Rightarrow> u32) \<Rightarrow> nat \<Rightarrow> mem" where
  "write_words m a f n = fold (\<lambda>i m. write32 m (a + of_nat (4 * i)) (f i)) [0..<n] m"

lemma write_words_0 [simp]: "write_words m a f 0 = m"
  by (simp add: write_words_def)

lemma write_words_Suc: "write_words m a f (Suc n) = write32 (write_words m a f n) (a + of_nat (4 * n)) (f n)"
  by (simp add: write_words_def)

lemma write_words_add:
  "write_words (write_words m a f n) (a + of_nat (4 * n)) (\<lambda>i. f (n + i)) k = write_words m a f (n + k)"
  by (induction k) (simp_all add: write_words_Suc algebra_simps)

lemma write_words_Cons: "write_words (write32 m a (f 0)) (a + 4) (\<lambda>i. f (Suc i)) n = write_words m a f (Suc n)"
  using write_words_add [of m a f 1 n] by (simp add: write_words_Suc)

lemma write_words_cong: "(\<And>i. i < n \<Longrightarrow> f i = g i) \<Longrightarrow> write_words m a f n = write_words m a g n"
  by (induction n) (simp_all add: write_words_Suc)

lemma insl_words:
  "insl dev port addr n s =
     s\<lparr>ide_mem := write_words (ide_mem s) addr (\<lambda>i. dev (io_log s @ replicate i (Insl port)) port) n,
       io_log := io_log s @ replicate n (Insl port)\<rparr>"
proof (induction n arbitrary: addr s)
  case (Suc n)
  have "(\<lambda>i. dev (io_log s @ replicate (Suc i) (Insl port)) port) =
      (\<lambda>i. dev ((io_log s @ [Insl port]) @ replicate i (Insl port)) port)" by simp
  then show ?case using Suc
      write_words_Cons [of "ide_mem s" addr "\<lambda>i. dev (io_log s @ replicate i (Insl port)) port" n] by simp
qed simp

lemma low_nibble: "unat (ucast (0xE0 OR (w AND 0xF)) :: u8) mod 16 = unat w mod 16" for w :: u32
proof -
  have m: "(0xF :: u32) = mask 4" by (simp add: mask_eq_exp_minus_1)
  have 1: "unat (ucast v :: u8) mod 16 = unat (take_bit 4 v)" for v :: u32
    by (simp only: unsigned_ucast_eq unsigned_take_bit_eq) (simp add: take_bit_eq_mod mod_mod_cancel)
  have 2: "take_bit 4 (0xE0 OR (w AND 0xF)) = take_bit 4 w"
    unfolding m take_bit_eq_mask [symmetric] by (simp add: take_bit_or)
  show ?thesis unfolding 1 2 by (simp add: take_bit_eq_mod unat_mod)
qed

lemma lba_bytes:
  assumes "secno < 0x10000000"
  shows "lba (ucast (secno AND 0xFF)) (ucast (drop_bit 8 secno AND 0xFF)) (ucast (drop_bit 16 secno AND 0xFF))
    (ucast (0xE0 OR (drop_bit 24 secno AND 0xF))) = unat (secno :: u32)"
proof -
  have "unat (drop_bit k secno) = drop_bit k (take_bit 32 (unat secno))" for k
    by (simp only: unsigned_drop_bit_eq) simp
  then have d: "unat (drop_bit k secno) = unat secno div 2 ^ k" for k
    using unat_u32_lt [of secno] by (simp only: take_bit_eq_mod drop_bit_eq_div) simp
  have lt: "unat secno div 2 ^ 24 < 16" using assms by (simp add: word_less_nat_alt less_mult_imp_div_less)
  have top: "unat (ucast (0xE0 OR (drop_bit 24 secno AND 0xF)) :: u8) mod 16 = unat secno div 2 ^ 24"
    using low_nibble [of "drop_bit 24 secno"] lt by (simp add: d)
  have "unat secno = unat secno mod 2 ^ 8 + 2 ^ 8 * (unat secno div 2 ^ 8 mod 2 ^ 8)
      + 2 ^ 16 * (unat secno div 2 ^ 16 mod 2 ^ 8) + 2 ^ 24 * (unat secno div 2 ^ 24)"
    using mod_mult2_eq [of "unat secno" "2 ^ 8" "2 ^ 8"] mod_mult2_eq [of "unat secno" "2 ^ 16" "2 ^ 8"]
      mod_mult_div_eq [of "unat secno" "2 ^ 24"] by simp
  then show ?thesis using top by (simp add: lba_def byte_of_word d)
qed


text \<open>The registers that the driver writes before a command.\<close>

definition cmd_regs :: "u32 \<Rightarrow> u32 \<Rightarrow> (u16 \<times> u8) list" where
  "cmd_regs secno n = [(0x3F6, 0), (0x1F2, ucast n), (0x1F3, ucast (secno AND 0xFF)), (0x1F4, ucast (drop_bit 8 secno AND 0xFF)),
     (0x1F5, ucast (drop_bit 16 secno AND 0xFF)), (0x1F6, ucast (0xE0 OR (drop_bit 24 secno AND 0xF)))]"

lemma command_issue:
  "io_log s = h @ [Inb 0x1F7] \<Longrightarrow> io_log (ide_command cmd secno n s) = issue h (cmd_regs secno n) cmd"
  "ide_mem (ide_command cmd secno n s) = ide_mem s"
  by (simp_all add: ide_command_def outb_def ide_consts issue_def cmd_regs_def)

lemma device_byte:
  fixes x :: u32
  shows "(ucast (0xE0 OR (x AND 0xF)) :: u8) AND 0x10 = 0" and "(ucast (0xE0 OR (x AND 0xF)) :: u8) AND 0x40 \<noteq> 0"
proof -
  have 1: "(0xE0 OR (x AND 0xF)) AND 0x10 = 0" and 2: "(0xE0 OR (x AND 0xF)) AND 0x40 = 0x40"
    by (simp_all add: bit.conj_disj_distrib2 and.assoc)
  have "(ucast ((0xE0 OR (x AND 0xF)) AND 0x10) :: u8) = 0" "(ucast ((0xE0 OR (x AND 0xF)) AND 0x40) :: u8) = 0x40"
    unfolding 1 2 by simp_all
  then show "(ucast (0xE0 OR (x AND 0xF)) :: u8) AND 0x10 = 0" "(ucast (0xE0 OR (x AND 0xF)) :: u8) AND 0x40 \<noteq> 0"
    by (simp_all add: unsigned_and_eq del: unsigned_or_eq)
qed

lemma cmd_regs_ok: "list_all reg_write (cmd_regs secno n)"
  by (simp add: cmd_regs_def device_byte del: unsigned_or_eq)

lemma cmd_addressed:
  assumes "secno < 0x10000000" and "0 < n" and "n \<le> 128"
  shows "addressed (cmd_regs secno n) (unat n) (unat secno)"
proof -
  have "unat n \<le> 128" "unat n \<noteq> 0" using assms(2,3) by (auto simp: word_le_nat_alt unat_eq_zero)
  then have "unat (ucast n :: u8) = unat n" by (simp add: unsigned_ucast_eq take_bit_eq_mod)
  moreover from this \<open>unat n \<noteq> 0\<close> have "(ucast n :: u8) \<noteq> 0" by (metis unsigned_0)
  ultimately show ?thesis unfolding addressed_def cmd_regs_def using lba_bytes [OF assms(1)] device_byte(2)
    by (simp add: eq_commute [of "unat secno"] del: unsigned_or_eq)
qed

lemma command_under_way:
  assumes "ata_idle dev h" and "\<not> busy dev h" and "secno < 0x10000000" and "0 < n" and "n \<le> 128"
  shows "under_way dev wr (unat n) (cmd_regs secno n) (if wr then 0x30 else 0x20) h 0 []"
  using assms cmd_regs_ok cmd_addressed [OF assms(3-5)]
  by (auto simp: under_way_def command_def intro: transfer.begun)

section \<open>Reading\<close>

lemma data_block_in: "data_block False (replicate 128 (Insl 0x1F0))"
  by (simp add: data_block_def list_all_iff)

lemma read_sector:
  assumes dev: "ata_answers dev" "ata_reads dev dsk bad" and a: "addressed w n a" "a + n \<le> 0x10000000"
    and t: "under_way dev False n w 0x20 h m t" "io_log s = issue h w 0x20 @ t" "m < n"
  shows "a + m \<in> bad \<Longrightarrow> \<exists>s'. read_sectors dev (Suc j) out s = Some (- 1, out, s') \<and> ide_mem s' = ide_mem s"
    and "a + m \<notin> bad \<Longrightarrow> \<exists>s' t'. read_sectors dev (Suc j) out s = read_sectors dev j (out + 512) s'
      \<and> io_log s' = issue h w 0x20 @ t' \<and> under_way dev False n w 0x20 h (Suc m) t'
      \<and> ide_mem s' = write_words (ide_mem s) out (\<lambda>i. dsk h (128 * (a + m) + i)) 128"
proof -
  obtain k where k: "\<not> busy dev (issue h w 0x20 @ t @ polls k)"
    "ide_wait_ready dev IOBASE True s = Some (if failed dev (issue h w 0x20 @ t @ polls k) then - 1 else 0,
       s\<lparr>io_log := issue h w 0x20 @ t @ polls k @ [Inb 0x1F7]\<rparr>)"
    using wait_under_way [OF dev(1) t(1,2), of True] by auto
  let ?t = "t @ polls k" and ?s = "s\<lparr>io_log := issue h w 0x20 @ t @ polls k @ [Inb 0x1F7]\<rparr>"
  have u: "under_way dev False n w 0x20 h m ?t" by (rule under_way_polls [OF t(1)])
  have law: "failed dev (issue h w 0x20 @ ?t) \<longleftrightarrow> a + m \<in> bad"
    "a + m \<notin> bad \<Longrightarrow> r < 128 \<Longrightarrow> dev (issue h w 0x20 @ ?t @ Inb 0x1F7 # replicate r (Insl 0x1F0)) 0x1F0 = dsk h (128 * (a + m) + r)" for r
    using dev(2) [unfolded ata_reads_def, rule_format, of n w h m ?t a] u a t(3) k(1) by simp_all
  { assume "a + m \<in> bad"
    then show "\<exists>s'. read_sectors dev (Suc j) out s = Some (- 1, out, s') \<and> ide_mem s' = ide_mem s"
      using k(2) law(1) by simp }
  assume good: "a + m \<notin> bad"
  let ?s' = "insl dev 0x1F0 out 128 ?s" and ?t' = "?t @ Inb 0x1F7 # replicate 128 (Insl 0x1F0)"
  have "ide_mem ?s' = write_words (ide_mem s) out (\<lambda>i. dsk h (128 * (a + m) + i)) 128"
    unfolding insl_words using law(2) [OF good] by (auto intro!: write_words_cong)
  moreover have "io_log ?s' = issue h w 0x20 @ ?t'" by (simp add: insl_words)
  moreover have "under_way dev False n w 0x20 h (Suc m) ?t'" using under_way_moved [OF u t(3) _ data_block_in] k(1) by simp
  moreover have "read_sectors dev (Suc j) out s = read_sectors dev j (out + 512) ?s'"
    using k(2) law(1) good by (simp add: ide_consts)
  ultimately show "\<exists>s' t'. read_sectors dev (Suc j) out s = read_sectors dev j (out + 512) s'
      \<and> io_log s' = issue h w 0x20 @ t' \<and> under_way dev False n w 0x20 h (Suc m) t'
      \<and> ide_mem s' = write_words (ide_mem s) out (\<lambda>i. dsk h (128 * (a + m) + i)) 128" by blast
qed

text \<open>\<open>q\<close> good sectors in a row.\<close>

lemma read_sectors_words:
  assumes dev: "ata_answers dev" "ata_reads dev dsk bad" and a: "addressed w n a" "a + n \<le> 0x10000000"
  shows "under_way dev False n w 0x20 h m t \<Longrightarrow> io_log s = issue h w 0x20 @ t \<Longrightarrow> m + q \<le> n \<Longrightarrow> \<forall>i<q. a + m + i \<notin> bad \<Longrightarrow>
    \<exists>s' t'. read_sectors dev (q + j) out s = read_sectors dev j (out + of_nat (512 * q)) s'
      \<and> io_log s' = issue h w 0x20 @ t' \<and> under_way dev False n w 0x20 h (m + q) t'
      \<and> ide_mem s' = write_words (ide_mem s) out (\<lambda>i. dsk h (128 * (a + m) + i)) (128 * q)"
proof (induction q arbitrary: m t s out)
  case 0
  then show ?case by auto
next
  case (Suc q)
  let ?f = "\<lambda>m i. dsk h (128 * (a + m) + i)"
  have "m < n" "a + m \<notin> bad" using Suc.prems(3,4) by auto
  then obtain s1 t1 where s1: "read_sectors dev (Suc (q + j)) out s = read_sectors dev (q + j) (out + 512) s1"
    "io_log s1 = issue h w 0x20 @ t1" "under_way dev False n w 0x20 h (Suc m) t1" "ide_mem s1 = write_words (ide_mem s) out (?f m) 128"
    using read_sector(2) [OF dev a Suc.prems(1,2)] by blast
  have "\<forall>i<q. a + Suc m + i \<notin> bad" using Suc.prems(4) by auto
  from Suc.IH [OF s1(3,2) _ this, of "out + 512"] Suc.prems(3) obtain s' t' where
    s': "read_sectors dev (q + j) (out + 512) s1 = read_sectors dev j (out + 512 + of_nat (512 * q)) s'"
    "io_log s' = issue h w 0x20 @ t'" "under_way dev False n w 0x20 h (Suc m + q) t'"
    "ide_mem s' = write_words (ide_mem s1) (out + 512) (?f (Suc m)) (128 * q)" by auto
  have "ide_mem s' = write_words (ide_mem s) out (?f m) (128 * Suc q)"
    using s'(4) s1(4) write_words_add [of "ide_mem s" out "?f m" 128 "128 * q"] by (simp add: algebra_simps)
  then show ?case using s1(1) s'(1-3) by (intro exI [of _ s'] exI [of _ t']) (simp add: algebra_simps)
qed

text \<open>The start of a transfer: the driver waits and writes the registers.\<close>

lemma command_start:
  assumes dev: "ata_answers dev" "ata_keeps dsk" and s: "ata_idle dev (io_log s)" and r: "secno < 0x10000000" "0 < n" "n \<le> 128"
  shows "\<exists>h s1. ide_wait_ready dev IOBASE False s = Some (0, s1) \<and> dsk h = dsk (io_log s) \<and> ide_mem s1 = ide_mem s
    \<and> io_log (ide_command (if wr then 0x30 else 0x20) secno n s1) = issue h (cmd_regs secno n) (if wr then 0x30 else 0x20)
    \<and> under_way dev wr (unat n) (cmd_regs secno n) (if wr then 0x30 else 0x20) h 0 []"
proof -
  obtain k where k: "\<not> busy dev (io_log s @ polls k)"
    "ide_wait_ready dev IOBASE False s = Some (0, s\<lparr>io_log := io_log s @ polls k @ [Inb 0x1F7]\<rparr>)"
    using wait_idle [OF dev(1) s] by blast
  let ?h = "io_log s @ polls k"
  have "under_way dev wr (unat n) (cmd_regs secno n) (if wr then 0x30 else 0x20) ?h 0 []"
    by (rule command_under_way [OF idle_polls [OF s] k(1) r])
  moreover have "dsk ?h = dsk (io_log s)" by (rule keeps_harmless [OF dev(2) harmless_polls])
  ultimately show ?thesis using k(2)
    by (intro exI [of _ ?h] exI [of _ "s\<lparr>io_log := io_log s @ polls k @ [Inb 0x1F7]\<rparr>"]) (simp add: command_issue)
qed

text \<open>One round of at most 128 sectors.\<close>

lemma read_round:
  assumes dev: "ata_answers dev" "ata_reads dev dsk bad" "ata_keeps dsk" and s: "ata_idle dev (io_log s)"
    and r: "unat secno + unat n \<le> 0x10000000" "0 < n" "n \<le> 128" and b: "\<forall>i<unat n. unat secno + i \<notin> bad"
  shows "\<exists>s1 s'. ide_wait_ready dev IOBASE False s = Some (0, s1)
    \<and> read_sectors dev (unat n) out (ide_command IDE_CMD_READ secno n s1) = Some (0, out + of_nat (512 * unat n), s')
    \<and> ata_idle dev (io_log s') \<and> dsk (io_log s') = dsk (io_log s)
    \<and> ide_mem s' = write_words (ide_mem s) out (\<lambda>i. dsk (io_log s) (128 * unat secno + i)) (128 * unat n)"
proof -
  have n: "secno < 0x10000000" using r(1,2) by (simp add: word_less_nat_alt)
  let ?w = "cmd_regs secno n"
  obtain h s1 where h: "ide_wait_ready dev IOBASE False s = Some (0, s1)" "dsk h = dsk (io_log s)" "ide_mem s1 = ide_mem s"
    "io_log (ide_command 0x20 secno n s1) = issue h ?w 0x20" "under_way dev False (unat n) ?w 0x20 h 0 []"
    using command_start [OF dev(1,3) s n r(2,3), of False] by auto
  let ?s2 = "ide_command 0x20 secno n s1"
  obtain s' t' where s': "read_sectors dev (unat n + 0) out ?s2 = read_sectors dev 0 (out + of_nat (512 * unat n)) s'"
    "io_log s' = issue h ?w 0x20 @ t'" "under_way dev False (unat n) ?w 0x20 h (0 + unat n) t'"
    "ide_mem s' = write_words (ide_mem ?s2) out (\<lambda>i. dsk h (128 * (unat secno + 0) + i)) (128 * unat n)"
    using read_sectors_words [OF dev(1,2) cmd_addressed [OF n r(2,3)] r(1) h(5), of ?s2 "unat n" 0 out] h(4) b by auto
  have "dsk (io_log s') = dsk (io_log s)" using dsk_reads [OF dev(3) s'(3)] s'(2) h(2) by simp
  moreover have "ata_idle dev (io_log s')" using under_way_done [of dev False "unat n"] s'(2,3) by simp
  ultimately show ?thesis using h(1-3) s'(1,4) by (simp add: command_issue(2) IDE_CMD_READ_def)
qed

text \<open>The whole loop: every round of at most 128 sectors reads from the same block number.\<close>

lemma read_loop_words:
  assumes dev: "ata_working dev dsk"
  shows "ata_idle dev (io_log st) \<Longrightarrow> unat secno + unat nsecs \<le> 0x10000000 \<Longrightarrow> 0 < nsecs \<Longrightarrow>
    \<exists>s'. read_loop dev secno out nsecs st = Some (0, s') \<and> ata_idle dev (io_log s') \<and> dsk (io_log s') = dsk (io_log st)
    \<and> ide_mem s' = write_words (ide_mem st) out (\<lambda>i. dsk (io_log st) (128 * unat secno + i mod 16384)) (128 * unat nsecs)"
proof (induction "unat nsecs" arbitrary: nsecs out st rule: less_induct)
  case less
  let ?n = "min nsecs 128" and ?f = "\<lambda>i. dsk (io_log st) (128 * unat secno + i mod 16384)"
  have d: "ata_answers dev" "ata_reads dev dsk {}" "ata_keeps dsk" using dev by (simp_all add: ata_working_def)
  have n: "?n \<le> 128" "0 < ?n" "unat ?n \<le> unat nsecs" using less.prems(3) by (simp_all add: min_def word_le_nat_alt)
  then have r: "unat secno + unat ?n \<le> 0x10000000" using less.prems(2) by simp
  obtain s0 s1 where s1: "ide_wait_ready dev IOBASE False st = Some (0, s0)"
    "read_sectors dev (unat ?n) out (ide_command IDE_CMD_READ secno ?n s0) = Some (0, out + of_nat (512 * unat ?n), s1)"
    "ata_idle dev (io_log s1)" "dsk (io_log s1) = dsk (io_log st)"
    "ide_mem s1 = write_words (ide_mem st) out (\<lambda>i. dsk (io_log st) (128 * unat secno + i)) (128 * unat ?n)"
    using read_round [OF d less.prems(1) r n(2,1), of out] by auto
  have "unat ?n \<le> 128" using n by (simp add: word_le_nat_alt)
  then have m: "ide_mem s1 = write_words (ide_mem st) out ?f (128 * unat ?n)"
    unfolding s1(5) by (intro write_words_cong) auto
  have step: "read_loop dev secno out nsecs st =
      (if nsecs - ?n \<noteq> 0 then read_loop dev secno (out + of_nat (512 * unat ?n)) (nsecs - ?n) s1 else Some (0, s1))"
    using s1(1,2) by (subst read_loop.simps) (simp add: kMaxSectors_def Let_def)
  show ?case
  proof (cases "nsecs - ?n = 0")
    case True
    then show ?thesis using step m s1(3,4) by simp
  next
    case False
    then have big: "?n = 128" "128 < nsecs" by (auto simp: min_def split: if_splits)
    then have u: "unat (nsecs - 128) = unat nsecs - 128" and lt: "128 < unat nsecs"
      by (simp_all add: word_less_nat_alt unat_sub word_le_nat_alt)
    have z: "0 < nsecs - 128" using u lt by (simp add: word_less_nat_alt)
    have "unat secno + (unat nsecs - 128) \<le> 0x10000000" using less.prems(2) lt by linarith
    then obtain s2 where s2: "read_loop dev secno (out + of_nat 65536) (nsecs - 128) s1 = Some (0, s2)"
      "ata_idle dev (io_log s2)" "dsk (io_log s2) = dsk (io_log st)"
      "ide_mem s2 = write_words (ide_mem s1) (out + of_nat 65536) ?f (128 * (unat nsecs - 128))"
      using less.hyps [of "nsecs - 128" s1 "out + of_nat 65536"] u lt z s1(3,4) by auto
    moreover have "write_words (write_words (ide_mem st) out ?f 16384) (out + of_nat 65536) ?f k =
        write_words (ide_mem st) out ?f (16384 + k)" for k
      using write_words_add [of "ide_mem st" out ?f 16384 k] by simp
    ultimately have "ide_mem s2 = write_words (ide_mem st) out ?f (16384 + 128 * (unat nsecs - 128))"
      using m big by simp
    moreover have "16384 + 128 * (unat nsecs - 128) = 128 * unat nsecs" using lt by simp
    ultimately show ?thesis using step False big s2(1-3) by (intro exI [of _ s2]) simp
  qed
qed

lemma write_words_read:
  assumes "unat a + 4 * n \<le> 2 ^ 32"
  shows "i < n \<Longrightarrow> read32 (write_words m a f n) (a + of_nat (4 * i)) = f i"
    and "y < unat a \<or> unat a + 4 * n \<le> y \<Longrightarrow> y < 2 ^ 32 \<Longrightarrow> write_words m a f n (of_nat y) = m (of_nat y)"
  using assms
proof (induction n)
  case (Suc n)
  have a: "a + of_nat (4 * j) = of_nat (unat a + 4 * j)" for j by simp
  {
    case 1
    then show ?case
    proof (cases "i = n")
      case False
      then have "read32 (write32 (write_words m a f n) (of_nat (unat a + 4 * n)) (f n)) (of_nat (unat a + 4 * i))
          = read32 (write_words m a f n) (of_nat (unat a + 4 * i))"
        using 1 by (intro read32_write32_other) auto
      then show ?thesis using Suc.IH(1) 1 False by (simp only: write_words_Suc a) simp
    qed (simp add: write_words_Suc)
  next
    case 2
    then have "write32 (write_words m a f n) (of_nat (unat a + 4 * n)) (f n) (of_nat y) = write_words m a f n (of_nat y)"
      by (intro write32_elsewhere) auto
    moreover have "write_words m a f n (of_nat y) = m (of_nat y)" by (rule Suc.IH(2)) (use 2 in auto)
    ultimately show ?case by (simp only: write_words_Suc a)
  }
qed simp_all

section \<open>Writing\<close>

lemma outsl_log:
  "outsl port addr n s =
     s\<lparr>io_log := io_log s @ map (\<lambda>i. Outsl port (read32 (ide_mem s) (addr + of_nat (4 * i)))) [0..<n]\<rparr>"
proof (induction n arbitrary: addr s)
  case (Suc n)
  have "map (\<lambda>i. Outsl port (read32 (ide_mem s) (addr + of_nat (4 * i)))) [0..<Suc n] =
      Outsl port (read32 (ide_mem s) addr) #
      map (\<lambda>i. Outsl port (read32 (ide_mem s) (addr + 4 + of_nat (4 * i)))) [0..<n]"
    by (subst upt_conv_Cons) (simp_all add: algebra_simps flip: map_Suc_upt del: upt_Suc)
  with Suc show ?case by (simp del: upt_Suc)
qed simp

lemma sent_words_map: "sent_words (map (\<lambda>i. Outsl p (f i)) xs) = map f xs"
  by (induction xs) auto

lemma map_upt_add: "map f [0..<n] @ map (\<lambda>i. f (n + i)) [0..<k] = map f [0..<n + k]"
  by (induction k) auto

lemma sent_words_polls [simp]: "sent_words (polls k) = []"
  by (induction k) (simp_all add: polls_Suc, simp add: polls_def)

lemma data_block_out: "length ws = 128 \<Longrightarrow> data_block True (map (Outsl 0x1F0) ws)"
  by (auto simp: data_block_def list_all_iff)

lemma write_sector:
  assumes dev: "ata_answers dev" "ata_writes dev dsk" and a: "addressed w n a" "a + n \<le> 0x10000000"
    and t: "under_way dev True n w 0x30 h m t" "io_log s = issue h w 0x30 @ t" "m < n"
  shows "\<exists>t'. write_sectors dev (Suc j) src s = write_sectors dev j (src + 512) (s\<lparr>io_log := issue h w 0x30 @ t'\<rparr>)
    \<and> under_way dev True n w 0x30 h (Suc m) t'
    \<and> sent_words t' = sent_words t @ map (\<lambda>i. read32 (ide_mem s) (src + of_nat (4 * i))) [0..<128]"
proof -
  obtain k where k: "\<not> busy dev (issue h w 0x30 @ t @ polls k)"
    "ide_wait_ready dev IOBASE True s = Some (if failed dev (issue h w 0x30 @ t @ polls k) then - 1 else 0,
       s\<lparr>io_log := issue h w 0x30 @ t @ polls k @ [Inb 0x1F7]\<rparr>)"
    using wait_under_way [OF dev(1) t(1,2), of True] by auto
  let ?t = "t @ polls k" and ?ws = "map (\<lambda>i. read32 (ide_mem s) (src + of_nat (4 * i))) [0..<128]"
  let ?t' = "?t @ Inb 0x1F7 # map (Outsl 0x1F0) ?ws"
  have u: "under_way dev True n w 0x30 h m ?t" by (rule under_way_polls [OF t(1)])
  then have "\<not> failed dev (issue h w 0x30 @ ?t)"
    using dev(2) [unfolded ata_writes_def, rule_format, of n w h m ?t a] a t(3) k(1) by simp
  then have "write_sectors dev (Suc j) src s = write_sectors dev j (src + 512) (s\<lparr>io_log := issue h w 0x30 @ ?t'\<rparr>)"
    using k(2) by (simp add: ide_consts outsl_log comp_def del: upt_rec_numeral)
  moreover have "under_way dev True n w 0x30 h (Suc m) ?t'" using k(1) by (intro under_way_moved [OF u t(3)] data_block_out) simp_all
  moreover have "sent_words (map (Outsl 0x1F0) ws) = ws" for ws by (induction ws) simp_all
  ultimately show ?thesis by (intro exI [of _ ?t']) (simp del: upt_rec_numeral map_map)
qed

lemma write_sectors_words:
  assumes dev: "ata_answers dev" "ata_writes dev dsk" and a: "addressed w n a" "a + n \<le> 0x10000000"
  shows "under_way dev True n w 0x30 h m t \<Longrightarrow> io_log s = issue h w 0x30 @ t \<Longrightarrow> m + q \<le> n \<Longrightarrow>
    \<exists>t'. write_sectors dev q src s = Some (0, src + of_nat (512 * q), s\<lparr>io_log := issue h w 0x30 @ t'\<rparr>)
    \<and> under_way dev True n w 0x30 h (m + q) t'
    \<and> sent_words t' = sent_words t @ map (\<lambda>i. read32 (ide_mem s) (src + of_nat (4 * i))) [0..<128 * q]"
proof (induction q arbitrary: m t s src)
  case 0
  then show ?case by (intro exI [of _ t]) (cases s, simp)
next
  case (Suc q)
  let ?w = "\<lambda>i. read32 (ide_mem s) (src + of_nat (4 * i))"
  have "m < n" using Suc.prems(3) by simp
  then obtain t1 where t1: "write_sectors dev (Suc q) src s = write_sectors dev q (src + 512) (s\<lparr>io_log := issue h w 0x30 @ t1\<rparr>)"
    "under_way dev True n w 0x30 h (Suc m) t1" "sent_words t1 = sent_words t @ map ?w [0..<128]"
    using write_sector [OF dev a Suc.prems(1,2), of q src] by blast
  have "Suc m + q \<le> n" using Suc.prems(3) by simp
  from Suc.IH [OF t1(2) _ this, of "s\<lparr>io_log := issue h w 0x30 @ t1\<rparr>" "src + 512"] obtain t' where
    t': "write_sectors dev q (src + 512) (s\<lparr>io_log := issue h w 0x30 @ t1\<rparr>) = Some (0, src + 512 + of_nat (512 * q), s\<lparr>io_log := issue h w 0x30 @ t'\<rparr>)"
    "under_way dev True n w 0x30 h (Suc m + q) t'"
    "sent_words t' = sent_words t1 @ map (\<lambda>i. read32 (ide_mem s) (src + 512 + of_nat (4 * i))) [0..<128 * q]" by auto
  have "(\<lambda>i. read32 (ide_mem s) (src + 512 + of_nat (4 * i))) = (\<lambda>i. ?w (128 + i))" by (simp add: fun_eq_iff algebra_simps)
  then have "sent_words t' = sent_words t @ map ?w [0..<128 * Suc q]"
    using t'(3) t1(3) map_upt_add [of ?w 128 "128 * q"] by (simp del: upt_rec_numeral)
  then show ?case using t1(1) t'(1,2) by (intro exI [of _ t']) (simp add: algebra_simps del: write_sectors.simps)
qed

lemma secno_ok_range:
  assumes "unat secno + unat nsecs \<le> 0x10000000" and "0 < nsecs"
  shows "secno < 0x10000000" and "secno_ok secno nsecs"
  using assms by (auto simp: secno_ok_def MAX_DISK_NSECS_def word_less_nat_alt word_le_nat_alt unat_word_ariths)

text \<open>What the two transfers of up to 128 sectors do with a working controller: memory and disk.\<close>

lemma ide_read_transfer:
  assumes "ata_working dev dsk" and "ata_idle dev (io_log s)" and "ide_device_valid d" and "unat secno + unat nsecs \<le> 0x10000000"
    and "0 < nsecs" and "nsecs \<le> 128"
  shows "\<exists>s'. ide_read_secs dev d secno dst nsecs s = Some (Inr (0, s')) \<and> ata_idle dev (io_log s') \<and> dsk (io_log s') = dsk (io_log s)
    \<and> ide_mem s' = write_words (ide_mem s) dst (\<lambda>i. dsk (io_log s) (128 * unat secno + i)) (128 * unat nsecs)"
proof -
  have n: "unat nsecs \<le> 128" using assms(6) by (simp add: word_le_nat_alt)
  obtain s' where s': "read_loop dev secno dst nsecs s = Some (0, s')" "ata_idle dev (io_log s')" "dsk (io_log s') = dsk (io_log s)"
    "ide_mem s' = write_words (ide_mem s) dst (\<lambda>i. dsk (io_log s) (128 * unat secno + i mod 16384)) (128 * unat nsecs)"
    using read_loop_words [OF assms(1,2,4,5)] by blast
  moreover have "write_words (ide_mem s) dst (\<lambda>i. dsk (io_log s) (128 * unat secno + i mod 16384)) (128 * unat nsecs)
      = write_words (ide_mem s) dst (\<lambda>i. dsk (io_log s) (128 * unat secno + i)) (128 * unat nsecs)"
    using n by (intro write_words_cong) simp
  ultimately show ?thesis using secno_ok_range(2) [OF assms(4,5)] assms(3) by (simp add: ide_read_secs_def)
qed

lemma ide_write_transfer:
  assumes "ata_working dev dsk" and s: "ata_idle dev (io_log s)" and "ide_device_valid d" and r: "unat secno + unat nsecs \<le> 0x10000000"
    "0 < nsecs" "nsecs \<le> 128"
  shows "\<exists>s'. ide_write_secs dev d secno src nsecs s = Some (Inr (0, s')) \<and> ata_idle dev (io_log s') \<and> ide_mem s' = ide_mem s
    \<and> dsk (io_log s') = put_words (dsk (io_log s)) (128 * unat secno)
        (map (\<lambda>i. read32 (ide_mem s) (src + of_nat (4 * i))) [0..<128 * unat nsecs])"
proof -
  have dev: "ata_answers dev" "ata_keeps dsk" "ata_writes dev dsk" using assms(1) by (simp_all add: ata_working_def)
  note ok = secno_ok_range [OF r(1,2)]
  let ?w = "cmd_regs secno nsecs" and ?ws = "map (\<lambda>i. read32 (ide_mem s) (src + of_nat (4 * i))) [0..<128 * unat nsecs]"
  obtain h s1 where h: "ide_wait_ready dev IOBASE False s = Some (0, s1)" "dsk h = dsk (io_log s)" "ide_mem s1 = ide_mem s"
    "io_log (ide_command 0x30 secno nsecs s1) = issue h ?w 0x30" "under_way dev True (unat nsecs) ?w 0x30 h 0 []"
    using command_start [OF dev(1,2) s ok(1) r(2,3), of True] by auto
  let ?s2 = "ide_command 0x30 secno nsecs s1"
  note ad = cmd_addressed [OF ok(1) r(2,3)]
  obtain t where t: "write_sectors dev (unat nsecs) src ?s2 = Some (0, src + of_nat (512 * unat nsecs), ?s2\<lparr>io_log := issue h ?w 0x30 @ t\<rparr>)"
    "under_way dev True (unat nsecs) ?w 0x30 h (unat nsecs) t" "sent_words t = ?ws"
    using write_sectors_words [OF dev(1,3) ad r(1) h(5), of ?s2 "unat nsecs" src] h(3,4) by (auto simp: command_issue(2))
  have "dsk (issue h ?w 0x30 @ t) = put_words (dsk (io_log s)) (128 * unat secno) ?ws"
    using dev(3) [unfolded ata_writes_def, rule_format, of "unat nsecs" ?w h "unat nsecs" t "unat secno"] t(2,3) ad r(1) h(2) by simp
  moreover have "write_loop dev secno src nsecs s = Some (0, ?s2\<lparr>io_log := issue h ?w 0x30 @ t\<rparr>)"
    using h(1) t(1) r(3) by (subst write_loop.simps) (simp add: kMaxSectors_def IDE_CMD_WRITE_def Let_def min_absorb1)
  moreover have "ata_idle dev (issue h ?w 0x30 @ t)" by (rule under_way_done [OF t(2)])
  ultimately show ?thesis using ok(2) assms(3) h(3) by (simp add: ide_write_secs_def command_issue(2))
qed

section \<open>A controller\<close>

text \<open>A controller that keeps its registers, the number of words transferred since the last command, whether that was
  a write, and its disk. It is busy after each command and each sector until the status has been read once, delivers
  nothing while it is busy or when another device or another addressing mode is selected, and knows bad sectors: it shows that
  the laws above can be met.\<close>

record ata_state =
  ata_regs :: "u16 \<Rightarrow> u8"
  writing :: bool
  word_pos :: nat
  delay :: nat
  sim_disk :: "nat \<Rightarrow> u32"

definition ata_word :: "ata_state \<Rightarrow> nat" where
  "ata_word r = 128 * lba (ata_regs r 0x1F3) (ata_regs r 0x1F4) (ata_regs r 0x1F5) (ata_regs r 0x1F6) + word_pos r"

definition ata_advance :: "ata_state \<Rightarrow> ata_state" where
  "ata_advance r = r\<lparr>word_pos := Suc (word_pos r), delay := (if Suc (word_pos r) mod 128 = 0 then 1 else 0)\<rparr>"

fun ata_step :: "io_event \<Rightarrow> ata_state \<Rightarrow> ata_state" where
  "ata_step (Outb p v) r = (if p = 0x1F7 then r\<lparr>word_pos := 0, writing := (v = 0x30), delay := 1\<rparr> else r\<lparr>ata_regs := (ata_regs r)(p := v)\<rparr>)"
| "ata_step (Inb p) r = r\<lparr>delay := delay r - 1\<rparr>"
| "ata_step (Insl p) r = (if 0 < delay r then r else ata_advance r)"
| "ata_step (Outsl p w) r = (if 0 < delay r \<or> \<not> writing r then r else ata_advance (r\<lparr>sim_disk := (sim_disk r)(ata_word r := w)\<rparr>))"
| "ata_step Hlt r = r"

definition ata_run :: "(nat \<Rightarrow> u32) \<Rightarrow> io_event list \<Rightarrow> ata_state" where
  "ata_run f h = fold ata_step h \<lparr>ata_regs = (\<lambda>_. 0), writing = False, word_pos = 0, delay = 0, sim_disk = f\<rparr>"

definition ata_sim_bad :: "nat set \<Rightarrow> (nat \<Rightarrow> u32) \<Rightarrow> device" where
  "ata_sim_bad bad f h port = (let r = ata_run f h in
     if port = 0x1F7 then (if 0 < delay r then 0x80 else if \<not> writing r \<and> ata_word r div 128 \<in> bad then 0x41 else 0x48)
     else if 0 < delay r \<or> ata_regs r 0x1F6 AND 0x50 \<noteq> 0x40 then 0 else sim_disk r (ata_word r))"

definition ata_sim :: "(nat \<Rightarrow> u32) \<Rightarrow> device" where
  "ata_sim f = ata_sim_bad {} f"

definition ata_disk :: "(nat \<Rightarrow> u32) \<Rightarrow> disk" where
  "ata_disk f h = sim_disk (ata_run f h)"

lemma sim_status: "status (ata_sim_bad bad f) h = (if 0 < delay (ata_run f h) then 0x80
    else if \<not> writing (ata_run f h) \<and> ata_word (ata_run f h) div 128 \<in> bad then 0x41 else 0x48)"
  by (simp add: status_def ata_sim_bad_def Let_def)

lemma sim_busy: "busy (ata_sim_bad bad f) h \<longleftrightarrow> 0 < delay (ata_run f h)"
  and sim_failed: "failed (ata_sim_bad bad f) h \<longleftrightarrow> delay (ata_run f h) = 0 \<and> \<not> writing (ata_run f h) \<and> ata_word (ata_run f h) div 128 \<in> bad"
  by (simp_all add: busy_def failed_def sim_status ide_consts)

lemma ata_run_append: "ata_run f (h @ t) = fold ata_step t (ata_run f h)"
  by (simp add: ata_run_def)

lemma put_words_Nil [simp]: "put_words f a [] = f"
  by (auto simp: put_words_def fun_eq_iff)

lemma sim_polls: "delay (fold ata_step (polls k) r) = delay r - k"
  by (induction k arbitrary: r) (simp_all add: polls_Suc, simp add: polls_def)

lemma sim_regs:
  "list_all reg_write w \<Longrightarrow> fold ata_step (map out_event w) r = r\<lparr>ata_regs := (\<lambda>p. case map_of (rev w) p of Some v \<Rightarrow> v | None \<Rightarrow> ata_regs r p)\<rparr>"
proof (induction w arbitrary: r)
  case (Cons a w)
  obtain p v where a: "a = (p, v)" by (cases a)
  have "p \<noteq> 0x1F7" using Cons.prems by (auto simp: a)
  then show ?case using Cons by (auto simp: a map_add_def fun_eq_iff split: option.splits intro!: ata_state.equality)
qed simp

lemma sim_issue:
  assumes "list_all reg_write w"
  shows "ata_run f (issue h w cmd) = (ata_run f h)\<lparr>word_pos := 0, writing := (cmd = 0x30), delay := 1,
    ata_regs := (\<lambda>p. case map_of (rev w) p of Some v \<Rightarrow> v | None \<Rightarrow> ata_regs (ata_run f h) p)\<rparr>"
  by (rule ata_state.equality) (simp_all add: ata_run_append issue_def sim_regs [OF assms] cong: option.case_cong)

lemma sim_words_in:
  assumes "delay r = 0" and "word_pos r = 128 * n"
  shows "j \<le> 128 \<Longrightarrow> fold ata_step (replicate j (Insl 0x1F0)) r = r\<lparr>word_pos := 128 * n + j, delay := (if j = 128 then 1 else 0)\<rparr>"
proof (induction j)
  case (Suc j)
  have "Suc (128 * n + j) mod 128 = 0 \<longleftrightarrow> Suc j = 128" using Suc.prems by simp presburger
  then show ?case using Suc by (simp add: replicate_append_same [symmetric] ata_advance_def del: replicate.simps)
qed (use assms in \<open>simp add: ata_state.equality\<close>)

lemma put_words_snoc: "put_words f a (ws @ [w]) = (put_words f a ws)(a + length ws := w)"
  by (auto simp: put_words_def fun_eq_iff nth_append)

lemma sim_words_out:
  assumes "delay r = 0" and "word_pos r = 128 * n" and "writing r"
  shows "length ws \<le> 128 \<Longrightarrow> fold ata_step (map (Outsl 0x1F0) ws) r =
    r\<lparr>word_pos := 128 * n + length ws, delay := (if length ws = 128 then 1 else 0), sim_disk := put_words (sim_disk r) (ata_word r) ws\<rparr>"
proof (induction ws rule: rev_induct)
  case Nil
  then show ?case using assms by (simp add: ata_state.equality)
next
  case (snoc w ws)
  have "Suc (128 * n + length ws) mod 128 = 0 \<longleftrightarrow> Suc (length ws) = 128" using snoc.prems by simp presburger
  then show ?case using snoc assms
    by (intro ata_state.equality) (simp_all add: ata_advance_def put_words_snoc ata_word_def add.assoc fun_upd_def)
qed

lemma put_words_append: "put_words (put_words f a ws) (a + length ws) vs = put_words f a (ws @ vs)"
  by (auto simp: put_words_def fun_eq_iff nth_append)

lemma data_block_cases:
  assumes "data_block wr b"
  obtains "\<not> wr" "b = replicate 128 (Insl 0x1F0)" | ws where "wr" "b = map (Outsl 0x1F0) ws" "length ws = 128"
proof (cases wr)
  case True
  then have "\<forall>e\<in>set b. \<exists>x. e = Outsl 0x1F0 x" using assms by (simp add: data_block_def list_all_iff)
  then have "b = map (Outsl 0x1F0) (map (\<lambda>e. case e of Outsl p x \<Rightarrow> x) b)" by (induction b) auto
  moreover have "length (map (\<lambda>e. case e of Outsl p x \<Rightarrow> x) b) = 128" using assms by (simp add: data_block_def)
  ultimately show ?thesis by (rule that(2) [OF True])
next
  case False
  then have "b = replicate 128 (Insl 0x1F0)" using assms by (auto simp: data_block_def list_all_iff intro: replicate_eqI)
  with False show ?thesis by (rule that(1))
qed

lemma sent_words_harmless: "list_all harmless t \<Longrightarrow> sent_words t = []"
  by (induction t rule: sent_words.induct) auto

lemma sent_words_out [simp]: "sent_words (map (Outsl p) ws) = ws"
  by (induction ws) simp_all

lemma sim_transfer:
  assumes "word_pos (ata_run f base) = 0" and "writing (ata_run f base) = wr"
  shows "transfer (ata_sim_bad bad f) wr base n t \<Longrightarrow> ata_regs (ata_run f (base @ t)) = ata_regs (ata_run f base)
    \<and> writing (ata_run f (base @ t)) = wr \<and> word_pos (ata_run f (base @ t)) = 128 * n
    \<and> sim_disk (ata_run f (base @ t)) = put_words (sim_disk (ata_run f base)) (ata_word (ata_run f base)) (sent_words t)
    \<and> (wr \<longrightarrow> length (sent_words t) = 128 * n)"
proof (induction rule: transfer.induct)
  case begun
  then show ?case using assms by simp
next
  case (moved n t b)
  let ?r = "ata_run f (base @ t)"
  have d: "delay ?r = 0" using moved.hyps(2) by (simp add: sim_busy)
  have r: "ata_run f (base @ t @ Inb 0x1F7 # b) = fold ata_step b ?r" 
  proof -
    have "?r\<lparr>delay := delay ?r - 1\<rparr> = ?r" using d by (intro ata_state.equality) simp_all
    then show ?thesis using ata_run_append [of f "base @ t" "Inb 0x1F7 # b"] by (simp only: append_assoc fold_simps ata_step.simps)
  qed
  have wp: "word_pos ?r = 128 * n" using moved.IH by simp
  have ww: "ata_word ?r = ata_word (ata_run f base) + 128 * n" using moved.IH assms by (simp add: ata_word_def)
  from moved.hyps(3) show ?case
  proof (cases rule: data_block_cases)
    case 1
    have "sent_words (replicate j (Insl p)) = []" for j p by (induction j) simp_all
    then have "sent_words b = []" by (simp only: 1(2))
    moreover have "fold ata_step b ?r = ?r\<lparr>word_pos := 128 * n + 128, delay := 1\<rparr>" unfolding 1(2) by (subst sim_words_in [OF d wp]) simp_all
    ultimately show ?thesis using moved.IH 1(1) by (simp add: r)
  next
    case (2 ws)
    have "writing ?r" using moved.IH 2(1) by simp
    then have "fold ata_step b ?r = ?r\<lparr>word_pos := 128 * n + 128, delay := 1, sim_disk := put_words (sim_disk ?r) (ata_word ?r) ws\<rparr>"
      unfolding 2(2) using 2(3) by (subst sim_words_out [OF d wp]) simp_all
    moreover have "sent_words b = ws" by (simp add: 2(2))
    ultimately show ?thesis using moved.IH 2(1,3) ww
      put_words_append [of "sim_disk (ata_run f base)" "ata_word (ata_run f base)" "sent_words t" ws] by (simp add: r)
  qed
qed (simp_all add: ata_run_def)

lemma single_bit: "x AND 2 ^ n \<noteq> 0 \<Longrightarrow> x AND 2 ^ n = 2 ^ n" for x :: u8
  by (rule bit_eqI) (auto simp: and_exp_eq_0_iff_not_bit bit_simps)

lemma addressed_regs:
  assumes "addressed w n a" and "list_all reg_write w" and "ata_regs r = (\<lambda>p. case map_of (rev w) p of Some v \<Rightarrow> v | None \<Rightarrow> f p)"
  shows "ata_word r = 128 * a + word_pos r" and "ata_regs r 0x1F6 AND 0x50 = 0x40"
proof -
  obtain l3 where l3: "map_of (rev w) 0x1F6 = Some l3" "l3 AND 0x40 \<noteq> 0" using assms(1) by (auto simp: addressed_def)
  then have "(0x1F6, l3) \<in> set w" by (auto dest: map_of_SomeD)
  then have "l3 AND 0x10 = 0" using assms(2) by (auto simp: list_all_iff)
  moreover have "l3 AND 0x40 = 0x40" using l3(2) single_bit [of l3 6] by simp
  moreover have "l3 AND 0x50 = (l3 AND 0x40) OR (l3 AND 0x10)" by (simp flip: bit.conj_disj_distrib)
  ultimately show "ata_regs r 0x1F6 AND 0x50 = 0x40" using l3(1) by (simp add: assms(3))
  show "ata_word r = 128 * a + word_pos r" using assms(1,3) by (auto simp: addressed_def ata_word_def)
qed

lemma sim_under_way:
  assumes u: "under_way (ata_sim_bad bad f) wr n w cmd h m t" and "cmd \<noteq> 0xEC"
  defines "r \<equiv> ata_run f (issue h w cmd @ t)"
  shows "writing r = wr" and "word_pos r = 128 * m" and "addressed w n a \<Longrightarrow> ata_word r = 128 * (a + m) \<and> ata_regs r 0x1F6 AND 0x50 = 0x40"
    and "addressed w n a \<Longrightarrow> sim_disk r = put_words (ata_disk f h) (128 * a) (sent_words t)"
proof -
  let ?b = "ata_run f (issue h w cmd)"
  have w: "list_all reg_write w" and c: "(cmd = 0x30) = wr" using assms(1,2) by (auto simp: under_way_def command_def split: if_splits)
  note b = sim_issue [OF w, of f h cmd]
  have b0: "word_pos ?b = 0" "writing ?b = wr" "sim_disk ?b = ata_disk f h"
    and rg: "ata_regs ?b = (\<lambda>p. case map_of (rev w) p of Some v \<Rightarrow> v | None \<Rightarrow> ata_regs (ata_run f h) p)"
    using c by (simp_all add: b ata_disk_def)
  have t: "transfer (ata_sim_bad bad f) wr (issue h w cmd) m t" using u by (simp add: under_way_def)
  note st = sim_transfer [OF b0(1,2) t, folded r_def]
  show "writing r = wr" "word_pos r = 128 * m" using st by simp_all
  assume a: "addressed w n a"
  have "ata_regs r = (\<lambda>p. case map_of (rev w) p of Some v \<Rightarrow> v | None \<Rightarrow> ata_regs (ata_run f h) p)" using st rg by simp
  from addressed_regs [OF a w this] st show "ata_word r = 128 * (a + m) \<and> ata_regs r 0x1F6 AND 0x50 = 0x40" by simp
  show "sim_disk r = put_words (ata_disk f h) (128 * a) (sent_words t)" using st b0 addressed_regs(1) [OF a w rg] by simp
qed

lemma ata_sim_answers: "ata_answers (ata_sim_bad bad f)"
proof -
  have "\<not> busy (ata_sim_bad bad f) (h @ polls (delay (ata_run f h)))" for h by (simp add: sim_busy ata_run_append sim_polls)
  then show ?thesis unfolding ata_answers_def by (metis append_assoc)
qed

lemma ata_sim_reads: "ata_reads (ata_sim_bad bad f) (ata_disk f) bad"
  unfolding ata_reads_def
proof (intro allI impI, elim conjE)
  let ?dev = "ata_sim_bad bad f"
  fix n w a h m t
  assume u: "under_way ?dev False n w 0x20 h m t" and a: "addressed w n a" and b: "\<not> busy ?dev (issue h w 0x20 @ t)"
  let ?r = "ata_run f (issue h w 0x20 @ t)"
  note s = sim_under_way [OF u, simplified]
  have d: "delay ?r = 0" using b by (simp add: sim_busy)
  have "sent_words t = []" using u by (auto simp: under_way_def intro: sent_words_harmless harmless_transfer)
  then have disk: "sim_disk ?r = ata_disk f h" using s(4) [OF a] by simp
  have "?dev (issue h w 0x20 @ t @ Inb 0x1F7 # replicate j (Insl 0x1F0)) 0x1F0 = ata_disk f h (128 * (a + m) + j)" if j: "j < 128" for j
  proof -
    have "?r\<lparr>delay := delay ?r - 1\<rparr> = ?r" using d by (intro ata_state.equality) simp_all
    then have "ata_run f (issue h w 0x20 @ t @ Inb 0x1F7 # replicate j (Insl 0x1F0)) = ?r\<lparr>word_pos := 128 * m + j, delay := 0\<rparr>"
      using ata_run_append [of f "issue h w 0x20 @ t" "Inb 0x1F7 # replicate j (Insl 0x1F0)"] sim_words_in [OF d s(2), of j] j
      by (simp only: append_assoc fold_simps ata_step.simps) simp
    then show ?thesis using s(2) s(3) [OF a] disk by (simp add: ata_sim_bad_def ata_word_def add.assoc)
  qed
  moreover have "failed ?dev (issue h w 0x20 @ t) \<longleftrightarrow> a + m \<in> bad" using d s(1) s(3) [OF a] by (simp add: sim_failed)
  ultimately show "(failed ?dev (issue h w 0x20 @ t) \<longleftrightarrow> a + m \<in> bad) \<and> (a + m \<notin> bad \<longrightarrow>
      (\<forall>r<128. ?dev (issue h w 0x20 @ t @ Inb 0x1F7 # replicate r (Insl 0x1F0)) 0x1F0 = ata_disk f h (128 * (a + m) + r)))" by blast
qed

lemma ata_sim_keeps: "ata_keeps (ata_disk f)"
proof -
  have "sim_disk (ata_step e r) = sim_disk r" if "harmless e" for e r using that by (cases e) (auto simp: ata_advance_def)
  then show ?thesis by (simp add: ata_keeps_def ata_disk_def ata_run_append)
qed

lemma ata_sim_writes: "ata_writes (ata_sim_bad bad f) (ata_disk f)"
  unfolding ata_writes_def
proof (intro allI impI, elim conjE)
  fix n w a h m t
  assume u: "under_way (ata_sim_bad bad f) True n w 0x30 h m t" and a: "addressed w n a"
  note s = sim_under_way [OF u, simplified]
  show "(m < n \<and> \<not> busy (ata_sim_bad bad f) (issue h w 0x30 @ t) \<longrightarrow> \<not> failed (ata_sim_bad bad f) (issue h w 0x30 @ t))
      \<and> (m = n \<longrightarrow> ata_disk f (issue h w 0x30 @ t) = put_words (ata_disk f h) (128 * a) (sent_words t))"
    using s(1) s(4) [OF a] by (simp add: sim_failed ata_disk_def)
qed

lemma ata_sim_working: "ata_working (ata_sim f) (ata_disk f)"
  unfolding ata_working_def ata_sim_def using ata_sim_answers ata_sim_reads ata_sim_keeps ata_sim_writes by blast

definition example_ide :: ide_device where
  "example_ide = \<lparr>dev_valid = 1, dev_sets = 0, dev_size = 0x1000, dev_desc = (\<lambda>_. 0)\<rparr>"

definition example_io :: ide_io where
  "example_io = \<lparr>ide_mem = (\<lambda>_. 0), io_log = []\<rparr>"

lemma example_io_idle: "ata_idle dev (io_log example_io)"
  by (simp add: example_io_def ata_idle.power_on)

section \<open>Identification\<close>

text \<open>A drive that is present answers the identification command: its status is not 0, which is what an empty channel reads as,
  and shows no error once it is ready.\<close>

definition ata_present :: "device \<Rightarrow> bool" where
  "ata_present dev \<longleftrightarrow> (\<forall>w h t. under_way dev False 1 w 0xEC h 0 t \<longrightarrow> status dev (issue h w 0xEC @ t) \<noteq> 0
     \<and> (\<not> busy dev (issue h w 0xEC @ t) \<longrightarrow> \<not> failed dev (issue h w 0xEC @ t)))"

lemma ata_sim_present: "ata_present (ata_sim f)"
  by (simp add: ata_present_def ata_sim_def sim_status sim_failed)

text \<open>\<open>ide_init\<close> finds such a drive: it returns success, marks the device valid, leaves the disk alone and stores
  the identification in its buffer only.\<close>

lemma ide_init_ok:
  assumes dev: "ata_working dev dsk" "ata_present dev" and s: "ata_idle dev (io_log s)"
  shows "\<exists>d' s' f. ide_init dev buf d s = Some (0, d', s') \<and> ide_device_valid d' \<and> ata_idle dev (io_log s') \<and> dsk (io_log s') = dsk (io_log s)
    \<and> ide_mem s' = write_words (ide_mem s) buf f 128"
proof -
  have ans: "ata_answers dev" and keeps: "ata_keeps dsk" using dev(1) by (simp_all add: ata_working_def)
  obtain k1 where k1: "\<not> busy dev (io_log s @ polls k1)"
    "ide_wait_ready dev IOBASE False s = Some (0, s\<lparr>io_log := io_log s @ polls k1 @ [Inb 0x1F7]\<rparr>)" using wait_idle [OF ans s] by blast
  let ?s1 = "s\<lparr>io_log := io_log s @ polls k1 @ [Inb 0x1F7, Outb 0x1F6 0xE0]\<rparr>"
  have i1: "ata_idle dev (io_log ?s1)" using ata_idle.register [OF idle_polls [OF s] k1(1), of "(0x1F6, 0xE0)"] by simp
  obtain k2 where k2: "\<not> busy dev (io_log ?s1 @ polls k2)"
    "ide_wait_ready dev IOBASE False ?s1 = Some (0, ?s1\<lparr>io_log := io_log ?s1 @ polls k2 @ [Inb 0x1F7]\<rparr>)" using wait_idle [OF ans i1] by blast
  let ?h = "io_log ?s1 @ polls k2" and ?b = "issue (io_log ?s1 @ polls k2) [] 0xEC"
  have u: "under_way dev False 1 [] 0xEC ?h 0 []"
    using idle_polls [OF i1] k2(1) by (auto simp: under_way_def command_def intro: transfer.begun)
  have up: "under_way dev False 1 [] 0xEC ?h 0 (t @ [Inb 0x1F7])" if "under_way dev False 1 [] 0xEC ?h 0 t" for t
    using that by (auto simp: under_way_def intro: transfer.polled)
  let ?s2 = "s\<lparr>io_log := ?b\<rparr>"
  obtain k3 where k3: "\<not> busy dev (?b @ polls k3)" "ide_wait_ready dev IOBASE False ?s2 = Some (0, ?s2\<lparr>io_log := ?b @ polls k3 @ [Inb 0x1F7]\<rparr>)"
    using wait_under_way [OF ans u, of ?s2 False] by auto
  let ?t = "polls k3 @ [Inb 0x1F7]" and ?t' = "polls k3 @ [Inb 0x1F7, Inb 0x1F7]"
  have u3: "under_way dev False 1 [] 0xEC ?h 0 ?t" "under_way dev False 1 [] 0xEC ?h 0 ?t'"
    using up [OF under_way_polls [OF u, of k3]] up [OF up [OF under_way_polls [OF u, of k3]]] by simp_all
  let ?s3 = "s\<lparr>io_log := ?b @ ?t'\<rparr>"
  obtain k4 where k4: "\<not> busy dev (?b @ ?t' @ polls k4)"
    "ide_wait_ready dev IOBASE True ?s3 = Some (if failed dev (?b @ ?t' @ polls k4) then - 1 else 0, ?s3\<lparr>io_log := ?b @ ?t' @ polls k4 @ [Inb 0x1F7]\<rparr>)"
    using wait_under_way [OF ans u3(2), of ?s3 True] by auto
  have u4: "under_way dev False 1 [] 0xEC ?h 0 (?t' @ polls k4)" by (rule under_way_polls [OF u3(2)])
  have st: "status dev (?b @ ?t) \<noteq> 0" "\<not> failed dev (?b @ ?t' @ polls k4)"
    using dev(2) [unfolded ata_present_def, rule_format, OF u3(1)] dev(2) [unfolded ata_present_def, rule_format, OF u4] k4(1) by simp_all
  let ?s4 = "insl dev 0x1F0 buf 128 (s\<lparr>io_log := ?b @ ?t' @ polls k4 @ [Inb 0x1F7]\<rparr>)"
  let ?t4 = "(?t' @ polls k4) @ Inb 0x1F7 # replicate 128 (Insl 0x1F0)"
  have u5: "under_way dev False 1 [] 0xEC ?h 1 ?t4" using under_way_moved [OF u4 _ _ data_block_in] k4(1) by simp
  have log: "io_log ?s4 = ?b @ ?t4" by (simp add: insl_words)
  have "dsk (io_log ?s4) = dsk ?h" using dsk_reads [OF keeps u5] log by simp
  also have "\<dots> = dsk (io_log s)"
    using keeps_harmless [OF keeps, of "polls k1 @ [Inb 0x1F7, Outb 0x1F6 0xE0] @ polls k2" "io_log s"] harmless_polls by simp
  finally have dd: "dsk (io_log ?s4) = dsk (io_log s)" .
  have id: "ata_idle dev (io_log ?s4)" using under_way_done [OF u5] log by simp
  have e1: "outb (IOBASE + ISA_SDH) 0xE0 (s\<lparr>io_log := io_log s @ polls k1 @ [Inb 0x1F7]\<rparr>) = ?s1"
    "outb (IOBASE + ISA_COMMAND) IDE_CMD_IDENTIFY (?s1\<lparr>io_log := io_log ?s1 @ polls k2 @ [Inb 0x1F7]\<rparr>) = ?s2"
    by (simp_all add: outb_def ide_consts issue_def)
  have e2: "inb dev (IOBASE + ISA_STATUS) (?s2\<lparr>io_log := ?b @ polls k3 @ [Inb 0x1F7]\<rparr>) = (status dev (?b @ ?t), ?s3)"
    by (simp add: inb_def ide_consts status_def)
  have "\<exists>d'. ide_init dev buf d s = Some (0, d', ?s4) \<and> ide_device_valid d'"
    unfolding ide_init_def k1(2) Option.bind.simps prod.case e1 k2(2) k3(2) Let_def e2 k4(2)
    using st by (simp add: ide_device_valid_def ISA_DATA_def IOBASE_def)
  moreover have "\<exists>f. ide_mem ?s4 = write_words (ide_mem s) buf f 128" unfolding insl_words by auto
  ultimately show ?thesis using dd id by blast
qed

section \<open>Properties\<close>

text \<open>C24. Reading up to 128 sectors from a working drive returns success and copies them to
  memory: word \<open>i\<close> of the destination is word \<open>i\<close> of the disk from sector \<open>secno\<close> on, and no byte
  outside of the destination changes. The drive may be busy after the command and after every sector; it need deliver data
  only to a driver that waits for each sector, selects device 0 and addresses it in LBA mode. Afterwards the disk is as it was and
  no command is under way.\<close>

theorem ide_read_secs_reads:
  assumes "ata_working dev dsk" and "ata_idle dev (io_log s)" and "ide_device_valid d"
    and "unat secno + unat nsecs \<le> 0x10000000" and "0 < nsecs" and "nsecs \<le> 128"
    and "unat dst + 512 * unat nsecs \<le> 2 ^ 32"
  shows "\<exists>s'. ide_read_secs dev d secno dst nsecs s = Some (Inr (0, s'))
    \<and> (\<forall>i<128 * unat nsecs. read32 (ide_mem s') (dst + of_nat (4 * i)) = dsk (io_log s) (128 * unat secno + i))
    \<and> (\<forall>y<2 ^ 32. y < unat dst \<or> unat dst + 512 * unat nsecs \<le> y \<longrightarrow> ide_mem s' (of_nat y) = ide_mem s (of_nat y))
    \<and> dsk (io_log s') = dsk (io_log s) \<and> ata_idle dev (io_log s')"
proof -
  have "unat dst + 4 * (128 * unat nsecs) \<le> 2 ^ 32" using assms(7) by simp
  note w = write_words_read [OF this]
  then show ?thesis using ide_read_transfer [OF assms(1-6), of dst] by auto
qed

theorem ide_read_secs_reads_witness:
  "\<exists>s'. ide_read_secs (ata_sim of_nat) example_ide 3 0x2000 2 example_io = Some (Inr (0, s'))
    \<and> read32 (ide_mem s') 0x2000 = 384 \<and> read32 (ide_mem s') 0x2200 = 512 \<and> ide_mem s' 0x2400 = 0"
proof -
  obtain s' where s': "ide_read_secs (ata_sim of_nat) example_ide 3 0x2000 2 example_io = Some (Inr (0, s'))"
    "\<forall>i<128 * unat (2 :: u32). read32 (ide_mem s') (0x2000 + of_nat (4 * i)) =
       ata_disk of_nat (io_log example_io) (128 * unat (3 :: u32) + i)"
    "\<forall>y<2 ^ 32. y < unat (0x2000 :: u32) \<or> unat (0x2000 :: u32) + 512 * unat (2 :: u32) \<le> y \<longrightarrow>
       ide_mem s' (of_nat y) = ide_mem example_io (of_nat y)"
    using ide_read_secs_reads [OF ata_sim_working [of of_nat] example_io_idle, of example_ide 3 2 "0x2000"]
    by (auto simp: ide_device_valid_def example_ide_def)
  from s'(2) [rule_format, of 0] s'(2) [rule_format, of 128] s'(3) [rule_format, of "0x2400"] s'(1)
  show ?thesis by (simp add: example_io_def ata_disk_def ata_run_def)
qed

text \<open>C32. A sector that the drive cannot read is reported: when the drive shows an error for sector \<open>secno + q\<close>, and for none
  before it, \<open>ide_read_secs\<close> returns -1, and memory holds exactly the \<open>q\<close> sectors before it; no other byte has changed.\<close>

theorem ide_read_secs_reports_error:
  assumes "ata_answers dev" and "ata_reads dev dsk bad" and "ata_keeps dsk" and "ata_idle dev (io_log s)" and "ide_device_valid d"
    and "unat secno + unat nsecs \<le> 0x10000000" and "0 < nsecs" and "nsecs \<le> 128" and "unat dst + 512 * unat nsecs \<le> 2 ^ 32"
    and "q < unat nsecs" and "unat secno + q \<in> bad" and "\<forall>i<q. unat secno + i \<notin> bad"
  shows "\<exists>s'. ide_read_secs dev d secno dst nsecs s = Some (Inr (- 1, s'))
    \<and> (\<forall>i<128 * q. read32 (ide_mem s') (dst + of_nat (4 * i)) = dsk (io_log s) (128 * unat secno + i))
    \<and> (\<forall>y<2 ^ 32. y < unat dst \<or> unat dst + 512 * q \<le> y \<longrightarrow> ide_mem s' (of_nat y) = ide_mem s (of_nat y))"
proof -
  note ok = secno_ok_range [OF assms(6,7)]
  let ?w = "cmd_regs secno nsecs"
  obtain h s1 where h: "ide_wait_ready dev IOBASE False s = Some (0, s1)" "dsk h = dsk (io_log s)" "ide_mem s1 = ide_mem s"
    "io_log (ide_command 0x20 secno nsecs s1) = issue h ?w 0x20" "under_way dev False (unat nsecs) ?w 0x20 h 0 []"
    using command_start [OF assms(1,3,4) ok(1) assms(7,8), of False] by auto
  let ?s2 = "ide_command 0x20 secno nsecs s1"
  obtain j where j: "unat nsecs = q + Suc j" using assms(10) by (metis less_iff_Suc_add add_Suc_right)
  note ad = cmd_addressed [OF ok(1) assms(7,8)]
  obtain s2 t where s2: "read_sectors dev (q + Suc j) dst ?s2 = read_sectors dev (Suc j) (dst + of_nat (512 * q)) s2"
    "io_log s2 = issue h ?w 0x20 @ t" "under_way dev False (unat nsecs) ?w 0x20 h (0 + q) t"
    "ide_mem s2 = write_words (ide_mem ?s2) dst (\<lambda>i. dsk h (128 * (unat secno + 0) + i)) (128 * q)"
    using read_sectors_words [OF assms(1,2) ad assms(6) h(5), of ?s2 q "Suc j" dst] h(4) assms(10,12) by auto
  obtain s' where s': "read_sectors dev (Suc j) (dst + of_nat (512 * q)) s2 = Some (- 1, dst + of_nat (512 * q), s')" "ide_mem s' = ide_mem s2"
    using read_sector(1) [OF assms(1,2) ad assms(6) s2(3,2), of j "dst + of_nat (512 * q)"] assms(10,11) by auto
  have "read_loop dev secno dst nsecs s = Some (- 1, s')"
    using h(1) s2(1) s'(1) assms(8)
    by (subst read_loop.simps) (simp add: kMaxSectors_def IDE_CMD_READ_def Let_def min_absorb1 j del: read_sectors.simps)
  then have "ide_read_secs dev d secno dst nsecs s = Some (Inr (- 1, s'))" using ok(2) assms(5) by (simp add: ide_read_secs_def)
  moreover have "unat dst + 4 * (128 * q) \<le> 2 ^ 32" using assms(9,10) by linarith
  note w = write_words_read [OF this]
  ultimately show ?thesis using w s2(4) s'(2) h(2,3) by (auto simp: command_issue(2))
qed

theorem ide_read_secs_reports_error_witness:
  "\<exists>s'. ide_read_secs (ata_sim_bad {4} of_nat) example_ide 3 0x2000 2 example_io = Some (Inr (- 1, s'))
    \<and> read32 (ide_mem s') 0x21FC = 511 \<and> ide_mem s' 0x2200 = 0"
proof -
  obtain s' where s': "ide_read_secs (ata_sim_bad {4} of_nat) example_ide 3 0x2000 2 example_io = Some (Inr (- 1, s'))"
    "\<forall>i<128 * 1. read32 (ide_mem s') (0x2000 + of_nat (4 * i)) = ata_disk of_nat (io_log example_io) (128 * unat (3 :: u32) + i)"
    "\<forall>y<2 ^ 32. y < unat (0x2000 :: u32) \<or> unat (0x2000 :: u32) + 512 * 1 \<le> y \<longrightarrow> ide_mem s' (of_nat y) = ide_mem example_io (of_nat y)"
    using ide_read_secs_reports_error [OF ata_sim_answers [of "{4}" of_nat] ata_sim_reads ata_sim_keeps example_io_idle, of example_ide 3 2 "0x2000" 1]
    by (auto simp: ide_device_valid_def example_ide_def)
  from s'(2) [rule_format, of 127] s'(3) [rule_format, of "0x2200"] s'(1)
  show ?thesis by (simp add: example_io_def ata_disk_def ata_run_def)
qed

text \<open>Reading more than 128 sectors does not work: the sector number is not advanced between the
  rounds of 128 sectors, so word \<open>i\<close> of the destination is word \<open>i mod 16384\<close> from the start.\<close>

lemma ide_read_secs_repeats:
  assumes "ata_working dev dsk" and "ata_idle dev (io_log s)" and "ide_device_valid d"
    and "unat secno + unat nsecs \<le> 0x10000000" and "128 < nsecs"
    and "unat dst + 512 * unat nsecs \<le> 2 ^ 32"
  shows "\<exists>s'. ide_read_secs dev d secno dst nsecs s = Some (Inr (0, s'))
    \<and> (\<forall>i<128 * unat nsecs. read32 (ide_mem s') (dst + of_nat (4 * i)) = dsk (io_log s) (128 * unat secno + i mod 16384))"
proof -
  have n: "0 < nsecs" using assms(5) by (simp add: word_less_nat_alt)
  have "unat dst + 4 * (128 * unat nsecs) \<le> 2 ^ 32" using assms(6) by simp
  note w = write_words_read(1) [OF this]
  then show ?thesis using read_loop_words [OF assms(1,2,4) n, of dst] secno_ok_range(2) [OF assms(4) n] assms(3)
    by (auto simp: ide_read_secs_def)
qed

lemma ide_read_secs_repeats_witness:
  "\<exists>s'. ide_read_secs (ata_sim of_nat) example_ide 3 0x2000 129 example_io = Some (Inr (0, s'))
    \<and> read32 (ide_mem s') 0x12000 = 384"
proof -
  obtain s' where s': "ide_read_secs (ata_sim of_nat) example_ide 3 0x2000 129 example_io = Some (Inr (0, s'))"
    "\<forall>i<128 * unat (129 :: u32). read32 (ide_mem s') (0x2000 + of_nat (4 * i)) =
       ata_disk of_nat (io_log example_io) (128 * unat (3 :: u32) + i mod 16384)"
    using ide_read_secs_repeats [OF ata_sim_working [of of_nat] example_io_idle, of example_ide 3 129 "0x2000"]
    by (auto simp: ide_device_valid_def example_ide_def)
  from s'(2) [rule_format, of 16384] s'(1) show ?thesis by (simp add: example_io_def ata_disk_def ata_run_def)
qed

text \<open>C25. What \<open>ide_write_secs\<close> wrote to up to 128 sectors of a working drive, which may be busy before each of them,
  \<open>ide_read_secs\<close> reads back: the words at the destination are those that were at the source, memory outside of the
  destination is untouched, and so is the rest of the disk.\<close>

theorem ide_write_read_roundtrip:
  assumes "ata_working dev dsk" and "ata_idle dev (io_log s)" and "ide_device_valid d"
    and "unat secno + unat nsecs \<le> 0x10000000" and "0 < nsecs" and "nsecs \<le> 128"
    and "unat dst + 512 * unat nsecs \<le> 2 ^ 32"
  shows "\<exists>s1 s2. ide_write_secs dev d secno src nsecs s = Some (Inr (0, s1))
    \<and> ide_read_secs dev d secno dst nsecs s1 = Some (Inr (0, s2))
    \<and> (\<forall>i<128 * unat nsecs. read32 (ide_mem s2) (dst + of_nat (4 * i)) = read32 (ide_mem s) (src + of_nat (4 * i)))
    \<and> (\<forall>y<2 ^ 32. y < unat dst \<or> unat dst + 512 * unat nsecs \<le> y \<longrightarrow> ide_mem s2 (of_nat y) = ide_mem s (of_nat y))
    \<and> (\<forall>j. j < 128 * unat secno \<or> 128 * (unat secno + unat nsecs) \<le> j \<longrightarrow> dsk (io_log s2) j = dsk (io_log s) j)"
proof -
  obtain s1 where s1: "ide_write_secs dev d secno src nsecs s = Some (Inr (0, s1))" "ide_mem s1 = ide_mem s"
    "dsk (io_log s1) = put_words (dsk (io_log s)) (128 * unat secno)
        (map (\<lambda>i. read32 (ide_mem s) (src + of_nat (4 * i))) [0..<128 * unat nsecs])" "ata_idle dev (io_log s1)"
    using ide_write_transfer [OF assms(1-6)] by blast
  obtain s2 where s2: "ide_read_secs dev d secno dst nsecs s1 = Some (Inr (0, s2))" "dsk (io_log s2) = dsk (io_log s1)"
    "ide_mem s2 = write_words (ide_mem s1) dst (\<lambda>i. dsk (io_log s1) (128 * unat secno + i)) (128 * unat nsecs)"
    using ide_read_transfer [OF assms(1) s1(4) assms(3-6)] by blast
  have "unat dst + 4 * (128 * unat nsecs) \<le> 2 ^ 32" using assms(7) by simp
  note w = write_words_read [OF this]
  have "read32 (ide_mem s2) (dst + of_nat (4 * i)) = read32 (ide_mem s) (src + of_nat (4 * i))" if "i < 128 * unat nsecs" for i
    using w(1) [OF that] that s2(3) s1(3) by (simp add: put_words_def)
  moreover have "ide_mem s2 (of_nat y) = ide_mem s (of_nat y)"
    if "y < 2 ^ 32" "y < unat dst \<or> unat dst + 512 * unat nsecs \<le> y" for y
    using w(2) [of y] that s2(3) s1(2) by simp
  moreover have "dsk (io_log s2) j = dsk (io_log s) j" if "j < 128 * unat secno \<or> 128 * (unat secno + unat nsecs) \<le> j" for j
    using that s2(2) s1(3) by (auto simp: put_words_def algebra_simps)
  ultimately show ?thesis using s1(1) s2(1) by blast
qed

theorem ide_write_read_roundtrip_witness:
  "\<exists>s1 s2. ide_write_secs (ata_sim of_nat) example_ide 3 0x2000 2 (example_io\<lparr>ide_mem := write32 (\<lambda>_. 0) 0x2200 77\<rparr>) = Some (Inr (0, s1))
    \<and> ide_read_secs (ata_sim of_nat) example_ide 3 0x4000 2 s1 = Some (Inr (0, s2)) \<and> read32 (ide_mem s2) 0x4200 = 77"
proof -
  let ?s = "example_io\<lparr>ide_mem := write32 (\<lambda>_. 0) 0x2200 77\<rparr>"
  obtain s1 s2 where s: "ide_write_secs (ata_sim of_nat) example_ide 3 0x2000 2 ?s = Some (Inr (0, s1))"
    "ide_read_secs (ata_sim of_nat) example_ide 3 0x4000 2 s1 = Some (Inr (0, s2))"
    "\<forall>i<128 * unat (2 :: u32). read32 (ide_mem s2) (0x4000 + of_nat (4 * i)) = read32 (ide_mem ?s) (0x2000 + of_nat (4 * i))"
    using ide_write_read_roundtrip [OF ata_sim_working [of of_nat], of ?s example_ide 3 2 "0x4000" "0x2000"] example_io_idle
    by (auto simp: ide_device_valid_def example_ide_def)
  from s(3) [rule_format, of 128] s(1,2) show ?thesis by simp
qed

lemma word_bytes:
  assumes "\<forall>i<n. read32 m (a + of_nat (4 * i)) = read32 m' (b + of_nat (4 * i))" and "j < 4 * n"
  shows "m (a + of_nat j) = m' (b + of_nat j)"
proof -
  define i where "i = j div 4"
  have i: "read32 m (a + of_nat (4 * i)) = read32 m' (b + of_nat (4 * i))" using assms by (simp add: i_def)
  have "j = 4 * i \<or> j = 4 * i + 1 \<or> j = 4 * i + 2 \<or> j = 4 * i + 3" unfolding i_def by presburger
  then show ?thesis using read32_eq_bytes [OF i] by (elim disjE) (simp_all add: algebra_simps)
qed

lemma fill_bytes:
  "n \<le> 2 ^ 32 \<Longrightarrow> j < n \<Longrightarrow> fold (\<lambda>i m. m(a + of_nat i := f i)) [0..<n] m (a + of_nat j) = f j" for a :: u32
proof (induction n)
  case (Suc n)
  then show ?case using of_nat_u32_eq_iff [of j n] by (cases "j = n") auto
qed simp

text \<open>The self test passes on every working controller.\<close>

lemma test_ide_passes:
  assumes "ata_working dev dsk" and "ata_idle dev (io_log s)" and "ide_device_valid d" and "unat buf + 512 \<le> 2 ^ 32"
  shows "\<exists>s'. test_ide dev d buf s = Some (Inr s')"
proof -
  let ?m = "fold (\<lambda>i m. m(buf + of_nat i := of_nat i)) [0..<512] (ide_mem s)"
  obtain s1 where s1: "ide_write_secs dev d 1 buf 1 (s\<lparr>ide_mem := ?m\<rparr>) = Some (Inr (0, s1))" "ide_mem s1 = ?m"
    "dsk (io_log s1) = put_words (dsk (io_log s)) 128 (map (\<lambda>i. read32 ?m (buf + of_nat (4 * i))) [0..<128])" "ata_idle dev (io_log s1)"
    using ide_write_transfer [OF assms(1) _ assms(3), of "s\<lparr>ide_mem := ?m\<rparr>" 1 1 buf] assms(2) by (auto simp del: upt_rec_numeral)
  let ?s1 = "s1\<lparr>ide_mem := bzero buf 512 (ide_mem s1)\<rparr>"
  obtain s2 where s2: "ide_read_secs dev d 1 buf 1 ?s1 = Some (Inr (0, s2))"
    "ide_mem s2 = write_words (ide_mem ?s1) buf (\<lambda>i. dsk (io_log s1) (128 + i)) 128"
    using ide_read_transfer [OF assms(1) _ assms(3), of ?s1 1 1 buf] s1(4) by auto
  have "unat buf + 4 * 128 \<le> 2 ^ 32" using assms(4) by simp
  note w = write_words_read(1) [OF this]
  have "read32 (ide_mem s2) (buf + of_nat (4 * i)) = read32 ?m (buf + of_nat (4 * i))" if "i < 128" for i
    using w [OF that] that s1(3) by (simp add: s2(2) put_words_def del: upt_rec_numeral)
  then have "ide_mem s2 (buf + of_nat j) = of_nat j" if "j < 512" for j
    using word_bytes [of 128 "ide_mem s2" buf ?m buf j] that fill_bytes [of 512 j buf of_nat "ide_mem s"] by simp
  then have "list_all (\<lambda>i. unat (ide_mem s2 (buf + of_nat i)) = i mod 256) [0..<512]"
    by (simp add: list_all_iff unat_of_nat del: upt_rec_numeral)
  then show ?thesis using s1(1) s2(1) by (simp add: test_ide_def Let_def del: upt_rec_numeral)
qed

end
