(* ===== verification/Sprite_Console.thy ===== *)
theory Sprite_Console
  imports Sprite_String
begin

text \<open>
  The text console of \<open>lib/console.cc\<close>: video memory as a function on cell numbers (row times 80
  plus column), the cursor as the two bytes the code keeps, and the writes to the ports of the
  video controller in order. A \<open>char\<close> is a signed byte.
\<close>

section \<open>State\<close>

datatype real_color = rc_black | rc_blue | rc_green | rc_cyan | rc_red | rc_magenta | rc_brown
  | rc_light_grey | rc_dark_grey | rc_light_blue | rc_light_green | rc_light_cyan | rc_light_red
  | rc_light_magenta | rc_light_brown | rc_white

fun color_code :: "real_color \<Rightarrow> u8" where
  "color_code rc_black = 0"
| "color_code rc_blue = 1"
| "color_code rc_green = 2"
| "color_code rc_cyan = 3"
| "color_code rc_red = 4"
| "color_code rc_magenta = 5"
| "color_code rc_brown = 6"
| "color_code rc_light_grey = 7"
| "color_code rc_dark_grey = 8"
| "color_code rc_light_blue = 9"
| "color_code rc_light_green = 10"
| "color_code rc_light_cyan = 11"
| "color_code rc_light_red = 12"
| "color_code rc_light_magenta = 13"
| "color_code rc_light_brown = 14"
| "color_code rc_white = 15"

record console =
  video_memory :: "nat \<Rightarrow> u16"
  cursor_x :: u8
  cursor_y :: u8
  video_ports :: "port_write list"

section \<open>Operations\<close>

definition move_cursor :: "console \<Rightarrow> console" where
  "move_cursor s =
     (let cursor_loc = (of_nat (unat (cursor_y s) * 80 + unat (cursor_x s)) :: u16) in
      s\<lparr>video_ports := video_ports s @ [(0x3D4, 14), (0x3D5, ucast (drop_bit 8 cursor_loc)),
          (0x3D4, 15), (0x3D5, ucast cursor_loc)]\<rparr>)"

definition make_color :: "real_color \<Rightarrow> real_color \<Rightarrow> u8" where
  "make_color bg fg = push_bit 4 (color_code bg) OR (0x0F AND color_code fg)"

definition make_char :: "u8 \<Rightarrow> u8 \<Rightarrow> u16" where
  "make_char ch color = push_bit 8 (ucast color) OR scast ch"

definition blank :: u16 where
  "blank = make_char 0x20 (make_color rc_black rc_white)"

definition console_clear :: "console \<Rightarrow> console" where
  "console_clear s = move_cursor
     (s\<lparr>video_memory := fold (\<lambda>i v. v(i := blank)) [0..<80 * 25] (video_memory s),
        cursor_x := 0, cursor_y := 0\<rparr>)"

definition scroll :: "console \<Rightarrow> console" where
  "scroll s =
     (if 25 \<le> cursor_y s
      then s\<lparr>video_memory :=
               fold (\<lambda>i v. v(i := blank)) [24 * 80..<25 * 80]
                 (fold (\<lambda>i v. v(i := v (i + 80))) [0 * 80..<24 * 80] (video_memory s)),
             cursor_y := 24\<rparr>
      else s)"

text \<open>The \<open>switch\<close> of \<open>console_putc\<close>; the guard \<open>c >= ' '\<close> compares signed bytes.\<close>

definition putc_switch :: "u8 \<Rightarrow> u16 \<Rightarrow> console \<Rightarrow> console" where
  "putc_switch c ch s =
     (if c = 8 then if cursor_x s \<noteq> 0 then s\<lparr>cursor_x := cursor_x s - 1\<rparr> else s
      else if c = 9 then s\<lparr>cursor_x := (cursor_x s + 8) AND NOT 7\<rparr>
      else if c = 13 then s\<lparr>cursor_x := 0\<rparr>
      else if c = 10 then s\<lparr>cursor_x := 0, cursor_y := cursor_y s + 1\<rparr>
      else if sint (0x20 :: u8) \<le> sint c
      then s\<lparr>video_memory := (video_memory s)(unat (cursor_y s) * 80 + unat (cursor_x s) := ch),
             cursor_x := cursor_x s + 1\<rparr>
      else s)"

definition wrap_line :: "console \<Rightarrow> console" where
  "wrap_line s = (if 80 \<le> cursor_x s then s\<lparr>cursor_x := 0, cursor_y := cursor_y s + 1\<rparr> else s)"

definition console_putc :: "real_color \<Rightarrow> real_color \<Rightarrow> u8 \<Rightarrow> console \<Rightarrow> console" where
  "console_putc bg fg c s =
     move_cursor (scroll (wrap_line (putc_switch c (make_char c (make_color bg fg)) s)))"

partial_function (option) console_write ::
    "real_color \<Rightarrow> real_color \<Rightarrow> mem \<Rightarrow> u32 \<Rightarrow> console \<Rightarrow> console option" where
  "console_write bg fg m str s =
     (if m str \<noteq> 0 then console_write bg fg m (str + 1) (console_putc bg fg (m str) s)
      else Some s)"

definition hex_char :: "u32 \<Rightarrow> u8" where
  "hex_char n = (if n < 10 then ucast (0x30 + n) else ucast (0x41 + n - 10))"

definition console_write_hex_single :: "real_color \<Rightarrow> real_color \<Rightarrow> u32 \<Rightarrow> console \<Rightarrow> console" where
  "console_write_hex_single bg fg n s = console_putc bg fg (hex_char n) s"

text \<open>The loop over the eight nibbles, from the highest shift down; the flag is \<open>started\<close>.\<close>

fun write_hex_loop :: "real_color \<Rightarrow> real_color \<Rightarrow> u32 \<Rightarrow> nat list \<Rightarrow> bool \<Rightarrow> console \<Rightarrow> bool \<times> console" where
  "write_hex_loop bg fg n [] started s = (started, s)"
| "write_hex_loop bg fg n (i # is) started s =
     (let slice = (ucast (drop_bit i (n AND push_bit i 0xF)) :: u8) in
      if \<not> started \<and> slice \<noteq> 0
      then write_hex_loop bg fg n is True (console_write_hex_single bg fg (ucast slice) s)
      else if started
      then write_hex_loop bg fg n is started (console_write_hex_single bg fg (ucast slice) s)
      else write_hex_loop bg fg n is started s)"

definition console_write_hex :: "real_color \<Rightarrow> real_color \<Rightarrow> u32 \<Rightarrow> console \<Rightarrow> console" where
  "console_write_hex bg fg n s =
     (let (started, s') = write_hex_loop bg fg n [28, 24, 20, 16, 12, 8, 4, 0] False s in
      if \<not> started then console_write_hex_single bg fg 0 s' else s')"

function console_write_dec :: "real_color \<Rightarrow> real_color \<Rightarrow> u32 \<Rightarrow> console \<Rightarrow> console" where
  "console_write_dec bg fg n s =
     (if n < 10 then console_putc bg fg (ucast (0x30 + n)) s
      else console_putc bg fg (ucast (0x30 + n mod 10)) (console_write_dec bg fg (n div 10) s))"
  by pat_completeness auto
termination
  by (relation "measure (\<lambda>(bg, fg, n, s). unat n)") (auto simp: unat_div word_less_nat_alt)

declare console_write_dec.simps [simp del]

section \<open>The screen\<close>

definition console_invar :: "console \<Rightarrow> bool" where
  "console_invar s \<longleftrightarrow> cursor_x s < 80 \<and> cursor_y s < 25"

lemma fold_fill: "fold (\<lambda>i v. v(i := b)) [a..<c] v = (\<lambda>i. if a \<le> i \<and> i < c then b else v i)"
  by (induction c) (auto simp: fun_eq_iff)

lemma fold_shift: "fold (\<lambda>i v. v(i := v (i + k))) [0..<c] v = (\<lambda>i. if i < c then v (i + k) else v i)"
  if "0 < k"
  using that by (induction c) (auto simp: fun_eq_iff)

lemma scroll_memory:
  "video_memory (scroll s) = (if 25 \<le> cursor_y s
     then (\<lambda>i. if i < 1920 then video_memory s (i + 80) else if i < 2000 then blank else video_memory s i)
     else video_memory s)"
  by (simp add: scroll_def fold_fill fold_shift fun_eq_iff del: upt_rec_numeral)

lemma scroll_cursor [simp]:
  "cursor_x (scroll s) = cursor_x s" "cursor_y (scroll s) = (if 25 \<le> cursor_y s then 24 else cursor_y s)"
  by (simp_all add: scroll_def)

lemma move_cursor_frame [simp]:
  "video_memory (move_cursor s) = video_memory s" "cursor_x (move_cursor s) = cursor_x s"
  "cursor_y (move_cursor s) = cursor_y s"
  by (simp_all add: move_cursor_def Let_def)

lemma console_clear_screen:
  "console_invar (console_clear s)" "i < 2000 \<Longrightarrow> video_memory (console_clear s) i = blank"
  by (simp_all add: console_invar_def console_clear_def fold_fill del: upt_rec_numeral)

lemma putc_switch_row:
  "cursor_y (putc_switch c ch s) = cursor_y s
    \<or> cursor_y (putc_switch c ch s) = cursor_y s + 1 \<and> cursor_x (putc_switch c ch s) = 0"
  by (simp add: putc_switch_def)

lemma wrap_line_row:
  "cursor_x (wrap_line s) < 80"
  "cursor_y (wrap_line s) = cursor_y s \<or> cursor_y (wrap_line s) = cursor_y s + 1 \<and> cursor_x s \<noteq> 0"
  by (auto simp: wrap_line_def)

lemma console_putc_invar:
  assumes "console_invar s"
  shows "console_invar (console_putc bg fg c s)"
proof -
  let ?t = "putc_switch c (make_char c (make_color bg fg)) s"
  have "cursor_y (wrap_line ?t) = cursor_y s \<or> cursor_y (wrap_line ?t) = cursor_y s + 1"
    using putc_switch_row [of c _ s] wrap_line_row(2) [of ?t] by metis
  then show ?thesis unfolding console_putc_def console_invar_def
    using assms wrap_line_row(1) [of ?t] by (auto simp: console_invar_def not_le)
qed

section \<open>Output as a stream of characters\<close>

text \<open>Whatever prints character by character keeps what a single character keeps.\<close>

locale char_device =
  fixes putc :: "u8 \<Rightarrow> 'd \<Rightarrow> 'd" and invar :: "'d \<Rightarrow> bool"
  assumes putc_invar: "invar d \<Longrightarrow> invar (putc c d)"
begin

lemma puts_invar: "invar d \<Longrightarrow> invar (fold putc xs d)"
  by (induction xs arbitrary: d) (auto intro: putc_invar)

end

interpretation tty: char_device "console_putc bg fg" console_invar for bg fg
  by unfold_locales (rule console_putc_invar)

lemma console_write_cstr: "cstr m a xs \<Longrightarrow> console_write bg fg m a s = Some (fold (console_putc bg fg) xs s)"
  by (induction xs arbitrary: a s) (subst console_write.simps; simp)+

function dec_digits :: "u32 \<Rightarrow> u8 list" where
  "dec_digits n = (if n < 10 then [ucast (0x30 + n)] else dec_digits (n div 10) @ [ucast (0x30 + n mod 10)])"
  by pat_completeness auto
termination
  by (relation "measure unat") (auto simp: unat_div word_less_nat_alt)

declare dec_digits.simps [simp del]

lemma console_write_dec_digits: "console_write_dec bg fg n s = fold (console_putc bg fg) (dec_digits n) s"
proof (induction n rule: dec_digits.induct)
  case (1 n)
  then show ?case by (subst console_write_dec.simps, subst dec_digits.simps) simp
qed

definition num_value :: "nat \<Rightarrow> nat list \<Rightarrow> nat" where
  "num_value b ds = foldl (\<lambda>a d. b * a + d) 0 ds"

definition digit_value :: "u8 \<Rightarrow> nat" where
  "digit_value c = (if c < 0x41 then unat c - 0x30 else unat c - 0x41 + 10)"

lemma dec_char:
  assumes "n < 10"
  shows "unat (ucast (0x30 + n :: u32) :: u8) = 0x30 + unat n"
proof -
  have "unat n < 10" using assms by (simp add: word_less_nat_alt)
  then have "unat (0x30 + n) = 0x30 + unat n" by (simp add: unat_word_ariths)
  with \<open>unat n < 10\<close> show ?thesis by (simp add: unsigned_ucast_eq take_bit_eq_mod)
qed

lemma dec_digits_value: "num_value 10 (map digit_value (dec_digits n)) = unat n"
proof (induction n rule: dec_digits.induct)
  case (1 n)
  have d: "digit_value (ucast (0x30 + m)) = unat m" if "m < 10" for m :: u32
    using dec_char [OF that] that by (simp add: digit_value_def word_less_nat_alt)
  have m: "n mod 10 < 10" by (simp add: word_less_nat_alt unat_mod)
  show ?case
  proof (cases "n < 10")
    case True
    then show ?thesis by (subst dec_digits.simps) (simp add: num_value_def d)
  next
    case False
    then show ?thesis using 1 by (subst dec_digits.simps)
        (simp add: num_value_def d m unat_div unat_mod)
  qed
qed

definition nibble :: "u32 \<Rightarrow> nat \<Rightarrow> u8" where
  "nibble n i = ucast (drop_bit i (n AND push_bit i 0xF))"

lemma nibble_value: "unat (nibble n i) = unat n div 2 ^ i mod 16"
proof -
  have m: "(0xF :: u32) = mask 4" by (simp add: mask_eq_exp_minus_1)
  have "drop_bit i (n AND push_bit i 0xF) = take_bit 4 (drop_bit i n)"
    unfolding m by (rule bit_eqI) (auto simp: bit_simps dest: bit_imp_le_length)
  then have "unat (drop_bit i (n AND push_bit i 0xF)) = take_bit 4 (drop_bit i (take_bit 32 (unat n)))"
    by (simp only: unsigned_take_bit_eq unsigned_drop_bit_eq) simp
  then have "unat (drop_bit i (n AND push_bit i 0xF)) = unat n div 2 ^ i mod 16"
    using unat_u32_lt [of n] by (simp only: take_bit_eq_mod drop_bit_eq_div) simp
  then show ?thesis by (simp add: nibble_def unsigned_ucast_eq take_bit_eq_mod)
qed

lemma num_value_places:
  "foldl (\<lambda>a d. b * a + d) a (map (\<lambda>k. m div b ^ k mod b) (rev [0..<k])) = a * b ^ k + m mod b ^ k"
  for a b m :: nat
proof (induction k arbitrary: a)
  case (Suc k)
  have "m mod (b ^ k * b) = b ^ k * (m div b ^ k mod b) + m mod b ^ k" by (rule mod_mult2_eq)
  with Suc show ?case by (simp add: algebra_simps)
qed simp

definition nibbles :: "u32 \<Rightarrow> u8 list" where
  "nibbles n = map (nibble n) [28, 24, 20, 16, 12, 8, 4, 0]"

lemma nibbles_value: "num_value 16 (map unat (nibbles n)) = unat n"
proof -
  have "[28, 24, 20, 16, 12, 8, 4, 0] = map (\<lambda>k. 4 * k) (rev [0..<8 :: nat])" by (simp add: upt_rec)
  then have "num_value 16 (map unat (nibbles n)) = num_value 16 (map (\<lambda>k. unat n div 16 ^ k mod 16) (rev [0..<8]))"
    by (simp only: nibbles_def map_map) (simp add: nibble_value power_mult o_def del: upt_rec_numeral)
  also have "\<dots> = unat n mod 16 ^ 8"
    unfolding num_value_def by (subst num_value_places) simp
  also have "\<dots> = unat n" using unat_u32_lt [of n] by simp
  finally show ?thesis .
qed

lemma num_value_leading_zeros:
  "num_value b (dropWhile (\<lambda>d. d = 0) ds) = num_value b ds"
  unfolding num_value_def by (induction ds) auto

lemma write_hex_loop_digits:
  "write_hex_loop bg fg n is st s =
     (let ds = (if st then map (nibble n) is else dropWhile (\<lambda>d. d = 0) (map (nibble n) is)) in
      (st \<or> ds \<noteq> [], fold (console_putc bg fg) (map (\<lambda>d. hex_char (ucast d)) ds) s))"
  by (induction "is" arbitrary: st s)
    (auto simp: Let_def nibble_def console_write_hex_single_def)

definition hex_digits :: "u32 \<Rightarrow> u8 list" where
  "hex_digits n =
     (let ds = dropWhile (\<lambda>d. d = 0) (nibbles n) in
      map (\<lambda>d. hex_char (ucast d)) (if ds = [] then [0] else ds))"

lemma console_write_hex_digits: "console_write_hex bg fg n s = fold (console_putc bg fg) (hex_digits n) s"
  unfolding console_write_hex_def write_hex_loop_digits hex_digits_def nibbles_def [symmetric] Let_def
    console_write_hex_single_def
  by (simp del: dropWhile_eq_Nil_conv)

lemma hex_char_value:
  assumes "unat d < 16"
  shows "digit_value (hex_char (ucast (d :: u8))) = unat d"
proof -
  let ?n = "ucast d :: u32"
  have n: "unat ?n = unat d" using assms by (simp add: unsigned_ucast_eq take_bit_eq_mod)
  have "unat (0x37 + ?n) = 0x37 + unat d" using assms n by (simp add: unat_word_ariths)
  then have "unat (ucast (0x37 + ?n) :: u8) = 0x37 + unat d"
    using assms by (simp add: unsigned_ucast_eq take_bit_eq_mod)
  moreover have "0x41 + ?n - 10 = 0x37 + ?n" by simp
  moreover have "unat (ucast (0x30 + ?n) :: u8) = 0x30 + unat d" if "?n < 10"
    using dec_char [OF that] n by simp
  ultimately show ?thesis using n
    unfolding hex_char_def digit_value_def word_less_nat_alt by auto
qed

lemma nibbles_range: "d \<in> set (nibbles n) \<Longrightarrow> unat d < 16"
  unfolding nibbles_def set_map by (auto simp: nibble_value)

lemma hex_digits_value: "num_value 16 (map digit_value (hex_digits n)) = unat n"
proof -
  let ?ds = "dropWhile (\<lambda>d. d = 0) (nibbles n)"
  have "unat d < 16" if "d \<in> set ?ds" for d using set_dropWhileD [OF that] nibbles_range by blast
  then have 1: "map (\<lambda>d. digit_value (hex_char (ucast d))) ?ds = map unat ?ds"
    by (intro map_cong hex_char_value) auto
  have 2: "num_value 16 (map unat ?ds) = unat n"
    using num_value_leading_zeros [of 16 "map unat (nibbles n)"] nibbles_value [of n]
    by (simp add: dropWhile_map o_def unat_eq_zero)
  have "digit_value (hex_char 0) = 0" by (simp add: hex_char_def digit_value_def)
  then have "map digit_value (hex_digits n) = (if ?ds = [] then [0] else map unat ?ds)"
    unfolding hex_digits_def Let_def map_map o_def using 1 by (simp del: dropWhile_eq_Nil_conv)
  with 2 show ?thesis by (simp add: num_value_def del: dropWhile_eq_Nil_conv split: if_splits)
qed

lemma move_cursor_ports:
  assumes "console_invar s"
  shows "\<exists>hi lo. video_ports (move_cursor (s\<lparr>video_ports := ps\<rparr>)) = ps @ [(0x3D4, 14), (0x3D5, hi), (0x3D4, 15), (0x3D5, lo)]
    \<and> 256 * unat hi + unat lo = 80 * unat (cursor_y s) + unat (cursor_x s)"
proof -
  let ?n = "unat (cursor_y s) * 80 + unat (cursor_x s)"
  let ?loc = "of_nat ?n :: u16"
  have "?n < 2000" using assms by (simp add: console_invar_def word_less_nat_alt)
  then have loc: "unat ?loc = ?n" by (simp add: unat_of_nat del: of_nat_add of_nat_mult)
  have "unat (ucast (drop_bit 8 ?loc) :: u8) = ?n div 256"
    unfolding unsigned_ucast_eq unsigned_drop_bit_eq loc
    using \<open>?n < 2000\<close> by (simp add: take_bit_eq_mod drop_bit_eq_div)
  moreover have "unat (ucast ?loc :: u8) = ?n mod 256"
    unfolding unsigned_ucast_eq loc by (simp add: take_bit_eq_mod)
  ultimately have "256 * unat (ucast (drop_bit 8 ?loc) :: u8) + unat (ucast ?loc :: u8) = ?n" by simp
  then show ?thesis by (simp add: move_cursor_def Let_def mult.commute)
qed

section \<open>Properties\<close>

text \<open>C19. Every character leaves the cursor on the screen: from a cursor inside the 80 by 25 screen,
  \<open>console_putc\<close> ends with one inside, writes no cell behind the screen, and tells the video
  controller exactly the cell number of the new cursor.\<close>

theorem console_putc_on_screen:
  assumes "console_invar s"
  shows "console_invar (console_putc bg fg c s)
    \<and> (\<forall>i\<ge>2000. video_memory (console_putc bg fg c s) i = video_memory s i)
    \<and> (\<exists>hi lo. video_ports (console_putc bg fg c s) =
          video_ports s @ [(0x3D4, 14), (0x3D5, hi), (0x3D4, 15), (0x3D5, lo)]
        \<and> 256 * unat hi + unat lo =
          80 * unat (cursor_y (console_putc bg fg c s)) + unat (cursor_x (console_putc bg fg c s)))"
proof -
  let ?t = "putc_switch c (make_char c (make_color bg fg)) s" and ?s = "console_putc bg fg c s"
  note inv = console_putc_invar [OF assms, of bg fg c]
  have "unat (cursor_y s) * 80 + unat (cursor_x s) < 2000"
    using assms by (simp add: console_invar_def word_less_nat_alt)
  then have "video_memory ?s i = video_memory s i" if "2000 \<le> i" for i
    using that by (simp add: console_putc_def scroll_memory wrap_line_def putc_switch_def)
  moreover have "video_ports (wrap_line ?t) = video_ports s" "video_ports (scroll (wrap_line ?t)) = video_ports (wrap_line ?t)"
    by (simp_all add: wrap_line_def putc_switch_def scroll_def)
  then have "video_ports ?s = video_ports (move_cursor (?s\<lparr>video_ports := video_ports s\<rparr>))"
    by (simp add: console_putc_def move_cursor_def Let_def)
  ultimately show ?thesis using inv move_cursor_ports [OF inv, of "video_ports s"] by simp
qed

definition example_console :: console where
  "example_console = \<lparr>video_memory = (\<lambda>_. 0), cursor_x = 79, cursor_y = 24, video_ports = []\<rparr>"

theorem console_putc_on_screen_witness:
  "console_invar (console_putc rc_black rc_white 0x41 example_console)
    \<and> video_memory (console_putc rc_black rc_white 0x41 example_console) 2000 = 0"
proof -
  have "console_invar example_console" by (simp add: console_invar_def example_console_def)
  from console_putc_on_screen [OF this, of rc_black rc_white "0x41"] show ?thesis
    by (auto simp: example_console_def)
qed

text \<open>A printable character goes to the cell under the cursor and the cursor moves on; at the
  end of a line it moves to the next one, and at the end of the last line the screen scrolls up by
  one row, the last row is blank and the cursor is at its start.\<close>

lemma console_putc_printable:
  assumes "console_invar s" and "32 \<le> sint c"
    and s': "s' = console_putc bg fg c s" and x: "x = unat (cursor_x s)" and y: "y = unat (cursor_y s)"
  shows "if x < 79 \<or> y < 24
    then video_memory s' = (video_memory s)(80 * y + x := make_char c (make_color bg fg))
      \<and> (unat (cursor_y s'), unat (cursor_x s')) = (if x < 79 then (y, x + 1) else (y + 1, 0))
    else (\<forall>i<1920. video_memory s' i =
        (if i = 1919 then make_char c (make_color bg fg) else video_memory s (i + 80)))
      \<and> (\<forall>i\<in>{1920..<2000}. video_memory s' i = blank) \<and> (cursor_y s', cursor_x s') = (24, 0)"
proof -
  let ?ch = "make_char c (make_color bg fg)"
  have c: "c \<noteq> 8" "c \<noteq> 9" "c \<noteq> 13" "c \<noteq> 10" using assms(2) by auto
  have b: "x < 80" "y < 25" using assms(1) x y by (simp_all add: console_invar_def word_less_nat_alt)
  have step: "putc_switch c ?ch s = s\<lparr>video_memory := (video_memory s)(80 * y + x := ?ch), cursor_x := cursor_x s + 1\<rparr>"
    using c assms(2) x y by (simp add: putc_switch_def mult.commute)
  have x1: "80 \<le> cursor_x s + 1 \<longleftrightarrow> x = 79" "unat (cursor_x s + 1) = x + 1"
    and y1: "25 \<le> cursor_y s + 1 \<longleftrightarrow> y = 24" "unat (cursor_y s + 1) = y + 1" "\<not> 25 \<le> cursor_y s"
    using b x y by (auto simp: word_le_nat_alt unat_simps)
  show ?thesis
    using b x1 y1 unfolding s' console_putc_def step wrap_line_def
    by (auto simp: scroll_memory simp flip: x y)
qed

lemma console_putc_printable_witness:
  "cursor_y (console_putc rc_black rc_white 0x41 example_console) = 24
    \<and> cursor_x (console_putc rc_black rc_white 0x41 example_console) = 0
    \<and> video_memory (console_putc rc_black rc_white 0x41 example_console) 1919 = 0x0F41
    \<and> video_memory (console_putc rc_black rc_white 0x41 example_console) 1999 = 0x0F20"
proof -
  have inv: "console_invar example_console" by (simp add: console_invar_def example_console_def)
  have "32 \<le> sint (0x41 :: u8)" by simp
  from console_putc_printable [OF inv this refl refl refl, of rc_black rc_white] show ?thesis
    by (simp add: example_console_def make_char_def make_color_def blank_def)
qed

text \<open>Numbers print as their digits: what \<open>console_write_dec\<close> puts on the screen, read as a
  decimal numeral, is the number, and what \<open>console_write_hex\<close> puts there, read as a hexadecimal
  numeral, is the number.\<close>

lemma console_numbers_roundtrip:
  "\<exists>ds hs. (\<forall>s. console_write_dec bg fg n s = fold (console_putc bg fg) ds s)
    \<and> num_value 10 (map digit_value ds) = unat n
    \<and> (\<forall>s. console_write_hex bg fg n s = fold (console_putc bg fg) hs s)
    \<and> num_value 16 (map digit_value hs) = unat n"
  using console_write_dec_digits dec_digits_value console_write_hex_digits hex_digits_value by blast

end
