(* ===== verification/Sprite_Printk.thy ===== *)
theory Sprite_Printk
  imports Sprite_Console
begin

text \<open>
  The formatted output of \<open>include/printk.h\<close>. The overloads for a character, a string and a number
  are the cases of one argument type (the overload for \<open>int\<close> converts to \<open>uint32_t\<close>, the one for
  \<open>const uint8_t*\<close> to \<open>const char*\<close>); the variadic template is a recursion on the arguments. The
  format is read from memory, so a call need not return on a format without a terminator.
\<close>

section \<open>printk\<close>

datatype Format = kNone | kDec | kHex

datatype printk_arg = ArgChar u8 | ArgStr u32 | ArgNum u32

definition printk_arg :: "mem \<Rightarrow> printk_arg \<Rightarrow> Format \<Rightarrow> console \<Rightarrow> console option" where
  "printk_arg m a f s = (case a of
       ArgChar ch \<Rightarrow> Some (console_putc rc_black rc_white ch s)
     | ArgStr str \<Rightarrow> console_write rc_black rc_white m str s
     | ArgNum n \<Rightarrow> (case f of
           kDec \<Rightarrow> Some (console_write_dec rc_black rc_white n s)
         | kHex \<Rightarrow> Some (console_write_hex rc_black rc_white n s)
         | kNone \<Rightarrow> Some (console_write_dec rc_black rc_white n s)))"

text \<open>The loop \<open>while (format != pos) console_putc(*format++)\<close>.\<close>

partial_function (option) put_until :: "mem \<Rightarrow> u32 \<Rightarrow> u32 \<Rightarrow> console \<Rightarrow> console option" where
  "put_until m fmt pos s =
     (if fmt \<noteq> pos then put_until m (fmt + 1) pos (console_putc rc_black rc_white (m fmt) s) else Some s)"

fun printk :: "mem \<Rightarrow> u32 \<Rightarrow> printk_arg list \<Rightarrow> console \<Rightarrow> console option" where
  "printk m fmt [] s = console_write rc_black rc_white m fmt s"
| "printk m fmt (head # tail) s =
     Option.bind (strfind m fmt 0x25) (\<lambda>pos.
     Option.bind (put_until m fmt pos s) (\<lambda>s.
     if m pos \<noteq> 0 \<and> m (pos + 1) \<noteq> 0
     then Option.bind
            (if m (pos + 1) = 0x64 then printk_arg m head kDec s
             else if m (pos + 1) = 0x78 then printk_arg m head kHex s
             else if m (pos + 1) = 0x73 \<or> m (pos + 1) = 0x63 then printk_arg m head kNone s
             else Option.bind (printk_arg m (ArgChar 0x25) kNone s)
                    (printk_arg m (ArgChar (m (pos + 1))) kNone))
            (\<lambda>s. printk m (pos + 2) tail s)
     else Some s))"

section \<open>The cursor stays on the screen\<close>

lemma console_write_invar: "console_write bg fg m str s = Some s' \<Longrightarrow> console_invar s \<longrightarrow> console_invar s'"
  by (erule console_write.raw_induct [rotated]) (auto simp: console_putc_invar split: if_splits)

lemma put_until_invar: "put_until m fmt pos s = Some s' \<Longrightarrow> console_invar s \<longrightarrow> console_invar s'"
  by (erule put_until.raw_induct [rotated]) (auto simp: console_putc_invar split: if_splits)

lemma printk_arg_invar: "printk_arg m a f s = Some s' \<Longrightarrow> console_invar s \<longrightarrow> console_invar s'"
  by (auto simp: printk_arg_def console_write_dec_digits console_write_hex_digits console_putc_invar tty.puts_invar
      dest: console_write_invar split: printk_arg.splits Format.splits)

lemma printk_invar: "printk m fmt args s = Some s' \<Longrightarrow> console_invar s \<Longrightarrow> console_invar s'"
proof (induction args arbitrary: fmt s)
  case Nil
  then show ?case using console_write_invar by auto
next
  case (Cons a args)
  from Cons.prems(1) obtain pos s1 where pos: "strfind m fmt 0x25 = Some pos" "put_until m fmt pos s = Some s1"
    by (auto simp: bind_eq_Some_conv)
  have s1: "console_invar s1" using put_until_invar [OF pos(2)] Cons.prems(2) by simp
  from Cons.prems(1) pos s1 show ?case
    by (auto simp: bind_eq_Some_conv split: if_splits
        intro: s1 Cons.IH dest!: printk_arg_invar [THEN mp, OF _ s1] printk_arg_invar)
qed

section \<open>What is printed\<close>

definition arg_text :: "(u32 \<Rightarrow> u8 list) \<Rightarrow> printk_arg \<Rightarrow> Format \<Rightarrow> u8 list" where
  "arg_text str a f = (case a of ArgChar ch \<Rightarrow> [ch] | ArgStr p \<Rightarrow> str p
     | ArgNum n \<Rightarrow> (if f = kHex then hex_digits n else dec_digits n))"

definition directive_text :: "(u32 \<Rightarrow> u8 list) \<Rightarrow> u8 \<Rightarrow> printk_arg \<Rightarrow> u8 list" where
  "directive_text str c a =
     (if c = 0x64 then arg_text str a kDec else if c = 0x78 then arg_text str a kHex
      else if c = 0x73 \<or> c = 0x63 then arg_text str a kNone else [0x25, c])"

fun printk_text :: "(u32 \<Rightarrow> u8 list) \<Rightarrow> u8 list \<Rightarrow> printk_arg list \<Rightarrow> u8 list" where
  "printk_text str fmt [] = fmt"
| "printk_text str fmt (a # args) =
     takeWhile (\<lambda>c. c \<noteq> 0x25) fmt @
     (case dropWhile (\<lambda>c. c \<noteq> 0x25) fmt of
        p # c # rest \<Rightarrow> directive_text str c a @ printk_text str rest args
      | _ \<Rightarrow> [])"

definition arg_ok :: "mem \<Rightarrow> (u32 \<Rightarrow> u8 list) \<Rightarrow> printk_arg \<Rightarrow> bool" where
  "arg_ok m str a \<longleftrightarrow> (case a of ArgStr p \<Rightarrow> cstr m p (str p) | _ \<Rightarrow> True)"

abbreviation put_text :: "u8 list \<Rightarrow> console \<Rightarrow> console" where
  "put_text \<equiv> fold (console_putc rc_black rc_white)"

lemma printk_arg_text: "arg_ok m str a \<Longrightarrow> printk_arg m a f s = Some (put_text (arg_text str a f) s)"
  by (cases a; cases f)
    (simp_all add: printk_arg_def arg_text_def arg_ok_def console_write_cstr console_write_dec_digits
      console_write_hex_digits)

lemma cstr_append: "cstr m a (xs @ ys) \<Longrightarrow> cstr m (a + of_nat (length xs)) ys"
proof (induction xs arbitrary: a)
  case (Cons x xs)
  then show ?case using Cons.IH [of "a + 1"] by (auto simp: algebra_simps)
qed simp

lemma put_until_prefix:
  "cstr m a (xs @ ys) \<Longrightarrow> length xs < 2 ^ 32 \<Longrightarrow>
     put_until m a (a + of_nat (length xs)) s = Some (put_text xs s)"
proof (induction xs arbitrary: a s)
  case Nil
  then show ?case by (subst put_until.simps) simp
next
  case (Cons x xs)
  have "(of_nat (Suc (length xs)) :: u32) \<noteq> 0"
    using Cons.prems(2) of_nat_u32_eq_iff [of "Suc (length xs)" 0] by (simp del: of_nat_Suc)
  then have "a \<noteq> a + of_nat (Suc (length xs))" by (simp del: of_nat_Suc)
  moreover have "put_until m (a + 1) (a + of_nat (Suc (length xs))) s' = Some (put_text xs s')" for s'
    using Cons.IH [of "a + 1" s'] Cons.prems by (simp add: algebra_simps)
  ultimately show ?case using Cons.prems by (subst put_until.simps) (simp del: of_nat_Suc)
qed

lemma printk_prints:
  "cstr m fmt xs \<Longrightarrow> length xs < 2 ^ 32 \<Longrightarrow> list_all (arg_ok m str) args \<Longrightarrow>
     printk m fmt args s = Some (put_text (printk_text str xs args) s)"
proof (induction args arbitrary: fmt xs s)
  case Nil
  then show ?case by (simp add: console_write_cstr)
next
  case (Cons a args)
  let ?pre = "takeWhile (\<lambda>c. c \<noteq> 0x25) xs" and ?post = "dropWhile (\<lambda>c. c \<noteq> 0x25) xs"
  let ?pos = "fmt + of_nat (length ?pre)"
  have len: "length ?pre < 2 ^ 32" using length_takeWhile_le [of _ xs] Cons.prems(2) by (rule le_less_trans)
  have c: "cstr m fmt (?pre @ ?post)" using Cons.prems(1) by simp
  note post = cstr_append [OF c]
  have st: "strfind m fmt 0x25 = Some ?pos" "put_until m fmt ?pos s = Some (put_text ?pre s)"
    using strfind_cstr [OF Cons.prems(1)] put_until_prefix [OF c len] by auto
  consider "?post = []" | p where "?post = [p]" | p c rest where "?post = p # c # rest"
    by (metis list.exhaust)
  then show ?case
  proof cases
    case 1
    then have "m ?pos = 0" using post by (simp del: dropWhile_eq_Nil_conv)
    with st 1 show ?thesis by (simp del: dropWhile_eq_Nil_conv)
  next
    case 2
    then have "m (?pos + 1) = 0" using post by simp
    with st 2 show ?thesis by simp
  next
    case 3
    have "length ?post \<le> length xs" by (rule length_dropWhile_le)
    then have "length rest < 2 ^ 32" using Cons.prems(2) unfolding 3 by simp
    moreover have "cstr m (?pos + 2) rest" using post 3 by (simp add: add.assoc)
    ultimately have "printk m (?pos + 2) args s' = Some (put_text (printk_text str rest args) s')" for s'
      using Cons.IH [of "?pos + 2" rest] Cons.prems(3) by simp
    moreover have "m ?pos = p" "p \<noteq> 0" "m (?pos + 1) = c" "c \<noteq> 0" using post 3 by auto
    moreover have "printk_arg m a f s' = Some (put_text (arg_text str a f) s')" for f s'
      using Cons.prems(3) by (simp add: printk_arg_text)
    ultimately show ?thesis using st 3
      by (simp add: directive_text_def printk_arg_def)
  qed
qed

section \<open>Properties\<close>

text \<open>C20. \<open>printk\<close> on a terminated format returns, and it prints the format with each \<open>%d\<close>, \<open>%x\<close>,
  \<open>%s\<close> and \<open>%c\<close> replaced, in order, by the text of its argument; an unknown directive uses up an
  argument and is printed as it is, and with no argument left the rest is printed verbatim.\<close>

theorem printk_prints_text:
  assumes "cstr m fmt xs" and "length xs < 2 ^ 32" and "list_all (arg_ok m str) args"
  shows "printk m fmt args s = Some (put_text (printk_text str xs args) s)"
  using assms by (rule printk_prints)

definition example_format :: mem where
  "example_format = (\<lambda>_. 0)(0x100 := 0x61, 0x101 := 0x25, 0x102 := 0x64, 0x103 := 0x21)"

theorem printk_prints_text_witness:
  "printk example_format 0x100 [ArgNum 42] example_console = Some (put_text [0x61, 0x34, 0x32, 0x21] example_console)"
proof -
  have "cstr example_format 0x100 [0x61, 0x25, 0x64, 0x21]" by (simp add: example_format_def)
  from printk_prints_text [OF this, of "\<lambda>_. []" "[ArgNum 42]" example_console] show ?thesis
    by (simp add: arg_ok_def directive_text_def arg_text_def dec_digits.simps)
qed

end
