(* ===== verification/Sprite_Fs.thy ===== *)
theory Sprite_Fs
  imports Sprite_Lru Sprite_Ide Sprite_Printk "HOL-Library.Signed_Division"
begin

text \<open>
  The file system of \<open>lib/fs.cc\<close> and \<open>include/fs.h\<close> on top of the block cache and the disk driver. The
  state extends that of the cache by the history of port accesses, the driver's description of the
  device and the console; there is one memory, that of the heap, in which the cached blocks and the
  global variables lie. The addresses of the globals and of the string literals are fixed by the
  linker and are the record \<open>fs_image\<close>; the disk controller is the parameter \<open>dev\<close>. Structures are
  read from memory at the offsets of their (packed) fields.
\<close>

section \<open>Constants and layout\<close>

definition S_IFMT :: u16 where "S_IFMT = 0xF000"
definition S_IFREG :: u16 where "S_IFREG = 0x8000"
definition S_IFBLK :: u16 where "S_IFBLK = 0x6000"
definition S_IFDIR :: u16 where "S_IFDIR = 0x4000"
definition kSuperBlockBNO :: u32 where "kSuperBlockBNO = 1"
definition kRootINO :: u32 where "kRootINO = 1"
definition kNameLen :: u32 where "kNameLen = 30"
definition kBlockSectorFactor :: u32 where "kBlockSectorFactor = 2"
definition kBlockSize :: u32 where "kBlockSize = 1024"
definition kZoneBlockFactor :: u32 where "kZoneBlockFactor = 1"
definition kZoneSize :: u32 where "kZoneSize = kBlockSize * kZoneBlockFactor"

definition is_regular :: "u16 \<Rightarrow> bool" where
  "is_regular mode \<longleftrightarrow> mode AND S_IFMT = S_IFREG"

definition is_directory :: "u16 \<Rightarrow> bool" where
  "is_directory mode \<longleftrightarrow> mode AND S_IFMT = S_IFDIR"

definition block_to_sector :: "u32 \<Rightarrow> u32" where
  "block_to_sector bno = bno * kBlockSectorFactor"

definition sector_to_block :: "u32 \<Rightarrow> u32" where
  "sector_to_block sno = sno div kBlockSectorFactor"

definition zone_to_block :: "u32 \<Rightarrow> u32" where
  "zone_to_block zone_idx = zone_idx * kZoneBlockFactor"

definition block_to_zone :: "u32 \<Rightarrow> u32" where
  "block_to_zone block_idx = block_idx div kZoneBlockFactor"

definition block_addr :: "u16 \<Rightarrow> u32" where
  "block_addr block_idx = ucast block_idx * kBlockSize"

definition ceil_div :: "int \<Rightarrow> int \<Rightarrow> int" where
  "ceil_div x y = (x - 1) sdiv y + 1"

text \<open>The structures of the file system as lists of fields with their sizes in bytes. They are packed, apart
  from \<open>d_super_block\<close>, whose size is rounded up to the alignment of its widest field.\<close>

definition block_buffer :: layout where
  "block_buffer = [(''data'', unat kBlockSize), (''count'', 1), (''lock'', 1)]"

definition d_inode :: layout where
  "d_inode = [(''mode'', 2), (''uid'', 2), (''size'', 4), (''mtime'', 4), (''gid'', 1), (''num_links'', 1), (''zone'', 9 * 2)]"

definition m_inode :: layout where
  "m_inode = [(''mode'', 2), (''uid'', 2), (''size'', 4), (''mtime'', 4), (''gid'', 1), (''num_links'', 1), (''zone'', 9 * 2),
     (''wait'', 4), (''atime'', 4), (''ctime'', 4), (''dev'', 2), (''num'', 2), (''count'', 2), (''lock'', 1), (''dir'', 1),
     (''pipe'', 1), (''mount'', 1), (''seek'', 1), (''update'', 1)]"

definition super_block :: layout where
  "super_block = [(''num_inodes'', 2), (''num_zones'', 2), (''num_imap_blocks'', 2), (''num_zmap_blocks'', 2),
     (''first_data_zone'', 2), (''log_zone_size'', 2), (''max_size'', 4), (''magic'', 2), (''dev'', 2), (''isup'', 4),
     (''imount'', 4), (''time'', 4), (''wait'', 4), (''lock'', 1), (''rd_only'', 1), (''dirt'', 1)]"

definition d_super_block :: layout where
  "d_super_block = [(''num_inodes'', 2), (''num_zones'', 2), (''num_imap_blocks'', 2), (''num_zmap_blocks'', 2),
     (''first_data_zone'', 2), (''log_zone_size'', 2), (''max_size'', 4), (''magic'', 2)]"

definition dir_entry :: layout where
  "dir_entry = [(''inode'', 2), (''name'', unat kNameLen)]"

definition sizeof_block_buffer :: u32 where "sizeof_block_buffer = layout_size block_buffer"
definition sizeof_d_inode :: u32 where "sizeof_d_inode = layout_size d_inode"
definition sizeof_m_inode :: u32 where "sizeof_m_inode = layout_size m_inode"
definition sizeof_super_block :: u32 where "sizeof_super_block = layout_size super_block"
definition sizeof_d_super_block :: u32 where "sizeof_d_super_block = 4 * ((layout_size d_super_block + 3) div 4)"
definition sizeof_dir_entry :: u32 where "sizeof_dir_entry = layout_size dir_entry"

text \<open>Accesses to fields.\<close>

definition inode_mode :: "mem \<Rightarrow> u32 \<Rightarrow> u16" where
  "inode_mode m p = read16 m (p + field_offset m_inode ''mode'')"

definition inode_size :: "mem \<Rightarrow> u32 \<Rightarrow> u32" where
  "inode_size m p = read32 m (p + field_offset m_inode ''size'')"

definition inode_zone :: "mem \<Rightarrow> u32 \<Rightarrow> nat \<Rightarrow> u16" where
  "inode_zone m p i = read16 m (p + field_offset m_inode ''zone'' + of_nat (2 * i))"

definition sb_num_inodes :: "mem \<Rightarrow> u32 \<Rightarrow> u16" where
  "sb_num_inodes m p = read16 m (p + field_offset super_block ''num_inodes'')"

definition sb_num_zones :: "mem \<Rightarrow> u32 \<Rightarrow> u16" where
  "sb_num_zones m p = read16 m (p + field_offset super_block ''num_zones'')"

definition sb_num_imap_blocks :: "mem \<Rightarrow> u32 \<Rightarrow> u16" where
  "sb_num_imap_blocks m p = read16 m (p + field_offset super_block ''num_imap_blocks'')"

definition sb_num_zmap_blocks :: "mem \<Rightarrow> u32 \<Rightarrow> u16" where
  "sb_num_zmap_blocks m p = read16 m (p + field_offset super_block ''num_zmap_blocks'')"

definition entry_inode :: "mem \<Rightarrow> u32 \<Rightarrow> u16" where
  "entry_inode m p = read16 m (p + field_offset dir_entry ''inode'')"

definition entry_name :: "u32 \<Rightarrow> u32" where
  "entry_name p = p + field_offset dir_entry ''name''"

lemma layout_sizes:
  "sizeof_block_buffer = 1026" "sizeof_d_inode = 32" "sizeof_m_inode = 56" "sizeof_super_block = 39"
  "sizeof_d_super_block = 20" "sizeof_dir_entry = 32"
  by (simp_all add: sizeof_block_buffer_def sizeof_d_inode_def sizeof_m_inode_def sizeof_super_block_def sizeof_d_super_block_def
      sizeof_dir_entry_def layout_size_def block_buffer_def d_inode_def m_inode_def super_block_def d_super_block_def dir_entry_def
      kBlockSize_def kNameLen_def)

lemma field_accesses:
  "inode_mode m p = read16 m p" "inode_size m p = read32 m (p + 4)" "inode_zone m p i = read16 m (p + 14 + of_nat (2 * i))"
  "entry_inode m p = read16 m p" "entry_name p = p + 2"
  by (simp_all add: inode_mode_def inode_size_def inode_zone_def entry_inode_def entry_name_def m_inode_def dir_entry_def)

section \<open>State\<close>

record fs = lru +
  fs_log :: "io_event list"
  fs_dev :: ide_device
  fs_con :: console

record fs_image =
  g_super_block :: u32
  g_inode_table :: u32
  g_imap_data :: u32
  g_zmap_data :: u32
  uncache_addr :: u32
  literal :: "string \<Rightarrow> u32"

definition fs_mem :: "fs \<Rightarrow> mem" where
  "fs_mem s = il_mem (lru_heap s)"

definition set_mem :: "mem \<Rightarrow> fs \<Rightarrow> fs" where
  "set_mem m s = s\<lparr>lru_heap := (lru_heap s)\<lparr>il_mem := m\<rparr>\<rparr>"

text \<open>A call of the driver on the memory and the ports of the machine.\<close>

definition call_ide :: "(ide_io \<Rightarrow> (int \<times> ide_io) result option) \<Rightarrow> fs \<Rightarrow> (int \<times> fs) result option" where
  "call_ide f s = robind (f \<lparr>ide_mem = fs_mem s, io_log = fs_log s\<rparr>)
     (\<lambda>(r, io). Some (Inr (r, (set_mem (ide_mem io) s)\<lparr>fs_log := io_log io\<rparr>)))"

section \<open>Blocks\<close>

definition kCacheSize :: nat where
  "kCacheSize = 307"

definition write_block :: "device \<Rightarrow> u32 \<Rightarrow> fs \<Rightarrow> (bool \<times> fs) result option" where
  "write_block dev bno s =
     robind (Some (Get kCacheSize bno s)) (\<lambda>(buff, s).
     if buff \<noteq> 0
     then robind (call_ide (ide_write_secs dev (fs_dev s) (block_to_sector bno) buff (block_to_sector 1)) s)
            (\<lambda>(_, s). Some (Inr (True, s)))
     else Some (Inr (False, s)))"

text \<open>The callback of the cache, the only function whose address \<open>init_fs\<close> installs.\<close>

definition uncache :: "device \<Rightarrow> fs callback" where
  "uncache dev f bno buff s = robind (write_block dev bno s) (\<lambda>(_, s). Some (Inr s))"

definition get_block :: "device \<Rightarrow> u32 \<Rightarrow> fs \<Rightarrow> (u32 \<times> fs) result option" where
  "get_block dev bno s =
     robind (Some (Get kCacheSize bno s)) (\<lambda>(buff, s).
     if buff = 0 then Alloc (uncache dev) kCacheSize sizeof_block_buffer bno s
     else Some (Inr (buff, s)))"

definition read_block :: "device \<Rightarrow> u32 \<Rightarrow> fs \<Rightarrow> (u32 \<times> fs) result option" where
  "read_block dev bno s =
     robind (Some (Get kCacheSize bno s)) (\<lambda>(buff, s).
     if buff = 0
     then robind (Alloc (uncache dev) kCacheSize sizeof_block_buffer bno s) (\<lambda>(buff, s).
          robind (call_ide (ide_read_secs dev (fs_dev s) (block_to_sector bno) buff (block_to_sector 1)) s)
            (\<lambda>(_, s). Some (Inr (buff, s))))
     else Some (Inr (buff, s)))"

text \<open>The templates: \<open>isz\<close> and \<open>osz\<close> are the sizes of their type parameters \<open>Input\<close> and \<open>Output\<close>.\<close>

fun read_blocks_loop ::
    "device \<Rightarrow> u32 \<Rightarrow> u32 \<Rightarrow> u32 \<Rightarrow> nat \<Rightarrow> u32 \<Rightarrow> u32 \<Rightarrow> u32 \<Rightarrow> u32 \<Rightarrow> fs \<Rightarrow> (bool \<times> fs) result option" where
  "read_blocks_loop dev isz osz siz 0 bno block src dst s = Some (Inr (True, s))"
| "read_blocks_loop dev isz osz siz (Suc n) bno block src dst s =
     (let copy = (\<lambda>bno block src s. read_blocks_loop dev isz osz siz n bno block (src + isz) (dst + osz)
                    (set_mem (memcpy dst src siz (fs_mem s)) s))
      in if block + kBlockSize \<le> src
         then robind (read_block dev (bno + 1) s) (\<lambda>(src, s).
              if src = 0 then Some (Inr (False, s)) else copy (bno + 1) src src s)
         else copy bno block src s)"

definition read_blocks :: "device \<Rightarrow> u32 \<Rightarrow> u32 \<Rightarrow> u32 \<Rightarrow> u32 \<Rightarrow> u32 \<Rightarrow> u32 \<Rightarrow> fs \<Rightarrow> (bool \<times> fs) result option" where
  "read_blocks dev isz osz start_bno dst count siz s =
     robind (read_block dev start_bno s) (\<lambda>(block, s).
     read_blocks_loop dev isz osz siz (unat count) start_bno block block dst s)"

fun write_blocks_loop ::
    "device \<Rightarrow> u32 \<Rightarrow> u32 \<Rightarrow> u32 \<Rightarrow> nat \<Rightarrow> u32 \<Rightarrow> u32 \<Rightarrow> u32 \<Rightarrow> u32 \<Rightarrow> fs \<Rightarrow> (bool \<times> fs) result option" where
  "write_blocks_loop dev isz osz siz 0 bno block dst src s =
     robind (write_block dev bno s) (\<lambda>(_, s). Some (Inr (True, s)))"
| "write_blocks_loop dev isz osz siz (Suc n) bno block dst src s =
     (let copy = (\<lambda>bno block dst s. write_blocks_loop dev isz osz siz n bno block (dst + osz) (src + isz)
                    (set_mem (memcpy dst src siz (fs_mem s)) s))
      in if block + kBlockSize \<le> dst
         then robind (write_block dev bno s) (\<lambda>(_, s).
              robind (get_block dev (bno + 1) s) (\<lambda>(block, s).
              if block = 0 then Some (Inr (False, s)) else copy (bno + 1) block block s))
         else copy bno block dst s)"

definition write_blocks :: "device \<Rightarrow> u32 \<Rightarrow> u32 \<Rightarrow> u32 \<Rightarrow> u32 \<Rightarrow> u32 \<Rightarrow> u32 \<Rightarrow> fs \<Rightarrow> (bool \<times> fs) result option" where
  "write_blocks dev isz osz src output_bno count siz s =
     robind (get_block dev output_bno s) (\<lambda>(block, s).
     write_blocks_loop dev isz osz siz (unat count) output_bno block block src s)"

section \<open>Synchronisation\<close>

definition sync_super_block :: "device \<Rightarrow> fs_image \<Rightarrow> fs \<Rightarrow> fs result option" where
  "sync_super_block dev im s =
     robind (get_block dev kSuperBlockBNO s) (\<lambda>(block, s).
     robind (write_block dev kSuperBlockBNO (set_mem (memcpy block (g_super_block im) sizeof_d_super_block (fs_mem s)) s))
       (\<lambda>(_, s). Some (Inr s)))"

definition sync_imap :: "device \<Rightarrow> fs_image \<Rightarrow> fs \<Rightarrow> fs result option" where
  "sync_imap dev im s =
     (let imap_start = 2; count = ucast (sb_num_inodes (fs_mem s) (g_super_block im)) div 8 in
      robind (write_blocks dev 1 1 (g_imap_data im) imap_start count 1 s) (\<lambda>(_, s). Some (Inr s)))"

definition sync_zmap :: "device \<Rightarrow> fs_image \<Rightarrow> fs \<Rightarrow> fs result option" where
  "sync_zmap dev im s =
     (let zmap_start = 2 + ucast (sb_num_imap_blocks (fs_mem s) (g_super_block im));
          count = ucast (sb_num_zones (fs_mem s) (g_super_block im)) div 8 in
      robind (write_blocks dev 1 1 (g_zmap_data im) zmap_start count 1 s) (\<lambda>(_, s). Some (Inr s)))"

definition inode_start :: "fs_image \<Rightarrow> fs \<Rightarrow> u32" where
  "inode_start im s = 2 + ucast (sb_num_imap_blocks (fs_mem s) (g_super_block im))
     + ucast (sb_num_zmap_blocks (fs_mem s) (g_super_block im))"

definition sync_inodes :: "device \<Rightarrow> fs_image \<Rightarrow> fs \<Rightarrow> fs result option" where
  "sync_inodes dev im s =
     robind (write_blocks dev sizeof_m_inode sizeof_d_inode (g_inode_table im + sizeof_m_inode) (inode_start im s)
               (ucast (sb_num_inodes (fs_mem s) (g_super_block im))) sizeof_d_inode s) (\<lambda>(_, s). Some (Inr s))"

definition sync_all :: "device \<Rightarrow> fs_image \<Rightarrow> fs \<Rightarrow> fs result option" where
  "sync_all dev im s =
     robind (sync_super_block dev im s) (\<lambda>s. robind (sync_imap dev im s) (\<lambda>s.
     robind (sync_zmap dev im s) (\<lambda>s. sync_inodes dev im s)))"

section \<open>Inodes and directories\<close>

text \<open>Entry \<open>i\<close> of a block that holds zone numbers.\<close>

definition zone_entry :: "mem \<Rightarrow> u32 \<Rightarrow> u32 \<Rightarrow> u16" where
  "zone_entry m zones i = read16 m (zones + 2 * i)"

definition read_zone :: "device \<Rightarrow> u32 \<Rightarrow> u32 \<Rightarrow> fs \<Rightarrow> (u32 \<times> fs) result option" where
  "read_zone dev inode zone s =
     (if zone < 7 then read_block dev (ucast (inode_zone (fs_mem s) inode (unat zone))) s
      else if zone < 7 + 512
      then let zone = zone - 7 in
           robind (read_block dev (ucast (inode_zone (fs_mem s) inode 7)) s) (\<lambda>(zones, s).
           read_block dev (ucast (zone_entry (fs_mem s) zones zone)) s)
      else let zone = zone - (7 + 512) in
           robind (read_block dev (ucast (inode_zone (fs_mem s) inode 8)) s) (\<lambda>(zone_table, s).
           robind (read_block dev (ucast (zone_entry (fs_mem s) zone_table (zone div 512))) s) (\<lambda>(zones, s).
           read_block dev (ucast (zone_entry (fs_mem s) zones (zone mod 512))) s)))"

definition inode_at :: "fs_image \<Rightarrow> u32 \<Rightarrow> u32" where
  "inode_at im n = g_inode_table im + sizeof_m_inode * n"

text \<open>The loop of \<open>traverse_dir\<close>; a null pointer is the result 0. The callback takes the address of an
  entry.\<close>

fun traverse_loop ::
    "device \<Rightarrow> fs_image \<Rightarrow> u32 \<Rightarrow> (u32 \<Rightarrow> fs \<Rightarrow> (bool \<times> fs) result option) \<Rightarrow> nat \<Rightarrow> u32 \<Rightarrow> u32 \<Rightarrow> u32 \<Rightarrow> fs
      \<Rightarrow> (u32 \<times> fs) result option" where
  "traverse_loop dev im dir cb 0 zone_cnt zone entry s = Some (Inr (0, s))"
| "traverse_loop dev im dir cb (Suc n) zone_cnt zone entry s =
     (let visit = (\<lambda>zone_cnt zone entry s. robind (cb entry s) (\<lambda>(stop, s).
            if stop then Some (Inr (inode_at im (ucast (entry_inode (fs_mem s) entry)), s))
            else traverse_loop dev im dir cb n zone_cnt zone (entry + sizeof_dir_entry) s))
      in if zone + kZoneSize \<le> entry
         then robind (read_zone dev dir (zone_cnt + 1) s) (\<lambda>(zone, s). visit (zone_cnt + 1) zone zone s)
         else visit zone_cnt zone entry s)"

definition traverse_dir ::
    "device \<Rightarrow> fs_image \<Rightarrow> u32 \<Rightarrow> (u32 \<Rightarrow> fs \<Rightarrow> (bool \<times> fs) result option) \<Rightarrow> fs \<Rightarrow> (u32 \<times> fs) result option" where
  "traverse_dir dev im dir cb s =
     (if dir = 0 then Some (Inl NullDeref)
      else if \<not> is_directory (inode_mode (fs_mem s) dir) then Some (Inr (0, s))
      else robind (read_zone dev dir 0 s) (\<lambda>(zone, s).
           traverse_loop dev im dir cb (unat (inode_size (fs_mem s) dir div sizeof_dir_entry)) 0 zone zone s))"

definition find_entry :: "device \<Rightarrow> fs_image \<Rightarrow> u32 \<Rightarrow> u32 \<Rightarrow> fs \<Rightarrow> (u32 \<times> fs) result option" where
  "find_entry dev im dir name s =
     (if dir = 0 then Some (Inl NullDeref)
      else if \<not> is_directory (inode_mode (fs_mem s) dir) then Some (Inr (0, s))
      else traverse_dir dev im dir
             (\<lambda>entry s. map_option (\<lambda>r. Inr (r = 0, s)) (strcmp (fs_mem s) (entry_name entry) name)) s)"

partial_function (option) namei_loop :: "device \<Rightarrow> fs_image \<Rightarrow> u32 \<Rightarrow> u32 \<Rightarrow> fs \<Rightarrow> (u32 \<times> fs) result option" where
  "namei_loop dev im inode delim s =
     (let path = delim + 1 in
      Option.bind (strfind (fs_mem s) path 0x2F) (\<lambda>delim.
      Option.bind (find_entry dev im inode path s) (\<lambda>r. case r of
          Inl e \<Rightarrow> Some (Inl e)
        | Inr (inode, s) \<Rightarrow> if fs_mem s delim = 0 then Some (Inr (inode, s)) else namei_loop dev im inode delim s)))"

definition namei :: "device \<Rightarrow> fs_image \<Rightarrow> u32 \<Rightarrow> fs \<Rightarrow> (u32 \<times> fs) result option" where
  "namei dev im path s =
     (if fs_mem s path \<noteq> 0x2F then Some (Inl (AssertFail ''path must start with /''))
      else namei_loop dev im (inode_at im kRootINO) path s)"

section \<open>Initialisation\<close>

definition init_fs :: "device \<Rightarrow> fs_image \<Rightarrow> fs \<Rightarrow> fs result option" where
  "init_fs dev im s =
     robind (read_block dev kSuperBlockBNO s) (\<lambda>(block, s).
     let s = SetUncacheCallback (uncache_addr im) (set_mem (memcpy (g_super_block im) block sizeof_super_block (fs_mem s)) s);
         num_inodes = (\<lambda>s. ucast (sb_num_inodes (fs_mem s) (g_super_block im)) :: u32)
     in robind (read_blocks dev sizeof_d_inode sizeof_m_inode (inode_start im s) (g_inode_table im + sizeof_m_inode)
                  (num_inodes s) sizeof_d_inode s) (\<lambda>(_, s).
        robind (read_blocks dev 1 1 2 (g_imap_data im) (num_inodes s div 8) 1 s) (\<lambda>(_, s).
        robind (read_blocks dev 1 1 (2 + ucast (sb_num_imap_blocks (fs_mem s) (g_super_block im))) (g_zmap_data im)
                  (ucast (sb_num_zones (fs_mem s) (g_super_block im)) div 8) 1 s) (\<lambda>(_, s).
        Some (Inr s)))))"

section \<open>Listing and self test\<close>

definition nl :: string where "nl = [CHR 0x0A]"
definition tab :: string where "tab = [CHR 0x09]"

definition fs_printk :: "fs_image \<Rightarrow> string \<Rightarrow> printk_arg list \<Rightarrow> fs \<Rightarrow> fs result option" where
  "fs_printk im fmt args s =
     map_option (\<lambda>c. Inr (s\<lparr>fs_con := c\<rparr>)) (printk (fs_mem s) (literal im fmt) args (fs_con s))"

text \<open>\<open>list_entries\<close> calls itself through the callback of \<open>traverse_dir\<close>. The first argument bounds the
  depth of the directory tree; \<open>None\<close> is also the result when it is not enough.\<close>

fun list_entries :: "nat \<Rightarrow> device \<Rightarrow> fs_image \<Rightarrow> u32 \<Rightarrow> fs \<Rightarrow> fs result option" where
  "list_entries 0 dev im inode s = None"
| "list_entries (Suc n) dev im inode s =
     (if inode = 0 then Some (Inl NullDeref)
      else if is_directory (inode_mode (fs_mem s) inode)
      then robind (traverse_dir dev im inode (\<lambda>entry s.
             let node = inode_at im (ucast (entry_inode (fs_mem s) entry)) in
             if fs_mem s (entry_name entry) \<noteq> 0x2E
             then robind (fs_printk im (''%s'' @ tab @ ''%d'' @ tab @ ''%s'' @ nl)
                     [ArgStr (entry_name entry), ArgNum (inode_size (fs_mem s) node),
                      ArgStr (literal im (if is_directory (inode_mode (fs_mem s) node) then ''dir'' else ''file''))] s) (\<lambda>s.
                  robind (list_entries n dev im node s) (\<lambda>s. Some (Inr (False, s))))
             else Some (Inr (False, s))) s) (\<lambda>(_, s). Some (Inr s))
      else Some (Inr s))"

fun fs_printks :: "fs_image \<Rightarrow> (string \<times> printk_arg list) list \<Rightarrow> fs \<Rightarrow> fs result option" where
  "fs_printks im [] s = Some (Inr s)"
| "fs_printks im ((fmt, args) # ps) s = robind (fs_printk im fmt args s) (fs_printks im ps)"

definition show_super_block :: "fs_image \<Rightarrow> fs \<Rightarrow> fs result option" where
  "show_super_block im s =
     (let m = fs_mem s; sb = g_super_block im in
      fs_printks im
       [(''number of inodes: %d'' @ nl, [ArgNum (ucast (sb_num_inodes m sb))]),
        (''number of zones:  %d'' @ nl, [ArgNum (ucast (sb_num_zones m sb))]),
        (''number of inode bitmap blocks: %d'' @ nl, [ArgNum (ucast (sb_num_imap_blocks m sb))]),
        (''number of zone bitmap blocks: %d'' @ nl, [ArgNum (ucast (sb_num_zmap_blocks m sb))]),
        (''first data zone: %d'' @ nl, [ArgNum (ucast (read16 m (sb + 8)))]),
        (''log zone size: %d'' @ nl, [ArgNum (ucast (read16 m (sb + 10)))]),
        (''max file size: %dbytes'' @ nl, [ArgNum (read32 m (sb + 12))]),
        (''magic number: 0x%x'' @ nl, [ArgNum (ucast (read16 m (sb + 16)))]),
        (''-------------------------------------------'' @ nl, [])] s)"

definition test_fs :: "nat \<Rightarrow> device \<Rightarrow> fs_image \<Rightarrow> fs \<Rightarrow> fs result option" where
  "test_fs depth dev im s =
     robind (show_super_block im s) (\<lambda>s.
     robind (fs_printk im (''files in /'' @ nl @ ''name'' @ tab @ ''size'' @ tab @ ''type'' @ nl) [] s) (\<lambda>s.
     robind (list_entries depth dev im (inode_at im kRootINO) s) (\<lambda>s.
     robind (namei dev im (literal im ''/test/test.txt'') s) (\<lambda>(node, s).
     robind
       (if node \<noteq> 0
        then robind (read_zone dev node 0 s) (\<lambda>(contents, s).
             robind (fs_printk im ''size: %d; contents of test.txt: '' [ArgNum (inode_size (fs_mem s) node)] s) (\<lambda>s.
             robind (map_option (\<lambda>c. Inr (s\<lparr>fs_con := c\<rparr>)) (printk (fs_mem s) contents [] (fs_con s))) (\<lambda>s.
             robind (fs_printk im nl [] s) (\<lambda>s.
             let m = memcpy contents (literal im ''hello world'') 12 (fs_mem s);
                 s = set_mem (write32 m (node + 4) 12) s
             in robind (write_block dev (ucast (inode_zone (fs_mem s) node 0)) s) (\<lambda>(_, s). Some (Inr s))))))
        else Some (Inr s)) (\<lambda>s.
     sync_all dev im s)))))"

section \<open>Memory and the heap\<close>

text \<open>A write into live payloads leaves the block structure of the heap alone.\<close>

definition in_region :: "nat \<Rightarrow> nat \<times> nat \<Rightarrow> bool" where
  "in_region y r \<longleftrightarrow> fst r \<le> y \<and> y < fst r + snd r"

lemma heap_blocks_frame:
  assumes "heap_blocks m a e bs" and "e < 2 ^ 32"
    and "\<And>y. a \<le> y \<Longrightarrow> y < e \<Longrightarrow> \<forall>r\<in>live a bs. \<not> in_region y r \<Longrightarrow> m' (of_nat y) = m (of_nat y)"
  shows "heap_blocks m' a e bs"
  using assms
proof (induction bs arbitrary: a)
  case (Cons b bs)
  obtain sz al where b: "b = (sz, al)" by (cases b)
  have le: "a + 4 + sz \<le> e" and tl: "heap_blocks m (a + 4 + sz) e bs" using Cons.prems(1) by (simp_all add: b)
  have "m' (of_nat (a + k)) = m (of_nat (a + k))" if "k < 4" for k
  proof (rule Cons.prems(3))
    show "\<forall>r\<in>live a (b # bs). \<not> in_region (a + k) r"
      using live_bounds [of _ "a + 4 + sz" bs] that by (fastforce simp: b in_region_def split: if_splits)
  qed (use that le in auto)
  from this [of 0] this [of 1] this [of 2] this [of 3] have "read32 m' (of_nat a) = read32 m (of_nat a)"
    by (simp add: read32_def add.commute)
  moreover have "heap_blocks m' (a + 4 + sz) e bs"
  proof (rule Cons.IH [OF tl Cons.prems(2)])
    fix y assume y: "a + 4 + sz \<le> y" "y < e" "\<forall>r\<in>live (a + 4 + sz) bs. \<not> in_region y r"
    then show "m' (of_nat y) = m (of_nat y)" by (intro Cons.prems(3)) (auto simp: b in_region_def)
  qed
  ultimately show ?case using Cons.prems(1) by (simp add: b)
qed simp

lemma il_frame:
  assumes inv: "il_invar h"
    and m: "\<And>y. unat (mstart h) \<le> y \<Longrightarrow> y < unat (mend h) \<Longrightarrow> \<forall>r\<in>il_regions h. \<not> in_region y r \<Longrightarrow>
      m (of_nat y) = il_mem h (of_nat y)"
  shows "il_invar (h\<lparr>il_mem := m\<rparr>)" and "il_blocks (h\<lparr>il_mem := m\<rparr>) = il_blocks h"
    and "il_regions (h\<lparr>il_mem := m\<rparr>) = il_regions h"
proof -
  have "heap_blocks m (unat (mstart h)) (unat (mend h)) (il_blocks h)"
  proof (rule heap_blocks_frame [of "il_mem h"])
    show "heap_blocks (il_mem h) (unat (mstart h)) (unat (mend h)) (il_blocks h)" using inv by (simp add: il_invar_def il_wf_def)
    fix y assume "unat (mstart h) \<le> y" "y < unat (mend h)" "\<forall>r\<in>live (unat (mstart h)) (il_blocks h). \<not> in_region y r"
    then show "m (of_nat y) = il_mem h (of_nat y)" by (intro m) (auto simp: il_regions_def)
  qed (rule unat_u32_lt)
  then have "il_wf (h\<lparr>il_mem := m\<rparr>) (il_blocks h)" by (simp add: il_wf_def)
  from il_wf_invar [OF this] il_wf_blocks [OF this] show "il_invar (h\<lparr>il_mem := m\<rparr>)"
    "il_blocks (h\<lparr>il_mem := m\<rparr>) = il_blocks h" "il_regions (h\<lparr>il_mem := m\<rparr>) = il_regions h"
    by (simp_all add: il_regions_def)
qed

lemma live_disjoint:
  "r \<in> live a bs \<Longrightarrow> q \<in> live a bs \<Longrightarrow> fst r \<noteq> fst q \<Longrightarrow> \<not> overlap r q"
proof (induction bs arbitrary: a)
  case (Cons b bs)
  obtain sz al where b: "b = (sz, al)" by (cases b)
  have *: "a + 4 + sz + 4 \<le> fst x" if "x \<in> live (a + 4 + sz) bs" for x using live_bounds [OF that] by simp
  show ?case
  proof (cases "r \<in> live (a + 4 + sz) bs \<and> q \<in> live (a + 4 + sz) bs")
    case True
    then show ?thesis using Cons.IH Cons.prems(3) by blast
  next
    case False
    then have "r = (a + 4, sz) \<and> q \<in> live (a + 4 + sz) bs \<or> q = (a + 4, sz) \<and> r \<in> live (a + 4 + sz) bs"
      using Cons.prems by (auto simp: b split: if_splits)
    then show ?thesis
    proof (elim disjE conjE)
      assume "r = (a + 4, sz)" "q \<in> live (a + 4 + sz) bs"
      then show ?thesis using * [of q] by (simp add: overlap_def)
    next
      assume "q = (a + 4, sz)" "r \<in> live (a + 4 + sz) bs"
      then show ?thesis using * [of r] by (simp add: overlap_def)
    qed
  qed
qed simp

lemma kmalloc_outside:
  assumes inv: "il_invar h" and g: "il_grants siz h" and al: "kmalloc siz h = Some (p, h')"
    and y: "y < 2 ^ 32" "y < unat (mstart h) \<or> unat (mend h) \<le> y"
  shows "il_mem h' (of_nat y) = il_mem h (of_nat y)"
proof -
  let ?n = "unat (align2 siz)" and ?a = "unat (mstart h)"
  obtain pre sz post where bs: "il_blocks h = pre @ (sz, False) # post" "\<forall>b\<in>set pre. \<not> fits ?n b"
    "?n + 4 \<le> sz" "unat siz \<le> ?n"
    using il_grants_split [OF inv g refl] .
  define c where "c = ?a + blocks_len pre"
  have wf: "il_wf h (pre @ (sz, False) # post)" using inv bs(1) by (simp add: il_invar_def)
  have e: "unat (mend h) = ?a + blocks_len (il_blocks h)" using inv heap_blocks_end by (auto simp: il_invar_def il_wf_def)
  then have c2: "c + 4 + sz \<le> unat (mend h)" by (simp add: bs(1) c_def)
  have "fits ?n (sz, False)" using bs(3) by (simp add: fits_def)
  from il_alloc_first_fit [OF wf bs(2) this c_def] al
  have "h' = h\<lparr>il_mem := alloc_place (of_nat c) (align2 siz) (il_mem h)\<rparr>" by (simp add: kmalloc_def)
  moreover have "alloc_place (of_nat c) (of_nat ?n) (il_mem h) (of_nat y) = il_mem h (of_nat y)"
    using bs(3) c2 y unat_u32_lt [of "mend h"] by (intro alloc_place_elsewhere [of ?n sz]) (auto simp: c_def)
  ultimately show ?thesis by simp
qed

text \<open>Room for \<open>n\<close> more nodes: behind blocks that are in use or too small lies a free block that is
  large enough for all of them.\<close>

definition heap_room :: "nat \<Rightarrow> il_allocator \<Rightarrow> bool" where
  "heap_room n h \<longleftrightarrow> n = 0 \<or> (\<exists>pre big post. il_blocks h = pre @ (big, False) # post
     \<and> (\<forall>b\<in>set pre. \<not> fits 1040 b) \<and> n * 1044 \<le> big)"

lemma node_size: "sizeof_ListNode sizeof_block_buffer = 1040" "unat (align2 1040) = 1040"
  by (simp_all add: sizeof_ListNode_def layout_sizes kBlockSize_def align2_def)

lemma heap_room_alloc:
  assumes inv: "il_invar h" and r: "heap_room (Suc n) h"
  shows "il_grants 1040 h" and "kmalloc 1040 h = Some (p, h') \<Longrightarrow> heap_room n h'"
proof -
  obtain pre big post where bs: "il_blocks h = pre @ (big, False) # post" "\<forall>b\<in>set pre. \<not> fits 1040 b"
    "Suc n * 1044 \<le> big" using r by (auto simp: heap_room_def)
  have "dropWhile (\<lambda>b. \<not> fits 1040 b) (il_blocks h) = (big, False) # post"
    using bs by (simp add: bs(1) dropWhile_append2 fits_def)
  then show "il_grants 1040 h" using bs(3) by (simp add: il_grants_def node_size)
  assume al: "kmalloc 1040 h = Some (p, h')"
  have wf: "il_wf h (pre @ (big, False) # post)" using inv bs(1) by (simp add: il_invar_def)
  have "1040 + 4 \<le> big" using bs(3) by simp
  from il_alloc_carves [OF wf node_size(2) [symmetric] bs(2) this refl] al
  have "il_wf h' (pre @ carve 1040 big @ post)" by (auto simp: kmalloc_def)
  then have b: "il_blocks h' = pre @ carve 1040 big @ post" by (rule il_wf_blocks)
  show "heap_room n h'"
  proof (cases "n = 0")
    case False
    then have "carve 1040 big = [(1040, True), (big - 1044, False)]" using bs(3) by (simp add: carve_def)
    then have "il_blocks h' = (pre @ [(1040, True)]) @ (big - 1044, False) # post" using b by simp
    moreover have "\<forall>b\<in>set (pre @ [(1040, True)]). \<not> fits 1040 b" using bs(2) by (simp add: fits_def)
    moreover have "n * 1044 \<le> big - 1044" using bs(3) by simp
    ultimately show ?thesis unfolding heap_room_def by blast
  qed (simp add: heap_room_def)
qed

section \<open>Coherence of the cache\<close>

text \<open>\<open>holds_block m a d bno\<close>: the 1024 bytes at \<open>a\<close> are block \<open>bno\<close> of the disk \<open>d\<close>.\<close>

definition holds_block :: "mem \<Rightarrow> u32 \<Rightarrow> (nat \<Rightarrow> u32) \<Rightarrow> u32 \<Rightarrow> bool" where
  "holds_block m a d bno \<longleftrightarrow> (\<forall>i<256. read32 m (a + of_nat (4 * i)) = d (256 * unat bno + i))"

text \<open>The drive works and no command is under way.\<close>

definition drive_ready :: "device \<Rightarrow> disk \<Rightarrow> fs \<Rightarrow> bool" where
  "drive_ready dev dsk s \<longleftrightarrow> ata_working dev dsk \<and> ata_idle dev (fs_log s)"

lemma drive_ready_fields [simp]:
  "drive_ready dev dsk (s\<lparr>lru_heap := h\<rparr>) = drive_ready dev dsk s" "drive_ready dev dsk (s\<lparr>lru_cb := cb\<rparr>) = drive_ready dev dsk s"
  "drive_ready dev dsk (s\<lparr>fs_con := c\<rparr>) = drive_ready dev dsk s" "drive_ready dev dsk (set_mem m s) = drive_ready dev dsk s"
  by (simp_all add: drive_ready_def set_mem_def)

text \<open>Every cached block agrees with the disk, and \<open>n\<close> more blocks can be cached without dropping any.\<close>

definition fs_ok :: "device \<Rightarrow> disk \<Rightarrow> nat \<Rightarrow> fs \<Rightarrow> bool" where
  "fs_ok dev dsk n s \<longleftrightarrow> drive_ready dev dsk s \<and> ide_device_valid (fs_dev s)
     \<and> lru_invar kCacheSize sizeof_block_buffer s
     \<and> (\<forall>x\<in>set (cached_nodes s). holds_block (fs_mem s) (value_of x) (dsk (fs_log s)) (node_key (lru_nodes s x)))
     \<and> length (cached_keys s) + n \<le> kCacheSize \<and> heap_room n (lru_heap s)"

text \<open>What reading leaves as it is: the disk, memory outside of the heap, and the blocks already cached.\<close>

definition fs_keeps :: "disk \<Rightarrow> fs \<Rightarrow> fs \<Rightarrow> bool" where
  "fs_keeps dsk s s' \<longleftrightarrow> dsk (fs_log s') = dsk (fs_log s) \<and> fs_dev s' = fs_dev s \<and> fs_con s' = fs_con s \<and> lru_cb s' = lru_cb s
     \<and> mstart (lru_heap s') = mstart (lru_heap s) \<and> mend (lru_heap s') = mend (lru_heap s)
     \<and> (\<forall>y<2 ^ 32. y < unat (mstart (lru_heap s)) \<or> unat (mend (lru_heap s)) \<le> y \<longrightarrow> fs_mem s' (of_nat y) = fs_mem s (of_nat y))
     \<and> (\<forall>x\<in>set (cached_nodes s). x \<in> set (cached_nodes s') \<and> node_key (lru_nodes s' x) = node_key (lru_nodes s x)
          \<and> (\<forall>i<1024. fs_mem s' (value_of x + of_nat i) = fs_mem s (value_of x + of_nat i)))"

lemma fs_keeps_refl [simp]: "fs_keeps dsk s s"
  by (simp add: fs_keeps_def)

lemma fs_keeps_trans: "fs_keeps dsk s s' \<Longrightarrow> fs_keeps dsk s' s'' \<Longrightarrow> fs_keeps dsk s s''"
  by (auto simp: fs_keeps_def)

lemma holds_block_cong:
  assumes "holds_block m a d bno" and "\<And>i. i < 1024 \<Longrightarrow> m' (a + of_nat i) = m (a + of_nat i)"
  shows "holds_block m' a d bno"
proof -
  have "read32 m' (a + of_nat (4 * i)) = read32 m (a + of_nat (4 * i))" if "i < 256" for i
    using assms(2) [of "4 * i"] assms(2) [of "4 * i + 1"] assms(2) [of "4 * i + 2"] assms(2) [of "4 * i + 3"] that
    by (simp add: read32_def algebra_simps)
  then show ?thesis using assms(1) by (simp add: holds_block_def)
qed

lemma cached_region:
  assumes "lru_invar kCacheSize sizeof_block_buffer s" and "x \<in> set (cached_nodes s)"
  shows "\<exists>l. (unat x, l) \<in> il_regions (lru_heap s) \<and> 1040 \<le> l \<and> unat x + l \<le> unat (mend (lru_heap s))
    \<and> il_invar (lru_heap s)"
proof -
  obtain l where "(unat x, l) \<in> il_regions (lru_heap s)" "1040 \<le> l" "il_invar (lru_heap s)"
    using assms by (auto simp: lru_invar_def lru_list_def node_size)
  then show ?thesis using region_end by blast
qed

lemma node_in_heap:
  assumes "lru_invar kCacheSize sizeof_block_buffer s" and "x \<in> set (cached_nodes s)"
  shows "unat (mstart (lru_heap s)) \<le> unat x \<and> unat x + 1040 \<le> unat (mend (lru_heap s))"
proof -
  obtain l where "(unat x, l) \<in> il_regions (lru_heap s)" "1040 \<le> l" "unat x + l \<le> unat (mend (lru_heap s))"
    using cached_region [OF assms] by blast
  then show ?thesis using live_bounds by (fastforce simp: il_regions_def)
qed

lemma value_byte:
  assumes "unat x + 1040 < 2 ^ 32" and "i < 1028"
  shows "value_of x + of_nat i = of_nat (unat x + 12 + i)" and "unat x + 12 + i < 2 ^ 32"
  using assms by (simp_all add: value_of_def)

text \<open>The transfer of a block into the buffer of a node of the cache.\<close>

lemma fill_buffer:
  assumes inv: "lru_invar kCacheSize sizeof_block_buffer s" and x: "x \<in> set (cached_nodes s)"
    and m: "m = write_words (fs_mem s) (value_of x) f 256"
  shows "\<And>i. i < 256 \<Longrightarrow> read32 m (value_of x + of_nat (4 * i)) = f i"
    and "\<And>y. y < 2 ^ 32 \<Longrightarrow> \<not> in_region y (unat x, 1040) \<Longrightarrow> m (of_nat y) = fs_mem s (of_nat y)"
proof -
  obtain l where l: "1040 \<le> l" "unat x + l \<le> unat (mend (lru_heap s))" using cached_region [OF inv x] by blast
  then have lt: "unat x + 1040 < 2 ^ 32" using unat_u32_lt [of "mend (lru_heap s)"] by simp
  have v: "unat (value_of x) = unat x + 12" using lt by (simp add: value_of_def unat_word_ariths)
  have w: "unat (value_of x) + 4 * 256 \<le> 2 ^ 32" using lt v by simp
  show "\<And>i. i < 256 \<Longrightarrow> read32 m (value_of x + of_nat (4 * i)) = f i"
    unfolding m using write_words_read(1) [OF w] .
  show "m (of_nat y) = fs_mem s (of_nat y)" if "y < 2 ^ 32" "\<not> in_region y (unat x, 1040)" for y
    unfolding m using that v by (intro write_words_read(2) [OF w]) (auto simp: in_region_def)
qed

text \<open>Other buffers lie in other blocks of the heap.\<close>

lemma other_buffer:
  assumes inv: "lru_invar kCacheSize sizeof_block_buffer s" and x: "x \<in> set (cached_nodes s)"
    and z: "z \<in> set (cached_nodes s)" "z \<noteq> x" and i: "i < 1024"
  shows "\<exists>y<2 ^ 32. value_of z + of_nat i = of_nat y \<and> \<not> in_region y (unat x, 1040)"
proof -
  obtain l where l: "(unat x, l) \<in> il_regions (lru_heap s)" "1040 \<le> l" using cached_region [OF inv x] by blast
  obtain k where k: "(unat z, k) \<in> il_regions (lru_heap s)" "1040 \<le> k" "unat z + k \<le> unat (mend (lru_heap s))"
    using cached_region [OF inv z(1)] by blast
  have "\<not> overlap (unat x, l) (unat z, k)"
    using live_disjoint [OF l(1) [unfolded il_regions_def] k(1) [unfolded il_regions_def]] z(2)
    by (auto simp: word_unat_eq_iff)
  then have "\<not> in_region (unat z + 12 + i) (unat x, 1040)" using l(2) k(2) i by (auto simp: overlap_def in_region_def)
  moreover have "unat z + 1040 < 2 ^ 32" using k unat_u32_lt [of "mend (lru_heap s)"] by simp
  ultimately show ?thesis using value_byte [of z i] i by (intro exI [of _ "unat z + 12 + i"]) auto
qed

lemma buffer_write:
  assumes inv: "lru_invar kCacheSize sizeof_block_buffer s" and x: "x \<in> set (cached_nodes s)"
    and m: "\<And>y. y < 2 ^ 32 \<Longrightarrow> \<not> in_region y (unat x, 1040) \<Longrightarrow> m (of_nat y) = fs_mem s (of_nat y)"
  shows "lru_invar kCacheSize sizeof_block_buffer ((set_mem m s)\<lparr>fs_log := l\<rparr>)"
    and "cached_nodes ((set_mem m s)\<lparr>fs_log := l\<rparr>) = cached_nodes s"
    and "cached_keys ((set_mem m s)\<lparr>fs_log := l\<rparr>) = cached_keys s"
    and "heap_room n (lru_heap ((set_mem m s)\<lparr>fs_log := l\<rparr>)) = heap_room n (lru_heap s)"
proof -
  obtain k where k: "(unat x, k) \<in> il_regions (lru_heap s)" "1040 \<le> k" "il_invar (lru_heap s)"
    using cached_region [OF inv x] by blast
  have "m (of_nat y) = il_mem (lru_heap s) (of_nat y)"
    if "y < unat (mend (lru_heap s))" "\<forall>r\<in>il_regions (lru_heap s). \<not> in_region y r" for y
  proof -
    have "y < 2 ^ 32" using that(1) unat_u32_lt [of "mend (lru_heap s)"] by simp
    moreover have "\<not> in_region y (unat x, k)" using that(2) k(1) by blast
    then have "\<not> in_region y (unat x, 1040)" using k(2) by (auto simp: in_region_def)
    ultimately show ?thesis using m by (simp add: fs_mem_def)
  qed
  note f = il_frame [OF k(3) this]
  show c: "cached_nodes ((set_mem m s)\<lparr>fs_log := l\<rparr>) = cached_nodes s"
    by (simp add: cached_nodes_def set_mem_def)
  show "cached_keys ((set_mem m s)\<lparr>fs_log := l\<rparr>) = cached_keys s"
    unfolding cached_keys_def c by (simp add: lru_keys_def set_mem_def)
  show "lru_invar kCacheSize sizeof_block_buffer ((set_mem m s)\<lparr>fs_log := l\<rparr>)"
    using inv f unfolding lru_invar_def c by (simp add: lru_list_def queue_list_def set_mem_def)
  show "heap_room n (lru_heap ((set_mem m s)\<lparr>fs_log := l\<rparr>)) = heap_room n (lru_heap s)"
    using f(2) by (simp add: heap_room_def set_mem_def)
qed

definition bno_ok :: "u32 \<Rightarrow> bool" where
  "bno_ok bno \<longleftrightarrow> unat bno < 0x8000000"

lemma bno_sectors:
  assumes "bno_ok bno"
  shows "unat (block_to_sector bno) = 2 * unat bno" and "block_to_sector 1 = 2"
    and "unat (block_to_sector bno) + unat (block_to_sector 1) \<le> 0x10000000"
proof -
  show 1: "unat (block_to_sector bno) = 2 * unat bno"
    using assms by (simp add: block_to_sector_def kBlockSectorFactor_def bno_ok_def unat_word_ariths)
  show 2: "block_to_sector 1 = 2" by (simp add: block_to_sector_def kBlockSectorFactor_def)
  show "unat (block_to_sector bno) + unat (block_to_sector 1) \<le> 0x10000000"
    using assms unfolding 1 2 by (simp add: bno_ok_def)
qed

lemma fs_ok_less: "fs_ok dev dsk (Suc n) s \<Longrightarrow> fs_ok dev dsk n s"
proof -
  assume ok: "fs_ok dev dsk (Suc n) s"
  then have "heap_room n (lru_heap s)" unfolding fs_ok_def heap_room_def by fastforce
  with ok show ?thesis by (simp add: fs_ok_def)
qed

text \<open>A hit.\<close>

lemma Get_ok:
  assumes ok: "fs_ok dev dsk n s" and k: "bno \<in> set (cached_keys s)"
  shows "\<exists>a s'. Get kCacheSize bno s = Inr (a, s') \<and> a \<noteq> 0 \<and> fs_ok dev dsk n s' \<and> fs_keeps dsk s s'
    \<and> holds_block (fs_mem s') a (dsk (fs_log s)) bno
    \<and> (\<exists>x\<in>set (cached_nodes s'). a = value_of x \<and> node_key (lru_nodes s' x) = bno)"
proof -
  have inv: "lru_invar kCacheSize sizeof_block_buffer s" using ok by (simp add: fs_ok_def)
  obtain a s' x where g: "Get kCacheSize bno s = Inr (a, s')" "lru_invar kCacheSize sizeof_block_buffer s'"
    "cached_keys s' = spec_get bno (cached_keys s)" "x \<in> set (cached_nodes s)" "a = value_of x" "a \<noteq> 0"
    "node_key (lru_nodes s x) = bno" "set (cached_nodes s') = set (cached_nodes s)"
    "\<forall>x. node_key (lru_nodes s' x) = node_key (lru_nodes s x)"
    "lru_heap s' = lru_heap s" "lru_cb s' = lru_cb s" "lru.more s' = lru.more s"
    using Get_keys [OF inv, of bno] k by auto
  have more: "fs_log s' = fs_log s" "fs_dev s' = fs_dev s" "fs_con s' = fs_con s" "fs_mem s' = fs_mem s"
    using g(10,12) by (cases s; cases s'; simp add: fs_mem_def)+
  have "fs_ok dev dsk n s'" using ok g more by (auto simp: fs_ok_def drive_ready_def)
  moreover have "fs_keeps dsk s s'" using g more by (simp add: fs_keeps_def)
  moreover have "holds_block (fs_mem s') a (dsk (fs_log s)) bno" using ok g(4,5,7) more by (auto simp: fs_ok_def)
  ultimately show ?thesis using g by auto
qed

text \<open>A miss: a node of its own, and the transfer into it.\<close>

lemma Alloc_ok:
  assumes ok: "fs_ok dev dsk (Suc n) s" and k: "bno \<notin> set (cached_keys s)"
  shows "\<exists>x s'. Alloc cb kCacheSize sizeof_block_buffer bno s = Some (Inr (value_of x, s')) \<and> value_of x \<noteq> 0
    \<and> lru_invar kCacheSize sizeof_block_buffer s' \<and> cached_nodes s' = cached_nodes s @ [x]
    \<and> length (cached_keys s') + n \<le> kCacheSize \<and> heap_room n (lru_heap s')
    \<and> node_key (lru_nodes s' x) = bno \<and> x \<notin> set (cached_nodes s) \<and> fs_keeps dsk s s' \<and> fs_log s' = fs_log s"
proof -
  have inv: "lru_invar kCacheSize sizeof_block_buffer s" and len: "length (cached_keys s) + Suc n \<le> kCacheSize"
    and room: "heap_room (Suc n) (lru_heap s)" using ok by (simp_all add: fs_ok_def)
  let ?ns = "cached_nodes s"
  have l: "lru_list kCacheSize sizeof_block_buffer s ?ns" "length ?ns < kCacheSize" "bno \<notin> set (lru_keys s ?ns)"
    "il_invar (lru_heap s)"
    using inv len k by (simp_all add: lru_invar_def cached_keys_def lru_keys_def lru_list_def)
  note hr = heap_room_alloc [OF l(4) room]
  have gr: "il_grants (sizeof_ListNode sizeof_block_buffer) (lru_heap s)" using hr(1) by (simp add: node_size)
  obtain x h s' where x: "kmalloc 1040 (lru_heap s) = Some (x, h)" "x \<notin> set ?ns"
    "Alloc cb kCacheSize sizeof_block_buffer bno s = Some (Inr (value_of x, s'))"
    "lru_list kCacheSize sizeof_block_buffer s' (?ns @ [x])"
    "\<forall>a. node_key (lru_nodes s' a) = (if a = x then bno else node_key (lru_nodes s a))"
    "lru_heap s' = h" "lru_cb s' = lru_cb s" "lru.more s' = lru.more s"
    using Alloc_room [OF l(1,2) gr l(3), of cb] by (auto simp: node_size)
  have more: "fs_log s' = fs_log s" "fs_dev s' = fs_dev s" "fs_con s' = fs_con s"
    using x(8) by (cases s; cases s'; simp)+
  note i = lru_invarI [OF x(4)]
  have "fs_mem s' (value_of z + of_nat i) = fs_mem s (value_of z + of_nat i)" if z: "z \<in> set ?ns" and i: "i < 1024" for z i
  proof -
    obtain r where r: "(unat z, r) \<in> il_regions (lru_heap s)" "1040 \<le> r" using cached_region [OF inv z] by blast
    have "il_mem h (z + of_nat (12 + i)) = il_mem (lru_heap s) (z + of_nat (12 + i))"
      using r i by (intro kmalloc_contents [OF l(4) hr(1) x(1) r(1)]) simp
    then show ?thesis by (simp add: fs_mem_def x(6) value_of_def add.assoc)
  qed
  moreover have "fs_mem s' (of_nat y) = fs_mem s (of_nat y)"
    if "y < 2 ^ 32" "y < unat (mstart (lru_heap s)) \<or> unat (mend (lru_heap s)) \<le> y" for y
    using kmalloc_outside [OF l(4) hr(1) x(1) that] by (simp add: fs_mem_def x(6))
  ultimately have "fs_keeps dsk s s'"
    using x more i kmalloc_bounds [OF x(1)] by (auto simp: fs_keeps_def)
  moreover have "length (cached_keys s') = Suc (length (cached_keys s))" using i by (simp add: cached_keys_def lru_keys_def)
  ultimately show ?thesis using x i more(1) len hr(2) [OF x(1)] value_of_nonzero [OF x(4), of x]
    by (intro exI [of _ x] exI [of _ s']) auto
qed

text \<open>As \<open>fs_ok\<close>, except that the buffer of node \<open>x\<close>, which holds block \<open>b\<close>, may differ from the disk.\<close>

definition fs_open :: "device \<Rightarrow> disk \<Rightarrow> nat \<Rightarrow> u32 \<Rightarrow> u32 \<Rightarrow> fs \<Rightarrow> bool" where
  "fs_open dev dsk n b x s \<longleftrightarrow> drive_ready dev dsk s \<and> ide_device_valid (fs_dev s)
     \<and> lru_invar kCacheSize sizeof_block_buffer s \<and> x \<in> set (cached_nodes s) \<and> node_key (lru_nodes s x) = b
     \<and> (\<forall>z\<in>set (cached_nodes s). z \<noteq> x \<longrightarrow> holds_block (fs_mem s) (value_of z) (dsk (fs_log s)) (node_key (lru_nodes s z)))
     \<and> length (cached_keys s) + n \<le> kCacheSize \<and> heap_room n (lru_heap s)"

lemma Alloc_open:
  assumes ok: "fs_ok dev dsk (Suc n) s" and k: "bno \<notin> set (cached_keys s)"
  shows "\<exists>x s'. Alloc cb kCacheSize sizeof_block_buffer bno s = Some (Inr (value_of x, s')) \<and> value_of x \<noteq> 0
    \<and> fs_open dev dsk n bno x s' \<and> fs_keeps dsk s s' \<and> x \<notin> set (cached_nodes s)"
proof -
  obtain x s' where x: "Alloc cb kCacheSize sizeof_block_buffer bno s = Some (Inr (value_of x, s'))" "value_of x \<noteq> 0"
    "lru_invar kCacheSize sizeof_block_buffer s'" "cached_nodes s' = cached_nodes s @ [x]"
    "length (cached_keys s') + n \<le> kCacheSize" "heap_room n (lru_heap s')"
    "node_key (lru_nodes s' x) = bno" "x \<notin> set (cached_nodes s)" "fs_keeps dsk s s'" "fs_log s' = fs_log s"
    using Alloc_ok [OF ok k] by blast
  have "holds_block (fs_mem s') (value_of z) (dsk (fs_log s')) (node_key (lru_nodes s' z))" if z: "z \<in> set (cached_nodes s')" "z \<noteq> x" for z
  proof -
    have zs: "z \<in> set (cached_nodes s)" using z x(4) by simp
    then have "holds_block (fs_mem s) (value_of z) (dsk (fs_log s)) (node_key (lru_nodes s z))" using ok by (simp add: fs_ok_def)
    then have "holds_block (fs_mem s') (value_of z) (dsk (fs_log s)) (node_key (lru_nodes s z))"
      using x(9) zs by (elim holds_block_cong) (simp add: fs_keeps_def)
    then show ?thesis using x(9) zs by (simp add: fs_keeps_def)
  qed
  moreover have "ide_device_valid (fs_dev s')" "drive_ready dev dsk s'" using ok x(9,10) by (simp_all add: fs_ok_def fs_keeps_def drive_ready_def)
  ultimately have "fs_open dev dsk n bno x s'" using x by (simp add: fs_open_def)
  then show ?thesis using x by blast
qed

text \<open>The transfer of the block into its buffer makes the cache coherent.\<close>

lemma read_closes:
  assumes op: "fs_open dev dsk n bno x s" and b: "bno_ok bno"
  shows "\<exists>s'. call_ide (ide_read_secs dev (fs_dev s) (block_to_sector bno) (value_of x) (block_to_sector 1)) s = Some (Inr (0, s'))
    \<and> fs_ok dev dsk n s' \<and> holds_block (fs_mem s') (value_of x) (dsk (fs_log s)) bno
    \<and> cached_nodes s' = cached_nodes s \<and> lru_nodes s' = lru_nodes s \<and> dsk (fs_log s') = dsk (fs_log s) \<and> fs_dev s' = fs_dev s \<and> fs_con s' = fs_con s
    \<and> lru_cb s' = lru_cb s \<and> mstart (lru_heap s') = mstart (lru_heap s) \<and> mend (lru_heap s') = mend (lru_heap s)
    \<and> (\<forall>y<2 ^ 32. y < unat (mstart (lru_heap s)) \<or> unat (mend (lru_heap s)) \<le> y \<longrightarrow> fs_mem s' (of_nat y) = fs_mem s (of_nat y))
    \<and> (\<forall>z\<in>set (cached_nodes s). z \<noteq> x \<longrightarrow> (\<forall>i<1024. fs_mem s' (value_of z + of_nat i) = fs_mem s (value_of z + of_nat i)))"
proof -
  have dev: "ata_working dev dsk" "ata_idle dev (fs_log s)" and v: "ide_device_valid (fs_dev s)" and inv: "lru_invar kCacheSize sizeof_block_buffer s"
    and x: "x \<in> set (cached_nodes s)" "node_key (lru_nodes s x) = bno" using op by (simp_all add: fs_open_def drive_ready_def)
  note sec = bno_sectors [OF b]
  obtain io where io: "ide_read_secs dev (fs_dev s) (block_to_sector bno) (value_of x) 2 \<lparr>ide_mem = fs_mem s, io_log = fs_log s\<rparr>
      = Some (Inr (0, io))" "dsk (io_log io) = dsk (fs_log s)"
    "ide_mem io = write_words (fs_mem s) (value_of x) (\<lambda>i. dsk (fs_log s) (256 * unat bno + i)) 256" "ata_idle dev (io_log io)"
    using ide_read_transfer [OF dev(1) _ v sec(3), of "\<lparr>ide_mem = fs_mem s, io_log = fs_log s\<rparr>" "value_of x"] dev(2)
    by (auto simp: sec(1,2))
  define s' where "s' = (set_mem (ide_mem io) s)\<lparr>fs_log := io_log io\<rparr>"
  note f = fill_buffer [OF inv x(1) io(3)]
  note w = buffer_write [OF inv x(1) f(2), where l = "io_log io", folded s'_def]
  have fields: "lru_nodes s' = lru_nodes s" "fs_mem s' = ide_mem io" "fs_log s' = io_log io" "fs_dev s' = fs_dev s"
    "fs_con s' = fs_con s" "lru_cb s' = lru_cb s" "mstart (lru_heap s') = mstart (lru_heap s)" "mend (lru_heap s') = mend (lru_heap s)"
    by (simp_all add: s'_def set_mem_def fs_mem_def)
  have here: "holds_block (fs_mem s') (value_of x) (dsk (fs_log s)) bno" using f(1) by (simp add: holds_block_def fields)
  have others: "fs_mem s' (value_of z + of_nat i) = fs_mem s (value_of z + of_nat i)" if "z \<in> set (cached_nodes s)" "z \<noteq> x" "i < 1024" for z i
    using other_buffer [OF inv x(1) that] f(2) fields by auto
  have outside: "fs_mem s' (of_nat y) = fs_mem s (of_nat y)"
    if "y < 2 ^ 32" "y < unat (mstart (lru_heap s)) \<or> unat (mend (lru_heap s)) \<le> y" for y
    using f(2) [OF that(1)] that(2) node_in_heap [OF inv x(1)] fields by (auto simp: in_region_def)
  have "holds_block (fs_mem s') (value_of z) (dsk (fs_log s)) (node_key (lru_nodes s z))" if "z \<in> set (cached_nodes s)" for z
    using here x(2) op that others by (cases "z = x") (auto simp: fs_open_def intro: holds_block_cong)
  then have "fs_ok dev dsk n s'" using op w fields io(2,4) by (simp add: fs_ok_def fs_open_def drive_ready_def)
  then show ?thesis using io(1,2) here w(2) fields others outside by (intro exI [of _ s']) (simp add: call_ide_def sec(2) s'_def)
qed

lemma read_block_ok:
  assumes ok: "fs_ok dev dsk (Suc n) s" and b: "bno_ok bno"
  shows "\<exists>a s'. read_block dev bno s = Some (Inr (a, s')) \<and> a \<noteq> 0 \<and> fs_ok dev dsk n s' \<and> fs_keeps dsk s s'
    \<and> holds_block (fs_mem s') a (dsk (fs_log s)) bno
    \<and> (\<exists>x\<in>set (cached_nodes s'). a = value_of x \<and> node_key (lru_nodes s' x) = bno)"
proof (cases "bno \<in> set (cached_keys s)")
  case True
  then obtain a s' where "Get kCacheSize bno s = Inr (a, s')" "a \<noteq> 0" "fs_ok dev dsk (Suc n) s'" "fs_keeps dsk s s'"
    "holds_block (fs_mem s') a (dsk (fs_log s)) bno"
    "\<exists>x\<in>set (cached_nodes s'). a = value_of x \<and> node_key (lru_nodes s' x) = bno"
    using Get_ok [OF ok] by blast
  then show ?thesis using fs_ok_less by (auto simp: read_block_def)
next
  case False
  have inv: "lru_invar kCacheSize sizeof_block_buffer s" using ok by (simp add: fs_ok_def)
  have miss: "Get kCacheSize bno s = Inr (0, s)"
    using Get_miss [of kCacheSize sizeof_block_buffer s "cached_nodes s" bno] inv False by (simp add: lru_invar_def cached_keys_def)
  from Alloc_open [OF ok False] obtain x s1 where x: "Alloc (uncache dev) kCacheSize sizeof_block_buffer bno s = Some (Inr (value_of x, s1))"
    "value_of x \<noteq> 0" "fs_open dev dsk n bno x s1" "fs_keeps dsk s s1" "x \<notin> set (cached_nodes s)" by blast
  have op: "x \<in> set (cached_nodes s1)" "node_key (lru_nodes s1 x) = bno" "dsk (fs_log s1) = dsk (fs_log s)"
    using x(3,4) by (simp_all add: fs_open_def fs_keeps_def)
  from read_closes [OF x(3) b] obtain s2 where s2:
    "call_ide (ide_read_secs dev (fs_dev s1) (block_to_sector bno) (value_of x) (block_to_sector 1)) s1 = Some (Inr (0, s2))" "fs_ok dev dsk n s2"
    "holds_block (fs_mem s2) (value_of x) (dsk (fs_log s)) bno" "cached_nodes s2 = cached_nodes s1" "lru_nodes s2 = lru_nodes s1"
    "dsk (fs_log s2) = dsk (fs_log s)" "fs_dev s2 = fs_dev s1" "fs_con s2 = fs_con s1" "lru_cb s2 = lru_cb s1"
    "mstart (lru_heap s2) = mstart (lru_heap s1)" "mend (lru_heap s2) = mend (lru_heap s1)"
    "\<forall>y<2 ^ 32. y < unat (mstart (lru_heap s1)) \<or> unat (mend (lru_heap s1)) \<le> y \<longrightarrow> fs_mem s2 (of_nat y) = fs_mem s1 (of_nat y)"
    "\<forall>z\<in>set (cached_nodes s1). z \<noteq> x \<longrightarrow> (\<forall>i<1024. fs_mem s2 (value_of z + of_nat i) = fs_mem s1 (value_of z + of_nat i))"
    unfolding op(3) by blast
  have "fs_keeps dsk s s2" using x(4,5) s2(4-13) unfolding fs_keeps_def by auto
  moreover have "read_block dev bno s = Some (Inr (value_of x, s2))" using miss x(1) s2(1) by (simp add: read_block_def)
  ultimately show ?thesis using x(2) s2(2-5) op(1,2) by auto
qed

text \<open>An empty cache over a heap that is one free block.\<close>

definition cache_empty :: "fs \<Rightarrow> bool" where
  "cache_empty s \<longleftrightarrow> lru_queue s = 0 \<and> lru_pool s = 0 \<and> lru_table s = (\<lambda>_. 0) \<and> lru_count s = 0"

lemma empty_cache_ok:
  assumes "drive_ready dev dsk s" and "ide_device_valid (fs_dev s)" and "cache_empty s"
    and "il_invar (lru_heap s)" and "0 < mstart (lru_heap s)" and "il_blocks (lru_heap s) = [(0xFFFFFC, False)]" and n: "n \<le> 307"
  shows "fs_ok dev dsk n s"
proof -
  have "lru_list kCacheSize sizeof_block_buffer s []" using assms(3-5)
    by (simp add: lru_list_def queue_list_def slots_def bij_betw_def cache_empty_def kCacheSize_def sizeof_ListNode_def layout_sizes kBlockSize_def)
  note l = lru_invarI [OF this]
  have "heap_room n (lru_heap s)" unfolding heap_room_def
    using n assms(6) by (intro disjI2 exI [of _ "[]"] exI [of _ "0xFFFFFC"]) simp
  then show ?thesis using n l assms(1,2) by (simp add: fs_ok_def lru_keys_def kCacheSize_def)
qed

section \<open>Zones\<close>

text \<open>Entry \<open>i\<close> of a block of 16-bit zone numbers on the disk, and the block of a zone of an inode whose
  zone numbers are \<open>zs\<close>: seven direct ones, one indirect and one doubly indirect block.\<close>

definition disk_half :: "(nat \<Rightarrow> u32) \<Rightarrow> u16 \<Rightarrow> nat \<Rightarrow> u16" where
  "disk_half d bno i = (let w = d (256 * unat bno + i div 2) in if even i then ucast w else ucast (drop_bit 16 w))"

definition zone_block :: "(nat \<Rightarrow> u32) \<Rightarrow> (nat \<Rightarrow> u16) \<Rightarrow> nat \<Rightarrow> u16" where
  "zone_block d zs zone =
     (if zone < 7 then zs zone
      else if zone < 519 then disk_half d (zs 7) (zone - 7)
      else disk_half d (disk_half d (zs 8) ((zone - 519) div 512)) ((zone - 519) mod 512))"

lemma read16_halves:
  "ucast (read32 m a) = read16 m a" "ucast (drop_bit 16 (read32 m a)) = read16 m (a + 2)"
  unfolding read32_def read16_def by (rule bit_eqI; auto simp: bit_simps algebra_simps dest: bit_imp_le_length)+

lemma unat_zone_number: "unat (ucast (z :: u16) :: u32) = unat z" and zone_number_less: "unat (z :: u16) < 65536"
proof -
  show "unat z < 65536" using unsigned_less [of z, where 'a = nat] by simp
  then show "unat (ucast z :: u32) = unat z" by (simp add: unsigned_ucast_eq take_bit_nat_eq_self)
qed

lemma zone_entry_half:
  assumes "holds_block m a d (ucast bno)" and "i < 512"
  shows "zone_entry m a (of_nat i) = disk_half d bno i"
proof -
  define k where "k = i div 2"
  have w: "read32 m (a + of_nat (4 * k)) = d (256 * unat bno + k)"
    using assms by (simp add: holds_block_def unat_zone_number k_def)
  have "i = 2 * k \<or> i = 2 * k + 1" unfolding k_def by presburger
  then show ?thesis using w read16_halves [of m "a + of_nat (4 * k)"]
    by (elim disjE) (simp_all add: zone_entry_def disk_half_def algebra_simps)
qed

lemma bno_ok_zone: "bno_ok (ucast (z :: u16))"
  using zone_number_less [of z] by (simp add: bno_ok_def unat_zone_number)

text \<open>A read of the block that entry \<open>i\<close> of a block of zone numbers names.\<close>

lemma read_entry_ok:
  assumes ok: "fs_ok dev dsk (Suc n) s" and h: "holds_block (fs_mem s) a (dsk (fs_log s)) (ucast bno)" and i: "unat i < 512"
  shows "\<exists>b s'. read_block dev (ucast (zone_entry (fs_mem s) a i)) s = Some (Inr (b, s')) \<and> b \<noteq> 0
    \<and> fs_ok dev dsk n s' \<and> fs_keeps dsk s s'
    \<and> holds_block (fs_mem s') b (dsk (fs_log s)) (ucast (disk_half (dsk (fs_log s)) bno (unat i)))
    \<and> (\<exists>x\<in>set (cached_nodes s'). b = value_of x)"
  using read_block_ok [OF ok bno_ok_zone, of "zone_entry (fs_mem s) a i"] zone_entry_half [OF h i] by auto

text \<open>An indirect zone: the block that holds the zone numbers, then the block an entry of it names.\<close>

lemma read_indirect_ok:
  assumes ok: "fs_ok dev dsk (Suc (Suc n)) s" and i: "unat i < 512"
  shows "\<exists>a s1 b s2. read_block dev (ucast z) s = Some (Inr (a, s1))
    \<and> read_block dev (ucast (zone_entry (fs_mem s1) a i)) s1 = Some (Inr (b, s2)) \<and> b \<noteq> 0 \<and> fs_ok dev dsk n s2 \<and> fs_keeps dsk s s2
    \<and> holds_block (fs_mem s2) b (dsk (fs_log s)) (ucast (disk_half (dsk (fs_log s)) z (unat i)))
    \<and> (\<exists>x\<in>set (cached_nodes s2). b = value_of x)"
proof -
  obtain a s1 where s1: "read_block dev (ucast z) s = Some (Inr (a, s1))" "fs_ok dev dsk (Suc n) s1" "fs_keeps dsk s s1"
    "holds_block (fs_mem s1) a (dsk (fs_log s)) (ucast z)"
    using read_block_ok [OF ok bno_ok_zone, of z] by blast
  then have d: "dsk (fs_log s1) = dsk (fs_log s)" by (simp add: fs_keeps_def)
  from read_entry_ok [OF s1(2) _ i, of a z] s1(4) fs_keeps_trans [OF s1(3)] s1(1) show ?thesis
    unfolding d by blast
qed

lemma read_zone_ok:
  assumes ok: "fs_ok dev dsk (n + 3) s" and z: "unat zone < 7 + 512 + 512 * 512"
  shows "\<exists>a s'. read_zone dev inode zone s = Some (Inr (a, s')) \<and> a \<noteq> 0 \<and> fs_ok dev dsk n s' \<and> fs_keeps dsk s s'
    \<and> holds_block (fs_mem s') a (dsk (fs_log s))
        (ucast (zone_block (dsk (fs_log s)) (inode_zone (fs_mem s) inode) (unat zone)))
    \<and> (\<exists>x\<in>set (cached_nodes s'). a = value_of x)"
proof -
  let ?zs = "inode_zone (fs_mem s) inode" and ?d = "dsk (fs_log s)"
  have ok3: "fs_ok dev dsk (Suc (Suc (Suc n))) s" using ok by (simp add: eval_nat_numeral)
  consider "zone < 7" | "\<not> zone < 7" "zone < 519" | "\<not> zone < 519" by blast
  then show ?thesis
  proof cases
    case 1
    then have "unat zone < 7" by (simp add: word_less_nat_alt)
    with 1 read_block_ok [OF fs_ok_less [OF fs_ok_less [OF ok3]] bno_ok_zone, of "?zs (unat zone)"] show ?thesis
      by (auto simp: read_zone_def zone_block_def)
  next
    case 2
    then have u: "\<not> unat zone < 7" "unat zone < 519" "unat (zone - 7) = unat zone - 7"
      by (simp_all add: word_less_nat_alt unat_sub word_le_nat_alt)
    then have "unat (zone - 7) < 512" by simp
    from read_indirect_ok [OF fs_ok_less [OF ok3] this, of "?zs 7"] show ?thesis
      using u 2 by (auto simp: read_zone_def zone_block_def)
  next
    case 3
    then have u: "\<not> unat zone < 519" "unat (zone - 519) = unat zone - 519" "\<not> zone < 7"
      by (simp_all add: word_less_nat_alt unat_sub word_le_nat_alt)
    have q: "unat ((zone - 519) div 512) = (unat zone - 519) div 512" "unat ((zone - 519) mod 512) = (unat zone - 519) mod 512"
      by (simp_all add: unat_div unat_mod u(2))
    have lt: "unat ((zone - 519) div 512) < 512" "unat ((zone - 519) mod 512) < 512"
      unfolding q using z by (auto simp: less_mult_imp_div_less)
    obtain a s1 b s2 where s2: "read_block dev (ucast (?zs 8)) s = Some (Inr (a, s1))"
      "read_block dev (ucast (zone_entry (fs_mem s1) a ((zone - 519) div 512))) s1 = Some (Inr (b, s2))"
      "fs_ok dev dsk (Suc n) s2" "fs_keeps dsk s s2"
      "holds_block (fs_mem s2) b ?d (ucast (disk_half ?d (?zs 8) ((unat zone - 519) div 512)))"
      using read_indirect_ok [OF ok3 lt(1), of "?zs 8"] unfolding q by blast
    then have d: "dsk (fs_log s2) = ?d" by (simp add: fs_keeps_def)
    from read_entry_ok [OF s2(3) _ lt(2)] s2(5) show ?thesis
      unfolding d q using s2(1,2) u(1,3) 3 fs_keeps_trans [OF s2(4)] by (fastforce simp: read_zone_def zone_block_def)
  qed
qed

section \<open>Directories\<close>

definition disk_byte :: "(nat \<Rightarrow> u32) \<Rightarrow> u16 \<Rightarrow> nat \<Rightarrow> u8" where
  "disk_byte d bno j = ucast (drop_bit (8 * (j mod 4)) (d (256 * unat bno + j div 4)))"

text \<open>Entry \<open>i\<close> of a directory on the disk, whose zones are given by \<open>zs\<close>: its inode number and its
  name, which ends within the 30 bytes of the field.\<close>

definition disk_entry :: "(nat \<Rightarrow> u32) \<Rightarrow> (nat \<Rightarrow> u16) \<Rightarrow> nat \<Rightarrow> u16 \<times> u8 list \<Rightarrow> bool" where
  "disk_entry d zs i e \<longleftrightarrow> (let b = zone_block d zs (i div 32); off = 32 * (i mod 32); nm = snd e in
     disk_half d b (off div 2) = fst e \<and> length nm < 30 \<and> 0 \<notin> set nm
     \<and> (\<forall>j<length nm. disk_byte d b (off + 2 + j) = nm ! j) \<and> disk_byte d b (off + 2 + length nm) = 0)"

definition block_byte :: "(nat \<Rightarrow> u32) \<Rightarrow> u32 \<Rightarrow> nat \<Rightarrow> u8" where
  "block_byte d b j = ucast (drop_bit (8 * (j mod 4)) (d (256 * unat b + j div 4)))"

lemma holds_block_bytes:
  assumes "holds_block m a d b" and "j < 1024"
  shows "m (a + of_nat j) = block_byte d b j"
proof -
  let ?a = "a + of_nat (4 * (j div 4))"
  have w: "read32 m ?a = d (256 * unat b + j div 4)" using assms by (simp add: holds_block_def)
  have "(of_nat j :: u32) = of_nat (4 * (j div 4) + j mod 4)" by (simp only: mult_div_mod_eq)
  then have j: "a + of_nat j = ?a + of_nat (j mod 4)" by (simp only: of_nat_add add.assoc)
  have "j mod 4 = 0 \<or> j mod 4 = 1 \<or> j mod 4 = 2 \<or> j mod 4 = 3" by presburger
  then show ?thesis using read32_bytes [of m ?a] unfolding block_byte_def j w [symmetric]
    by (elim disjE) simp_all
qed

lemma holds_block_byte:
  assumes "holds_block m a d (ucast bno)" and "j < 1024"
  shows "m (a + of_nat j) = disk_byte d bno j"
  using holds_block_bytes [OF assms] by (simp add: block_byte_def disk_byte_def unat_zone_number)

lemma cstrI:
  assumes "0 \<notin> set xs" and "\<And>j. j < length xs \<Longrightarrow> m (a + of_nat j) = xs ! j" and "m (a + of_nat (length xs)) = 0"
  shows "cstr m a xs"
  using assms
proof (induction xs arbitrary: a)
  case (Cons x xs)
  have "m (a + 1 + of_nat j) = xs ! j" if "j < length xs" for j using Cons.prems(2) [of "Suc j"] that by (simp add: algebra_simps)
  then have "cstr m (a + 1) xs" using Cons by (intro Cons.IH) (auto simp: algebra_simps)
  then show ?case using Cons.prems(1) Cons.prems(2) [of 0] by simp
qed simp

text \<open>An entry of a cached zone as the code reads it.\<close>

lemma entry_read:
  assumes h: "holds_block m a d (ucast (zone_block d zs (i div 32)))" and e: "disk_entry d zs i e"
    and p: "p = a + of_nat (32 * (i mod 32))"
  shows "entry_inode m p = fst e" and "cstr m (entry_name p) (snd e)"
proof -
  let ?b = "zone_block d zs (i div 32)" and ?r = "i mod 32"
  have e': "disk_half d ?b (16 * ?r) = fst e" "length (snd e) < 30" "0 \<notin> set (snd e)"
    "\<forall>j<length (snd e). disk_byte d ?b (32 * ?r + 2 + j) = snd e ! j" "disk_byte d ?b (32 * ?r + 2 + length (snd e)) = 0"
    using e by (simp_all add: disk_entry_def Let_def)
  have "16 * ?r < 512" by simp
  from zone_entry_half [OF h this] e'(1) show "entry_inode m p = fst e"
    by (simp add: p field_accesses zone_entry_def)
  have byte: "m (entry_name p + of_nat j) = disk_byte d ?b (32 * ?r + 2 + j)" if "j < 30" for j
  proof -
    have "?r < 32" by simp
    then have "32 * ?r + 2 + j < 1024" using that by linarith
    from holds_block_byte [OF h this] show ?thesis by (simp add: p field_accesses algebra_simps)
  qed
  show "cstr m (entry_name p) (snd e)" by (rule cstrI) (use e' byte in auto)
qed

text \<open>Memory outside of the heap, where the inode table and the names that are looked up lie.\<close>

definition off_heap :: "fs \<Rightarrow> u32 \<Rightarrow> nat \<Rightarrow> bool" where
  "off_heap s a n \<longleftrightarrow> unat a + n \<le> 2 ^ 32
     \<and> (unat a + n \<le> unat (mstart (lru_heap s)) \<or> unat (mend (lru_heap s)) \<le> unat a)"

lemma off_heap_keeps:
  assumes "fs_keeps dsk s s'" and "off_heap s a n"
  shows "off_heap s' a n" and "\<And>i. i < n \<Longrightarrow> fs_mem s' (a + of_nat i) = fs_mem s (a + of_nat i)"
proof -
  show "off_heap s' a n" using assms by (simp add: off_heap_def fs_keeps_def)
  fix i assume i: "i < n"
  have a: "a + of_nat i = of_nat (unat a + i)" by simp
  have o: "\<forall>y<2 ^ 32. y < unat (mstart (lru_heap s)) \<or> unat (mend (lru_heap s)) \<le> y \<longrightarrow> fs_mem s' (of_nat y) = fs_mem s (of_nat y)"
    using assms(1) by (simp add: fs_keeps_def)
  have "fs_mem s' (of_nat (unat a + i)) = fs_mem s (of_nat (unat a + i))"
    by (rule o [rule_format]) (use assms(2) i in \<open>auto simp: off_heap_def\<close>)
  then show "fs_mem s' (a + of_nat i) = fs_mem s (a + of_nat i)" unfolding a .
qed

lemma inode_zone_keeps:
  assumes "fs_keeps dsk s s'" and "off_heap s p 56" and "i < 9"
  shows "inode_zone (fs_mem s') p i = inode_zone (fs_mem s) p i"
  using off_heap_keeps(2) [OF assms(1,2), of "14 + 2 * i"] off_heap_keeps(2) [OF assms(1,2), of "15 + 2 * i"] assms(3)
  by (simp add: field_accesses read16_def algebra_simps)

lemma zone_block_cong: "(\<And>i. i < 9 \<Longrightarrow> zs i = zs' i) \<Longrightarrow> zone_block d zs z = zone_block d zs' z"
  by (simp add: zone_block_def)

lemma cstr_keeps:
  assumes "fs_keeps dsk s s'" and "off_heap s a (Suc (length xs))" and "cstr (fs_mem s) a xs"
  shows "cstr (fs_mem s') a xs"
  using assms(3) off_heap_keeps(2) [OF assms(1,2)] by (elim cstr_cong) simp

lemma fs_ok_mono: "fs_ok dev dsk n s \<Longrightarrow> k \<le> n \<Longrightarrow> fs_ok dev dsk k s"
  by (induction n) (auto simp: le_Suc_eq dest: fs_ok_less)

text \<open>What a loop over directory entries needs to know of the state: the directory and the name that is
  looked up lie outside of the heap.\<close>

definition dir_state :: "disk \<Rightarrow> (nat \<Rightarrow> u32) \<Rightarrow> (nat \<Rightarrow> u16) \<Rightarrow> u32 \<Rightarrow> u32 \<Rightarrow> u8 list \<Rightarrow> fs \<Rightarrow> bool" where
  "dir_state dsk d zs dir name nm s \<longleftrightarrow> dsk (fs_log s) = d \<and> off_heap s dir 56
     \<and> (\<forall>j<9. inode_zone (fs_mem s) dir j = zs j) \<and> off_heap s name (Suc (length nm)) \<and> cstr (fs_mem s) name nm"

lemma dir_state_keeps: "fs_keeps dsk s s' \<Longrightarrow> dir_state dsk d zs dir name nm s \<Longrightarrow> dir_state dsk d zs dir name nm s'"
  unfolding dir_state_def
  by (auto simp: inode_zone_keeps off_heap_keeps(1) intro: cstr_keeps) (simp add: fs_keeps_def)

definition zone_at :: "fs \<Rightarrow> (nat \<Rightarrow> u32) \<Rightarrow> (nat \<Rightarrow> u16) \<Rightarrow> nat \<Rightarrow> u32 \<Rightarrow> bool" where
  "zone_at s d zs c a \<longleftrightarrow> holds_block (fs_mem s) a d (ucast (zone_block d zs c)) \<and> (\<exists>x\<in>set (cached_nodes s). a = value_of x)"

lemma value_in_range:
  assumes "lru_invar kCacheSize sizeof_block_buffer s" and "x \<in> set (cached_nodes s)"
  shows "unat (value_of x) + 1024 < 2 ^ 32"
  using node_in_heap [OF assms] unat_u32_lt [of "mend (lru_heap s)"] by (simp add: value_of_def unat_word_ariths)

text \<open>The loop moves to the next zone exactly when an entry would lie behind the current one.\<close>

text \<open>Items of one size, \<open>q\<close> to a block: the position of item \<open>i\<close> relative to the block of its predecessor.\<close>

lemma item_position:
  fixes i q :: nat
  assumes "0 < q"
  defines "c \<equiv> (i - 1) div q"
  shows "q * c \<le> i" and "i - q * c \<le> q"
    and "i - q * c \<noteq> q \<Longrightarrow> i div q = c" and "i - q * c \<noteq> q \<Longrightarrow> i mod q = i - q * c"
    and "i - q * c = q \<Longrightarrow> i div q = Suc c" and "i - q * c = q \<Longrightarrow> i mod q = 0"
proof -
  have d: "i - 1 = q * c + (i - 1) mod q" "(i - 1) mod q < q" using assms(1) by (simp_all add: c_def)
  then show le: "q * c \<le> i" and b: "i - q * c \<le> q" by linarith+
  obtain r where r: "i = q * c + r" using le by (metis le_Suc_ex)
  show "i div q = c" "i mod q = i - q * c" if "i - q * c \<noteq> q" using that b unfolding r by simp_all
  show "i div q = Suc c" "i mod q = 0" if "i - q * c = q" using that assms(1) unfolding r by simp_all
qed

lemma block_end:
  assumes "unat a + 1024 < 2 ^ 32" and "isz * q = 1024" and "j \<le> q"
  shows "a + kBlockSize \<le> a + of_nat (isz * j) \<longleftrightarrow> j = q"
proof -
  have le: "isz * j \<le> 1024" using assms(2,3) by (metis mult_le_mono2)
  have "unat (a + of_nat (isz * j)) = unat a + isz * j" using assms(1) le by (simp add: unat_word_ariths unat_of_nat del: of_nat_mult)
  moreover have "unat (a + 1024) = unat a + 1024" using assms(1) by (simp add: unat_word_ariths)
  moreover have "0 < isz" using assms(2) by (cases isz) simp_all
  ultimately show ?thesis using assms(2,3) le
    by (auto simp: kBlockSize_def word_le_nat_alt) (metis mult_le_cancel1 le_antisym)
qed

lemmas entry_position = item_position [of 32, OF zero_less_numeral]

lemma zone_end:
  assumes "unat a + 1024 < 2 ^ 32" and "j \<le> 32"
  shows "a + kZoneSize \<le> a + of_nat (32 * j) \<longleftrightarrow> j = 32"
  using block_end [of a 32 32 j] assms by (simp add: kZoneSize_def kZoneBlockFactor_def)

lemma zone_count_small: "fs_ok dev dsk (3 * c + k) s \<Longrightarrow> c < 103"
  by (simp add: fs_ok_def kCacheSize_def)

abbreviation name_cb :: "u32 \<Rightarrow> u32 \<Rightarrow> fs \<Rightarrow> (bool \<times> fs) result option" where
  "name_cb name \<equiv> (\<lambda>entry s. map_option (\<lambda>r. Inr (r = 0, s)) (strcmp (fs_mem s) (entry_name entry) name))"

text \<open>Reaching entry \<open>i\<close>: one step of the loop before the callback.\<close>

lemma traverse_reach:
  assumes i: "i < L" and c: "c = (i - 1) div 32" and ok: "fs_ok dev dsk (3 * ((L - 1) div 32 - c) + k) s"
    and L: "(L - 1) div 32 < 519" and st: "dir_state dsk d zs dir name nm s" and z: "zone_at s d zs c a"
  shows "\<exists>b s'. traverse_loop dev im dir cb (Suc n) (of_nat c) a (a + of_nat (32 * (i - 32 * c))) s =
      robind (cb (b + of_nat (32 * (i mod 32))) s') (\<lambda>(stop, s'').
        if stop then Some (Inr (inode_at im (ucast (entry_inode (fs_mem s'') (b + of_nat (32 * (i mod 32))))), s''))
        else traverse_loop dev im dir cb n (of_nat (i div 32)) b (b + of_nat (32 * (i mod 32)) + sizeof_dir_entry) s'')
    \<and> fs_ok dev dsk (3 * ((L - 1) div 32 - i div 32) + k) s' \<and> fs_keeps dsk s s' \<and> zone_at s' d zs (i div 32) b"
proof -
  obtain x where x: "x \<in> set (cached_nodes s)" "a = value_of x" using z by (auto simp: zone_at_def)
  have "lru_invar kCacheSize sizeof_block_buffer s" using ok by (simp add: fs_ok_def)
  from value_in_range [OF this x(1)] have a: "unat a + 1024 < 2 ^ 32" by (simp add: x(2))
  have j: "i - 32 * c \<le> 32" unfolding c by (rule entry_position)
  note e = zone_end [OF a j]
  show ?thesis
  proof (cases "i - 32 * c = 32")
    case False
    then have iv: "i div 32 = c" "i mod 32 = i - 32 * c"
      unfolding c using entry_position(3,4) [of i] by blast+
    have "\<not> a + kZoneSize \<le> a + of_nat (32 * (i - 32 * c))" using e False by blast
    then show ?thesis unfolding iv
      by (intro exI [of _ a] exI [of _ s]) (simp only: traverse_loop.simps Let_def if_False ok z fs_keeps_refl simp_thms)
  next
    case True
    then have iv: "i div 32 = Suc c" "i mod 32 = 0" unfolding c using entry_position(5,6) [of i] by blast+
    have le: "i div 32 \<le> (L - 1) div 32" using i by (intro div_le_mono) simp
    then have "3 * ((L - 1) div 32 - c) + k = 3 * ((L - 1) div 32 - i div 32) + k + 3" using iv(1) by simp
    then have ok': "fs_ok dev dsk (3 * ((L - 1) div 32 - i div 32) + k + 3) s" using ok by metis
    have u: "unat (of_nat c + 1 :: u32) = Suc c" using le L iv(1) by (simp add: unat_word_ariths unat_of_nat)
    have "unat (of_nat c + 1 :: u32) < 7 + 512 + 512 * 512" using u le L iv(1) by simp
    from read_zone_ok [OF ok' this, of dir] obtain b s' where b: "read_zone dev dir (of_nat c + 1) s = Some (Inr (b, s'))"
      "fs_ok dev dsk (3 * ((L - 1) div 32 - i div 32) + k) s'" "fs_keeps dsk s s'"
      "holds_block (fs_mem s') b (dsk (fs_log s)) (ucast (zone_block (dsk (fs_log s)) (inode_zone (fs_mem s) dir) (Suc c)))"
      "\<exists>x\<in>set (cached_nodes s'). b = value_of x" unfolding u by blast
    have "zone_block (dsk (fs_log s)) (inode_zone (fs_mem s) dir) (Suc c) = zone_block d zs (Suc c)"
      using st by (auto simp: dir_state_def intro: zone_block_cong)
    then have "zone_at s' d zs (i div 32) b" using b(4,5) st iv by (auto simp: zone_at_def dir_state_def)
    moreover have "a + kZoneSize \<le> a + of_nat (32 * (i - 32 * c))" using e True by blast
    moreover have "of_nat (Suc c) = (of_nat c + 1 :: u32)" by simp
    moreover have "b + word_of_nat 0 = b" by simp
    ultimately show ?thesis using b(2,3) unfolding iv
      by (intro exI [of _ b] exI [of _ s'])
        (simp only: traverse_loop.simps Let_def if_True b(1) robind_simps prod.case simp_thms mult_0_right)
  qed
qed

lemma next_entry: "b + of_nat (32 * (i mod 32)) + sizeof_dir_entry = b + of_nat (32 * (Suc i - 32 * (i div 32)))"
proof -
  have "Suc i - 32 * (i div 32) = Suc (i mod 32)" using mult_div_mod_eq [of 32 i] by linarith
  then show ?thesis by (simp add: layout_sizes kNameLen_def algebra_simps)
qed

lemma find_loop:
  assumes es: "\<forall>i<length es. disk_entry d zs i (es ! i)" and L: "(length es - 1) div 32 < 519"
  shows "i \<le> length es \<Longrightarrow> c = (i - 1) div 32 \<Longrightarrow> fs_ok dev dsk (3 * ((length es - 1) div 32 - c) + k) s \<Longrightarrow>
    dir_state dsk d zs dir name nm s \<Longrightarrow> zone_at s d zs c a \<Longrightarrow>
    \<exists>s'. traverse_loop dev im dir (name_cb name) (length es - i) (of_nat c) a (a + of_nat (32 * (i - 32 * c))) s =
        Some (Inr (case find (\<lambda>e. prefix (snd e) nm) (drop i es) of None \<Rightarrow> 0 | Some e \<Rightarrow> inode_at im (ucast (fst e)), s'))
      \<and> fs_ok dev dsk k s' \<and> fs_keeps dsk s s'"
proof (induction "length es - i" arbitrary: i c s a)
  case 0
  then show ?case using fs_ok_mono [OF 0(4), of k] by (intro exI [of _ s]) simp
next
  case (Suc n)
  have i: "i < length es" using Suc.hyps(2) by simp
  let ?p = "\<lambda>b. b + of_nat (32 * (i mod 32))"
  obtain b s1 where s1: "traverse_loop dev im dir (name_cb name) (Suc n) (of_nat c) a (a + of_nat (32 * (i - 32 * c))) s =
      robind (name_cb name (?p b) s1) (\<lambda>(stop, s''). if stop then Some (Inr (inode_at im (ucast (entry_inode (fs_mem s'') (?p b))), s''))
        else traverse_loop dev im dir (name_cb name) n (of_nat (i div 32)) b (?p b + sizeof_dir_entry) s'')"
    "fs_ok dev dsk (3 * ((length es - 1) div 32 - i div 32) + k) s1" "fs_keeps dsk s s1" "zone_at s1 d zs (i div 32) b"
    using traverse_reach [OF i Suc.prems(2,3) L Suc.prems(4,5), where n = n and im = im and cb = "name_cb name"] by blast
  have st: "dir_state dsk d zs dir name nm s1" by (rule dir_state_keeps [OF s1(3) Suc.prems(4)])
  have h: "holds_block (fs_mem s1) b d (ucast (zone_block d zs (i div 32)))" using s1(4) by (simp add: zone_at_def)
  note er = entry_read [OF h es [rule_format, OF i] refl]
  have n: "cstr (fs_mem s1) name nm" using st by (simp add: dir_state_def)
  have cb: "name_cb name (?p b) s1 = Some (Inr (prefix (snd (es ! i)) nm, s1))"
    using strcmp_cstr [OF er(2) n] strcmp_list_zero [OF cstr_nonzero [OF er(2)], of nm] by simp
  have d: "drop i es = es ! i # drop (Suc i) es" using i by (simp add: Cons_nth_drop_Suc)
  show ?case
  proof (cases "prefix (snd (es ! i)) nm")
    case True
    then show ?thesis using s1 cb er(1) Suc.hyps(2) fs_ok_mono [OF s1(2), of k] by (intro exI [of _ s1]) (simp add: d)
  next
    case False
    have c: "i div 32 = (Suc i - 1) div 32" by simp
    have n': "n = length es - Suc i" using Suc.hyps(2) by simp
    obtain s' where "traverse_loop dev im dir (name_cb name) (length es - Suc i) (of_nat (i div 32)) b (?p b + sizeof_dir_entry) s1 =
        Some (Inr (case find (\<lambda>e. prefix (snd e) nm) (drop (Suc i) es) of None \<Rightarrow> 0 | Some e \<Rightarrow> inode_at im (ucast (fst e)), s'))"
      "fs_ok dev dsk k s'" "fs_keeps dsk s1 s'"
      using Suc.hyps(1) [OF n' Suc_leI [OF i] c s1(2) st s1(4)] unfolding next_entry [symmetric] by (elim exE conjE) (rule that)
    then show ?thesis using fs_keeps_trans [OF s1(3)] unfolding n' [symmetric] Suc.hyps(2) [symmetric] s1(1) cb
      by (intro exI [of _ s']) (simp del: of_nat_mult add: d False)
  qed
qed

text \<open>The reference for \<open>find_entry\<close>: the inode of the first entry whose name is a prefix of the rest of the path.\<close>

definition lookup_entry :: "fs_image \<Rightarrow> (u16 \<times> u8 list) list \<Rightarrow> u8 list \<Rightarrow> u32" where
  "lookup_entry im es nm = (case find (\<lambda>e. prefix (snd e) nm) es of None \<Rightarrow> 0 | Some e \<Rightarrow> inode_at im (ucast (fst e)))"

lemma inode_fields_keep:
  assumes "fs_keeps dsk s s'" and "off_heap s p 56"
  shows "inode_size (fs_mem s') p = inode_size (fs_mem s) p"
proof -
  have byte: "fs_mem s' (p + 4 + of_nat j) = fs_mem s (p + 4 + of_nat j)" if "j < 4" for j
    using off_heap_keeps(2) [OF assms, of "4 + j"] that by (simp add: add.assoc)
  show ?thesis unfolding field_accesses
    using byte [of 0] byte [of 1] byte [of 2] byte [of 3] by (simp add: read32_def)
qed

text \<open>The start of a traversal: the first zone is read and the entries are counted.\<close>

lemma traverse_dir_start:
  assumes ok: "fs_ok dev dsk (3 * ((L - 1) div 32 + 1) + k) s" and st: "dir_state dsk d zs dir name nm s"
    and dir: "dir \<noteq> 0" "is_directory (inode_mode (fs_mem s) dir)" "unat (inode_size (fs_mem s) dir) div 32 = L"
  shows "\<exists>b s1. traverse_dir dev im dir cb s = traverse_loop dev im dir cb L 0 b b s1
    \<and> fs_ok dev dsk (3 * ((L - 1) div 32) + k) s1 \<and> fs_keeps dsk s s1 \<and> zone_at s1 d zs 0 b"
proof -
  have "fs_ok dev dsk (3 * ((L - 1) div 32) + k + 3) s" using ok by (simp add: algebra_simps)
  from read_zone_ok [OF this, of 0 dir] obtain b s1 where b: "read_zone dev dir 0 s = Some (Inr (b, s1))"
    "fs_ok dev dsk (3 * ((L - 1) div 32) + k) s1" "fs_keeps dsk s s1"
    "holds_block (fs_mem s1) b (dsk (fs_log s)) (ucast (zone_block (dsk (fs_log s)) (inode_zone (fs_mem s) dir) 0))"
    "\<exists>x\<in>set (cached_nodes s1). b = value_of x" by (simp) blast
  have off: "off_heap s dir 56" using st by (simp add: dir_state_def)
  have "zone_block (dsk (fs_log s)) (inode_zone (fs_mem s) dir) 0 = zone_block d zs 0"
    using st by (auto simp: dir_state_def intro: zone_block_cong)
  then have z: "zone_at s1 d zs 0 b" using b(4,5) st by (auto simp: zone_at_def dir_state_def)
  have "unat (inode_size (fs_mem s1) dir div sizeof_dir_entry) = L"
    using dir(3) by (simp add: inode_fields_keep [OF b(3) off] layout_sizes kNameLen_def unat_div)
  then show ?thesis using b(1-3) z dir(1,2) by (auto simp: traverse_dir_def)
qed

lemma find_entry_ok:
  assumes ok: "fs_ok dev dsk (3 * ((length es - 1) div 32 + 1) + k) s" and st: "dir_state dsk d zs dir name nm s"
    and dir: "dir \<noteq> 0" "is_directory (inode_mode (fs_mem s) dir)" "unat (inode_size (fs_mem s) dir) div 32 = length es"
    and es: "\<forall>i<length es. disk_entry d zs i (es ! i)"
  shows "\<exists>s'. find_entry dev im dir name s = Some (Inr (lookup_entry im es nm, s')) \<and> fs_ok dev dsk k s' \<and> fs_keeps dsk s s'"
proof -
  let ?c = "(length es - 1) div 32"
  have L: "?c < 519" using zone_count_small [OF ok] by linarith
  obtain b s1 where s1: "traverse_dir dev im dir (name_cb name) s = traverse_loop dev im dir (name_cb name) (length es) 0 b b s1"
    "fs_ok dev dsk (3 * ?c + k) s1" "fs_keeps dsk s s1" "zone_at s1 d zs 0 b"
    using traverse_dir_start [OF ok st dir, where im = im and cb = "name_cb name"] by (elim exE conjE) (rule that)
  then show ?thesis
    using find_loop [OF es L, of 0 0 dev dsk k s1 dir name nm b im] dir(1,2) dir_state_keeps [OF s1(3) st] fs_keeps_trans [OF s1(3)]
    by (auto simp: find_entry_def lookup_entry_def)
qed

text \<open>Writing a cached block puts the words of its buffer on the disk and changes nothing else of it.\<close>

lemma write_block_ok:
  assumes dev: "drive_ready dev dsk s" "ide_device_valid (fs_dev s)" and inv: "lru_invar kCacheSize sizeof_block_buffer s"
    and b: "bno_ok bno" and x: "x \<in> set (cached_nodes s)" "node_key (lru_nodes s x) = bno"
  shows "\<exists>s'. write_block dev bno s = Some (Inr (True, s')) \<and> lru_invar kCacheSize sizeof_block_buffer s'
    \<and> cached_keys s' = spec_get bno (cached_keys s) \<and> set (cached_nodes s') = set (cached_nodes s)
    \<and> fs_mem s' = fs_mem s \<and> holds_block (fs_mem s') (value_of x) (dsk (fs_log s')) bno
    \<and> (\<forall>w. w \<notin> {256 * unat bno..<256 * unat bno + 256} \<longrightarrow> dsk (fs_log s') w = dsk (fs_log s) w)
    \<and> (\<forall>y. node_key (lru_nodes s' y) = node_key (lru_nodes s y)) \<and> lru_heap s' = lru_heap s \<and> lru_cb s' = lru_cb s
    \<and> fs_dev s' = fs_dev s \<and> fs_con s' = fs_con s \<and> drive_ready dev dsk s'"
proof -
  have k: "bno \<in> set (cached_keys s)" using x by (auto simp: cached_keys_def lru_keys_def)
  obtain y s1 where g: "Get kCacheSize bno s = Inr (value_of y, s1)" "lru_invar kCacheSize sizeof_block_buffer s1"
    "cached_keys s1 = spec_get bno (cached_keys s)" "y \<in> set (cached_nodes s)" "value_of y \<noteq> 0"
    "node_key (lru_nodes s y) = bno" "set (cached_nodes s1) = set (cached_nodes s)"
    "lru_heap s1 = lru_heap s" "lru.more s1 = lru.more s" "\<forall>y. node_key (lru_nodes s1 y) = node_key (lru_nodes s y)" "lru_cb s1 = lru_cb s"
    using Get_keys [OF inv, of bno] k by auto
  have y: "y = x" using inv x g(4,6) by (auto simp: lru_invar_def lru_list_def lru_keys_def distinct_map inj_on_def)
  have more: "fs_log s1 = fs_log s" "fs_dev s1 = fs_dev s" "fs_mem s1 = fs_mem s" "fs_con s1 = fs_con s"
    using g(8,9) by (cases s; cases s1; simp add: fs_mem_def)+
  note sec = bno_sectors [OF b]
  obtain io where io: "ide_write_secs dev (fs_dev s1) (block_to_sector bno) (value_of x) 2 \<lparr>ide_mem = fs_mem s1, io_log = fs_log s1\<rparr>
      = Some (Inr (0, io))" "ide_mem io = fs_mem s1"
    "dsk (io_log io) = put_words (dsk (fs_log s)) (256 * unat bno) (map (\<lambda>i. read32 (fs_mem s) (value_of x + of_nat (4 * i))) [0..<256])"
      "ata_idle dev (io_log io)"
    using ide_write_transfer [OF _ _ dev(2) [folded more(2)] sec(3), of dev dsk "\<lparr>ide_mem = fs_mem s1, io_log = fs_log s1\<rparr>" "value_of x"] dev(1)
    by (auto simp: sec(1,2) more drive_ready_def)
  define s2 where "s2 = (set_mem (ide_mem io) s1)\<lparr>fs_log := io_log io\<rparr>"
  have wb: "write_block dev bno s = Some (Inr (True, s2))"
    using g(1,5) io(1) by (simp add: write_block_def call_ide_def sec(2) s2_def y)
  have s2: "s2 = s1\<lparr>fs_log := io_log io\<rparr>" unfolding s2_def io(2) by (cases s1) (simp add: set_mem_def fs_mem_def)
  have "lru_invar kCacheSize sizeof_block_buffer s2" "cached_keys s2 = cached_keys s1" "cached_nodes s2 = cached_nodes s1"
    "fs_mem s2 = fs_mem s" using g(2) unfolding s2
    by (simp_all add: lru_invar_def lru_list_def queue_list_def lru_keys_def cached_nodes_def cached_keys_def fs_mem_def more [unfolded fs_mem_def])
  moreover have "dsk (fs_log s2) = dsk (io_log io)" "drive_ready dev dsk s2" using dev(1) io(4) by (simp_all add: s2 drive_ready_def)
  moreover have "lru_nodes s2 = lru_nodes s1" "lru_heap s2 = lru_heap s1" "lru_cb s2 = lru_cb s1" "fs_dev s2 = fs_dev s1" "fs_con s2 = fs_con s1"
    by (simp_all add: s2)
  ultimately show ?thesis using wb g(3,7,8,10,11) io(3) more by (auto simp: holds_block_def put_words_def)
qed

section \<open>Path names\<close>

text \<open>The reference for \<open>namei\<close>: one lookup per component, each with the whole rest of the path.\<close>

function path_walk :: "(u32 \<Rightarrow> u8 list \<Rightarrow> u32) \<Rightarrow> u32 \<Rightarrow> u8 list \<Rightarrow> u32 result" where
  "path_walk look ino path = (if ino = 0 then Inl NullDeref
     else case dropWhile (\<lambda>c. c \<noteq> 0x2F) path of
       [] \<Rightarrow> Inr (look ino path)
     | _ # rest \<Rightarrow> path_walk look (look ino path) rest)"
  by pat_completeness auto
termination
  by (relation "measure (\<lambda>(_, _, path). length path)")
    (auto simp: Suc_le_eq [symmetric] intro: order_trans [OF _ length_dropWhile_le [of "\<lambda>c. c \<noteq> 0x2F"]])

declare path_walk.simps [simp del]

text \<open>A tree of inodes in memory whose directories, the arguments where \<open>D\<close> is defined, are on the disk:
  \<open>I\<close> holds the root and every inode that a directory of \<open>I\<close> names, and no directory has more than \<open>K\<close> zones.\<close>

definition dir_tree :: "disk \<Rightarrow> fs_image \<Rightarrow> (u32 \<rightharpoonup> (u16 \<times> u8 list) list) \<Rightarrow> u32 set \<Rightarrow> nat \<Rightarrow> fs \<Rightarrow> bool" where
  "dir_tree dsk im D I K s \<longleftrightarrow> (\<forall>p\<in>I. p \<noteq> 0 \<longrightarrow> off_heap s p 56 \<and> (case D p of
       None \<Rightarrow> \<not> is_directory (inode_mode (fs_mem s) p)
     | Some es \<Rightarrow> is_directory (inode_mode (fs_mem s) p) \<and> unat (inode_size (fs_mem s) p) div 32 = length es
         \<and> (\<forall>i<length es. disk_entry (dsk (fs_log s)) (inode_zone (fs_mem s) p) i (es ! i))
         \<and> (length es - 1) div 32 < K \<and> (\<forall>e\<in>set es. inode_at im (ucast (fst e)) \<in> I)))"

definition tree_look :: "fs_image \<Rightarrow> (u32 \<rightharpoonup> (u16 \<times> u8 list) list) \<Rightarrow> u32 \<Rightarrow> u8 list \<Rightarrow> u32" where
  "tree_look im D ino path = (case D ino of None \<Rightarrow> 0 | Some es \<Rightarrow> lookup_entry im es path)"

lemma inode_mode_keeps:
  assumes "fs_keeps dsk s s'" and "off_heap s p 56"
  shows "inode_mode (fs_mem s') p = inode_mode (fs_mem s) p"
  using off_heap_keeps(2) [OF assms, of 0] off_heap_keeps(2) [OF assms, of 1]
  by (simp add: field_accesses read16_def)

lemma disk_entry_cong: "(\<And>i. i < 9 \<Longrightarrow> zs i = zs' i) \<Longrightarrow> disk_entry d zs i e = disk_entry d zs' i e"
  using zone_block_cong [of zs zs' d "i div 32"] by (simp add: disk_entry_def)

lemma dir_tree_keeps:
  assumes k: "fs_keeps dsk s s'" and t: "dir_tree dsk im D I K s"
  shows "dir_tree dsk im D I K s'"
proof -
  have "dsk (fs_log s') = dsk (fs_log s)" using k by (simp add: fs_keeps_def)
  moreover have "disk_entry d (inode_zone (fs_mem s') p) i e = disk_entry d (inode_zone (fs_mem s) p) i e"
    if "off_heap s p 56" for d p i e
    by (rule disk_entry_cong) (rule inode_zone_keeps [OF k that])
  ultimately show ?thesis using t unfolding dir_tree_def
    by (auto simp: inode_mode_keeps [OF k] inode_fields_keep [OF k] off_heap_keeps(1) [OF k] split: option.splits)
qed

lemma tree_look_in:
  assumes "dir_tree dsk im D I K s" and "p \<in> I" and "p \<noteq> 0"
  shows "tree_look im D p path = 0 \<or> tree_look im D p path \<in> I"
proof (cases "D p")
  case (Some es)
  then have "\<forall>e\<in>set es. inode_at im (ucast (fst e)) \<in> I"
    using assms(1) [unfolded dir_tree_def, rule_format, OF assms(2,3)] by simp
  moreover have "e \<in> set es" if "find P es = Some e" for P e using that by (metis find_Some_iff nth_mem)
  ultimately show ?thesis using Some by (auto simp: tree_look_def lookup_entry_def split: option.split)
qed (simp add: tree_look_def)

lemma find_entry_tree:
  assumes ok: "fs_ok dev dsk (3 * K + k) s" and t: "dir_tree dsk im D I K s" and p: "p \<in> I" "p \<noteq> 0"
    and nm: "off_heap s name (Suc (length nm))" "cstr (fs_mem s) name nm"
  shows "\<exists>s'. find_entry dev im p name s = Some (Inr (tree_look im D p nm, s')) \<and> fs_ok dev dsk k s' \<and> fs_keeps dsk s s'"
proof (cases "D p")
  case None
  then have "\<not> is_directory (inode_mode (fs_mem s) p)" using t p by (auto simp: dir_tree_def)
  then show ?thesis using None p(2) fs_ok_mono [OF ok, of k] by (simp add: find_entry_def tree_look_def)
next
  case (Some es)
  then have e: "off_heap s p 56" "is_directory (inode_mode (fs_mem s) p)" "unat (inode_size (fs_mem s) p) div 32 = length es"
    "\<forall>i<length es. disk_entry (dsk (fs_log s)) (inode_zone (fs_mem s) p) i (es ! i)" "(length es - 1) div 32 < K"
    using t p by (force simp: dir_tree_def)+
  have "3 * ((length es - 1) div 32 + 1) + k \<le> 3 * K + k" using mult_le_mono2 [OF Suc_leI [OF e(5)], of 3] by simp
  from find_entry_ok [OF fs_ok_mono [OF ok this] _ p(2) e(2,3,4), of name nm im] show ?thesis
    using e(1) nm Some by (simp add: dir_state_def tree_look_def)
qed

lemma off_heap_suffix: "off_heap s a n \<Longrightarrow> j \<le> n \<Longrightarrow> unat a + j < 2 ^ 32 \<Longrightarrow> off_heap s (a + of_nat j) (n - j)"
  by (auto simp: off_heap_def unat_word_ariths unat_of_nat)

lemma cstr_drop: "cstr m a xs \<Longrightarrow> j \<le> length xs \<Longrightarrow> cstr m (a + of_nat j) (drop j xs)"
proof (induction j arbitrary: a xs)
  case (Suc j)
  then obtain x ys where xs: "xs = x # ys" by (cases xs) auto
  with Suc.prems have "cstr m (a + 1 + of_nat j) (drop j ys)" by (intro Suc.IH) auto
  then show ?case by (simp add: xs algebra_simps)
qed simp

text \<open>The rest of a path after its first component: its length, its separators, and where it stands in memory.\<close>

lemma path_rest:
  assumes rest: "dropWhile (\<lambda>x. x \<noteq> 0x2F) nm = x # rest" and c: "cstr m a nm"
  defines "n \<equiv> length (takeWhile (\<lambda>x. x \<noteq> 0x2F) nm)"
  shows "length nm = n + Suc (length rest)" and "count_list nm 0x2F = Suc (count_list rest 0x2F)"
    and "m (a + of_nat n) \<noteq> 0" and "cstr m (a + of_nat n + 1) rest"
proof -
  let ?t = "takeWhile (\<lambda>x. x \<noteq> 0x2F) nm"
  have "x = 0x2F" using rest by (metis (mono_tags, lifting) dropWhile_eq_Cons_conv)
  then have nm: "nm = ?t @ 0x2F # rest" using rest by (metis takeWhile_dropWhile_id)
  show len: "length nm = n + Suc (length rest)" using arg_cong [OF nm, of length] by (simp add: n_def)
  have "count_list ?t 0x2F = 0" by (simp add: count_list_0_iff) (metis set_takeWhileD)
  then show "count_list nm 0x2F = Suc (count_list rest 0x2F)" using arg_cong [OF nm, of "\<lambda>l. count_list l 0x2F"] by simp
  show "m (a + of_nat n) \<noteq> 0" using cstr_nth [OF c, of n] nth_append_length [of ?t "0x2F" rest] len nm by (simp add: n_def)
  have "cstr m (a + of_nat (Suc n)) (drop (Suc n) nm)" by (rule cstr_drop [OF c]) (simp add: len)
  moreover have "drop (Suc n) nm = rest" unfolding n_def by (subst nm) simp
  ultimately show "cstr m (a + of_nat n + 1) rest" by (simp add: ac_simps)
qed

lemma off_heap_rest:
  assumes "off_heap s a (Suc (n + Suc l))"
  shows "off_heap s (a + of_nat n + 1) (Suc l)"
proof -
  have "off_heap s (a + of_nat (Suc n)) (Suc (n + Suc l) - Suc n)" by (rule off_heap_suffix [OF assms]) (use assms in \<open>simp_all add: off_heap_def\<close>)
  then show ?thesis by (simp add: ac_simps)
qed

lemma namei_loop_ok:
  assumes "fs_ok dev dsk (3 * K * (Suc (count_list nm 0x2F)) + k) s" and "dir_tree dsk im D I K s" and "ino = 0 \<or> ino \<in> I"
    and "off_heap s (delim + 1) (Suc (length nm))" and "cstr (fs_mem s) (delim + 1) nm"
  shows "case path_walk (tree_look im D) ino nm of
      Inl e \<Rightarrow> namei_loop dev im ino delim s = Some (Inl e)
    | Inr p \<Rightarrow> \<exists>s'. namei_loop dev im ino delim s = Some (Inr (p, s')) \<and> fs_ok dev dsk k s' \<and> fs_keeps dsk s s'"
  using assms
proof (induction "length nm" arbitrary: nm ino delim s rule: less_induct)
  case less
  let ?t = "takeWhile (\<lambda>x. x \<noteq> 0x2F) nm" and ?look = "tree_look im D"
  define delim' where "delim' = delim + 1 + of_nat (length ?t)"
  have sf: "strfind (fs_mem s) (delim + 1) 0x2F = Some delim'" using strfind_cstr [OF less.prems(5)] by (simp add: delim'_def)
  note loop = namei_loop.simps [of dev im ino delim s]
  show ?case
  proof (cases "ino = 0")
    case True
    then show ?thesis by (subst loop) (simp add: path_walk.simps [of _ 0] sf Let_def find_entry_def)
  next
    case False
    then have ino: "ino \<in> I" using less.prems(3) by simp
    have "3 * K * Suc (count_list nm 0x2F) + k = 3 * K + (3 * K * count_list nm 0x2F + k)" by simp
    then have ok: "fs_ok dev dsk (3 * K + (3 * K * count_list nm 0x2F + k)) s" using less.prems(1) by metis
    obtain s1 where s1: "find_entry dev im ino (delim + 1) s = Some (Inr (?look ino nm, s1))"
      "fs_ok dev dsk (3 * K * count_list nm 0x2F + k) s1" "fs_keeps dsk s s1"
      using find_entry_tree [OF ok less.prems(2) ino False less.prems(4,5)] by blast
    have c: "cstr (fs_mem s1) (delim + 1) nm" by (rule cstr_keeps [OF s1(3) less.prems(4,5)])
    show ?thesis
    proof (cases "dropWhile (\<lambda>x. x \<noteq> 0x2F) nm")
      case Nil
      then have "length ?t = length nm" by (metis append_Nil2 takeWhile_dropWhile_id)
      then have "fs_mem s1 delim' = 0" using cstr_end [OF c] by (simp add: delim'_def)
      then have "namei_loop dev im ino delim s = Some (Inr (?look ino nm, s1))" by (subst loop) (simp add: sf Let_def s1(1))
      moreover have "path_walk ?look ino nm = Inr (?look ino nm)" using False by (subst path_walk.simps) (simp add: Nil del: dropWhile_eq_Nil_conv)
      ultimately show ?thesis using s1(3) fs_ok_mono [OF s1(2), of k] by simp
    next
      case (Cons x rest)
      note pr = path_rest [OF Cons c, folded delim'_def]
      have step: "namei_loop dev im ino delim s = namei_loop dev im (?look ino nm) delim' s1"
        using pr(3) by (subst loop) (simp add: sf Let_def s1(1))
      have walk: "path_walk ?look ino nm = path_walk ?look (?look ino nm) rest"
        using False Cons by (subst path_walk.simps) simp
      have o': "off_heap s1 (delim' + 1) (Suc (length rest))"
        using off_heap_keeps(1) [OF s1(3) less.prems(4)] unfolding pr(1) delim'_def by (rule off_heap_rest)
      have "?look ino nm = 0 \<or> ?look ino nm \<in> I" by (rule tree_look_in [OF less.prems(2) ino False])
      from less.hyps [OF _ s1(2) [unfolded pr(2)] dir_tree_keeps [OF s1(3) less.prems(2)] this o' pr(4)] show ?thesis
        unfolding step walk using pr(1) fs_keeps_trans [OF s1(3)] by (auto split: sum.splits)
    qed
  qed
qed

lemma namei_ok:
  assumes "fs_ok dev dsk (3 * K * (Suc (count_list nm 0x2F)) + k) s" and "dir_tree dsk im D I K s" and "inode_at im kRootINO \<in> I"
    and "off_heap s path (Suc (Suc (length nm)))" and "cstr (fs_mem s) path (0x2F # nm)" and "unat path + 1 < 2 ^ 32"
  shows "case path_walk (tree_look im D) (inode_at im kRootINO) nm of
      Inl e \<Rightarrow> namei dev im path s = Some (Inl e)
    | Inr p \<Rightarrow> \<exists>s'. namei dev im path s = Some (Inr (p, s')) \<and> fs_ok dev dsk k s' \<and> fs_keeps dsk s s'"
proof -
  have "off_heap s (path + 1) (Suc (length nm))" using off_heap_suffix [OF assms(4), of 1] assms(6) by simp
  moreover have "cstr (fs_mem s) (path + 1) nm" using assms(5) by simp
  moreover have n: "namei dev im path s = namei_loop dev im (inode_at im kRootINO) path s" using assms(5) by (simp add: namei_def)
  ultimately show ?thesis unfolding n by (intro namei_loop_ok [OF assms(1,2) disjI2 [OF assms(3)]])
qed

section \<open>Properties\<close>

text \<open>A machine whose disk holds one directory, the root, in block 5, with the single entry \<open>a\<close> for inode 2;
  the inode table is at 0x1000 and the path \<open>/a\<close> at 0x3000.\<close>

definition example_disk :: "nat \<Rightarrow> u32" where
  "example_disk = (\<lambda>_. 0)(1280 := 0x00610002)"

definition example_fs_mem :: mem where
  "example_fs_mem = (\<lambda>_. 0)(0x1039 := 0x40, 0x103C := 0x20, 0x1046 := 5, 0x3000 := 0x2F, 0x3001 := 0x61)"

text \<open>A machine with an empty cache, a memory and a history of its ports.\<close>

definition idle_fs :: "mem \<Rightarrow> io_event list \<Rightarrow> fs" where
  "idle_fs m l = \<lparr>lru_queue = 0, lru_pool = 0, lru_table = (\<lambda>_. 0), lru_count = 0, lru_cb = 0,
     lru_nodes = (\<lambda>_. \<lparr>node_key = 0, node_prev = 0, node_next = 0\<rparr>), lru_heap = init_heap m,
     fs_log = l, fs_dev = example_ide, fs_con = example_console\<rparr>"

definition example_fs :: fs where
  "example_fs = idle_fs example_fs_mem []"

definition example_image :: fs_image where
  "example_image = \<lparr>g_super_block = 0x2000, g_inode_table = 0x1000, g_imap_data = 0x2100, g_zmap_data = 0x2200,
     uncache_addr = 0x100, literal = (\<lambda>_. 0x3000)\<rparr>"

lemma idle_fs_mem_read: "unat a < 0xD0000000 \<Longrightarrow> fs_mem (idle_fs m l) a = m a"
  by (auto simp: fs_mem_def idle_fs_def init_heap_def ImplicitListAllocator_def record_block_def write32_def kHeapStart_def)

lemma idle_fs_ok: "n \<le> 307 \<Longrightarrow> ata_idle (ata_sim f) h \<Longrightarrow> fs_ok (ata_sim f) (ata_disk f) n (idle_fs m h)"
  by (rule empty_cache_ok)
    (simp_all add: drive_ready_def ata_sim_working idle_fs_def cache_empty_def init_heap_facts example_ide_def ide_device_valid_def,
      simp add: init_heap_def ImplicitListAllocator_def kHeapStart_def)

lemma idle_off_heap: "n \<le> 0x1000 \<Longrightarrow> unat a < 0x10000 \<Longrightarrow> off_heap (idle_fs m l) a n"
  by (simp add: off_heap_def idle_fs_def init_heap_def ImplicitListAllocator_def kHeapStart_def)

lemma example_fs_mem_read: "unat a < 0xD0000000 \<Longrightarrow> fs_mem example_fs a = example_fs_mem a"
  unfolding example_fs_def by (rule idle_fs_mem_read)

lemmas example_fs_ok = idle_fs_ok [OF _ ata_idle.power_on, of _ _ example_fs_mem, folded example_fs_def]
  and example_off_heap = idle_off_heap [of _ _ example_fs_mem "[]", folded example_fs_def]

lemma example_disk_log: "ata_disk f (fs_log example_fs) = f"
  by (simp add: example_fs_def idle_fs_def ata_disk_def ata_run_def)

text \<open>C26. On a working drive, with a coherent cache that has room for one more block, \<open>read_block\<close> returns
  the address of a buffer that holds the block as it is on the disk, whether the block was cached or not.
  It leaves the disk, the other cached buffers and all memory outside of the heap as they were, keeps the
  cache coherent, and uses at most one unit of the room.\<close>

theorem read_block_reads:
  assumes "fs_ok dev dsk (Suc n) s" and "bno_ok bno"
  shows "\<exists>a s'. read_block dev bno s = Some (Inr (a, s')) \<and> a \<noteq> 0 \<and> fs_ok dev dsk n s' \<and> fs_keeps dsk s s'
    \<and> holds_block (fs_mem s') a (dsk (fs_log s)) bno
    \<and> (\<exists>x\<in>set (cached_nodes s'). a = value_of x \<and> node_key (lru_nodes s' x) = bno)"
  by (rule read_block_ok [OF assms])

theorem read_block_reads_witness:
  "\<exists>a s'. read_block (ata_sim example_disk) 5 example_fs = Some (Inr (a, s')) \<and> read32 (fs_mem s') a = 0x00610002"
proof -
  have "fs_ok (ata_sim example_disk) (ata_disk example_disk) (Suc 0) example_fs" by (rule example_fs_ok) simp
  from read_block_reads [OF this, of 5] obtain a s' where
    "read_block (ata_sim example_disk) 5 example_fs = Some (Inr (a, s'))" "holds_block (fs_mem s') a example_disk 5"
    by (auto simp: bno_ok_def example_disk_log)
  then show ?thesis by (auto simp: holds_block_def example_disk_def dest: spec [of _ 0])
qed

text \<open>Writing back a cached block succeeds and makes the disk hold exactly the bytes of the buffer in that
  block, and every other word of the disk as before; memory stays as it is and the block becomes the
  most recently used one.\<close>

lemma write_block_stores:
  assumes "drive_ready dev dsk s" and "ide_device_valid (fs_dev s)" and "lru_invar kCacheSize sizeof_block_buffer s"
    and "bno_ok bno" and "x \<in> set (cached_nodes s)" and "node_key (lru_nodes s x) = bno"
  shows "\<exists>s'. write_block dev bno s = Some (Inr (True, s')) \<and> lru_invar kCacheSize sizeof_block_buffer s'
    \<and> cached_keys s' = spec_get bno (cached_keys s) \<and> set (cached_nodes s') = set (cached_nodes s)
    \<and> fs_mem s' = fs_mem s \<and> holds_block (fs_mem s') (value_of x) (dsk (fs_log s')) bno
    \<and> (\<forall>w. w \<notin> {256 * unat bno..<256 * unat bno + 256} \<longrightarrow> dsk (fs_log s') w = dsk (fs_log s) w)"
  using write_block_ok [OF assms] by blast

lemma write_block_stores_witness:
  "\<exists>a s1 s2. read_block (ata_sim example_disk) 5 example_fs = Some (Inr (a, s1))
    \<and> write_block (ata_sim example_disk) 5 s1 = Some (Inr (True, s2)) \<and> fs_mem s2 = fs_mem s1"
proof -
  have ok: "fs_ok (ata_sim example_disk) (ata_disk example_disk) (Suc 0) example_fs" by (rule example_fs_ok) simp
  obtain a s1 x where s1: "read_block (ata_sim example_disk) 5 example_fs = Some (Inr (a, s1))"
    "fs_ok (ata_sim example_disk) (ata_disk example_disk) 0 s1" "x \<in> set (cached_nodes s1)" "node_key (lru_nodes s1 x) = 5"
    using read_block_ok [OF ok, of 5] by (auto simp: bno_ok_def)
  then have "drive_ready (ata_sim example_disk) (ata_disk example_disk) s1" "ide_device_valid (fs_dev s1)"
    "lru_invar kCacheSize sizeof_block_buffer s1" "bno_ok 5" by (simp_all add: fs_ok_def bno_ok_def)
  from write_block_stores [OF this s1(3,4)] s1(1) show ?thesis by auto
qed

text \<open>C29. \<open>read_zone\<close>, which walks direct, single and double indirect zones through cached buffers, returns
  a buffer with the very block that the file layout assigns to that zone of the inode: the reference
  \<open>zone_block\<close> reads the same tables directly from the disk. The cache agrees with the disk and has room for three more blocks, so
  that nothing is evicted, and the zone is one that an inode can have.\<close>

theorem read_zone_equivalence:
  assumes "fs_ok dev dsk (n + 3) s" and "unat zone < 7 + 512 + 512 * 512"
  shows "\<exists>a s'. read_zone dev inode zone s = Some (Inr (a, s')) \<and> a \<noteq> 0 \<and> fs_ok dev dsk n s' \<and> fs_keeps dsk s s'
    \<and> holds_block (fs_mem s') a (dsk (fs_log s))
        (ucast (zone_block (dsk (fs_log s)) (inode_zone (fs_mem s) inode) (unat zone)))"
  using read_zone_ok [OF assms] by blast

theorem read_zone_equivalence_witness:
  "\<exists>a s'. read_zone (ata_sim example_disk) 0x1038 0 example_fs = Some (Inr (a, s')) \<and> read32 (fs_mem s') a = 0x00610002"
proof -
  have ok: "fs_ok (ata_sim example_disk) (ata_disk example_disk) (0 + 3) example_fs" by (rule example_fs_ok) simp
  have "inode_zone (fs_mem example_fs) 0x1038 0 = 5"
    by (simp add: field_accesses read16_def example_fs_mem_read example_fs_mem_def)
  with read_zone_equivalence [OF ok, of 0 "0x1038"] obtain a s' where
    "read_zone (ata_sim example_disk) 0x1038 0 example_fs = Some (Inr (a, s'))" "holds_block (fs_mem s') a example_disk 5"
    by (auto simp: example_disk_log zone_block_def)
  then show ?thesis by (auto simp: holds_block_def example_disk_def dest: spec [of _ 0])
qed

text \<open>C30. \<open>namei\<close> ends on every absolute path and behaves as the walk over the directories of the disk: each
  component is looked up in the current directory as the first entry whose name is a prefix of the whole
  rest of the path, a lookup in an inode that is not a directory gives null, and a further component below
  null is a null dereference. It keeps the cache coherent and changes neither the disk nor memory outside
  of the heap. The cache agrees with the disk and has room for the blocks on the way, three for each of the at most \<open>K\<close>
  zones of a directory and for each component, so that nothing is evicted; the names in the directories are shorter than their field of 30 bytes.\<close>

theorem namei_walks_path:
  assumes "fs_ok dev dsk (3 * K * (Suc (count_list nm 0x2F)) + k) s" and "dir_tree dsk im D I K s" and "inode_at im kRootINO \<in> I"
    and "off_heap s path (Suc (Suc (length nm)))" and "cstr (fs_mem s) path (0x2F # nm)" and "unat path + 1 < 2 ^ 32"
  shows "case path_walk (tree_look im D) (inode_at im kRootINO) nm of
      Inl e \<Rightarrow> namei dev im path s = Some (Inl e)
    | Inr p \<Rightarrow> \<exists>s'. namei dev im path s = Some (Inr (p, s')) \<and> fs_ok dev dsk k s' \<and> fs_keeps dsk s s'"
  by (rule namei_ok [OF assms])

lemma example_tree:
  "dir_tree (ata_disk example_disk) example_image [0x1038 \<mapsto> [(2, [0x61])]] {0x1038, 0x1070} 1 example_fs"
proof -
  have "inode_zone (fs_mem example_fs) 0x1038 0 = 5"
    by (simp add: field_accesses read16_def example_fs_mem_read example_fs_mem_def)
  then have "disk_entry example_disk (inode_zone (fs_mem example_fs) 0x1038) 0 (2, [0x61])"
    by (simp add: disk_entry_def zone_block_def disk_half_def disk_byte_def example_disk_def)
  then show ?thesis
    by (simp add: dir_tree_def example_disk_log example_off_heap)
      (simp add: example_fs_mem_read field_accesses read16_def read32_def example_fs_mem_def
        is_directory_def S_IFMT_def S_IFDIR_def inode_at_def example_image_def layout_sizes)
qed

theorem namei_walks_path_witness:
  "\<exists>s'. namei (ata_sim example_disk) example_image 0x3000 example_fs = Some (Inr (0x1070, s'))"
proof -
  have "fs_ok (ata_sim example_disk) (ata_disk example_disk) (3 * 1 * Suc (count_list [0x61 :: u8] 0x2F) + 0) example_fs"
    by (rule example_fs_ok) simp
  moreover have "inode_at example_image kRootINO \<in> {0x1038, 0x1070}"
    by (simp add: inode_at_def example_image_def layout_sizes kRootINO_def)
  moreover have "cstr (fs_mem example_fs) 0x3000 (0x2F # [0x61])" by (simp add: example_fs_mem_read example_fs_mem_def)
  ultimately have "case path_walk (tree_look example_image [0x1038 \<mapsto> [(2, [0x61])]]) (inode_at example_image kRootINO) [0x61] of
      Inl e \<Rightarrow> namei (ata_sim example_disk) example_image 0x3000 example_fs = Some (Inl e)
    | Inr p \<Rightarrow> \<exists>s'. namei (ata_sim example_disk) example_image 0x3000 example_fs = Some (Inr (p, s'))
        \<and> fs_ok (ata_sim example_disk) (ata_disk example_disk) 0 s' \<and> fs_keeps (ata_disk example_disk) example_fs s'"
    by (intro namei_walks_path [OF _ example_tree]) (simp_all add: example_off_heap)
  then show ?thesis
    by (auto simp: path_walk.simps tree_look_def lookup_entry_def inode_at_def example_image_def layout_sizes kRootINO_def)
qed

text \<open>The names are matched by prefix: an entry \<open>a\<close> answers a lookup of \<open>ab\<close>.\<close>

lemma lookup_matches_prefix: "lookup_entry im [(2, [0x61])] [0x61, 0x62] = inode_at im 2"
  by (simp add: lookup_entry_def)

end
