(* ===== verification/Sprite_Fs_List.thy ===== *)
theory Sprite_Fs_List
  imports Sprite_Fs
begin

text \<open>
  The directory listing of \<open>lib/fs.cc\<close>. The recursion of \<open>list_entries\<close> follows the directories of the disk, so it
  ends on a disk whose shown directories form a tree; the tree is the datatype \<open>file_tree\<close>, and its text, its
  height and the number of blocks to cache are functions on it.
\<close>

section \<open>Trees of files\<close>

text \<open>The size of a file; the size of a directory and its shown entries, in order.\<close>

datatype file_tree = File u32 | Dir u32 "(u8 list \<times> file_tree) list"

definition bytes :: "string \<Rightarrow> u8 list" where
  "bytes xs = map of_char xs"

fun tree_size :: "file_tree \<Rightarrow> u32" where
  "tree_size (File n) = n"
| "tree_size (Dir n ts) = n"

fun tree_type :: "file_tree \<Rightarrow> string" where
  "tree_type (File n) = ''file''"
| "tree_type (Dir n ts) = ''dir''"

definition entry_line :: "u8 list \<Rightarrow> file_tree \<Rightarrow> u8 list" where
  "entry_line nm t = nm @ bytes tab @ dec_digits (tree_size t) @ bytes tab @ bytes (tree_type t) @ bytes nl"

fun tree_text :: "file_tree \<Rightarrow> u8 list" where
  "tree_text (File n) = []"
| "tree_text (Dir n ts) = concat (map (\<lambda>(nm, t). entry_line nm t @ tree_text t) ts)"

text \<open>The number of nested calls, and a bound of the blocks that a listing caches: three for each zone.\<close>

fun tree_height :: "file_tree \<Rightarrow> nat" where
  "tree_height (File n) = 1"
| "tree_height (Dir n ts) = Suc (fold max (map (\<lambda>(nm, t). tree_height t) ts) 0)"

fun tree_blocks :: "file_tree \<Rightarrow> nat" where
  "tree_blocks (File n) = 0"
| "tree_blocks (Dir n ts) = 3 * ((unat n div 32 - 1) div 32 + 1) + sum_list (map (\<lambda>(nm, t). tree_blocks t) ts)"

text \<open>Entries whose name starts with a dot are not shown.\<close>

definition shown :: "u16 \<times> u8 list \<Rightarrow> bool" where
  "shown e \<longleftrightarrow> take 1 (snd e) \<noteq> [0x2E]"

text \<open>The tree below inode \<open>p\<close>, with the directories \<open>D\<close> and the sizes \<open>sz\<close> of the inodes.\<close>

fun tree_of :: "fs_image \<Rightarrow> (u32 \<rightharpoonup> (u16 \<times> u8 list) list) \<Rightarrow> (u32 \<Rightarrow> u32) \<Rightarrow> u32 \<Rightarrow> file_tree \<Rightarrow> bool" where
  "tree_of im D sz p (File n) \<longleftrightarrow> p \<noteq> 0 \<and> D p = None \<and> sz p = n"
| "tree_of im D sz p (Dir n ts) \<longleftrightarrow> p \<noteq> 0 \<and> sz p = n \<and> (case D p of None \<Rightarrow> False
     | Some es \<Rightarrow> list_all2 (\<lambda>e (nm, t). nm = snd e \<and> tree_of im D sz (inode_at im (ucast (fst e))) t) (filter shown es) ts)"

lemma height_children: "(nm, t) \<in> set ts \<Longrightarrow> tree_height (Dir n ts) \<le> Suc k \<Longrightarrow> tree_height t \<le> k"
proof -
  assume t: "(nm, t) \<in> set ts" and k: "tree_height (Dir n ts) \<le> Suc k"
  have "fold max xs 0 = Max (set (0 # xs))" for xs :: "nat list" using Max.set_eq_fold [of 0 xs] by simp
  then have "tree_height t \<le> fold max (map (\<lambda>(nm, t). tree_height t) ts) 0" using t by (force intro: Max_ge)
  then show ?thesis using k by simp
qed

section \<open>Printing\<close>

text \<open>The literals of the listing lie outside of the heap, as terminated strings.\<close>

definition list_format :: string where
  "list_format = ''%s'' @ tab @ ''%d'' @ tab @ ''%s'' @ nl"

definition literal_ok :: "fs_image \<Rightarrow> fs \<Rightarrow> string \<Rightarrow> bool" where
  "literal_ok im s xs \<longleftrightarrow> off_heap s (literal im xs) (Suc (length xs)) \<and> cstr (fs_mem s) (literal im xs) (bytes xs)"

definition list_literals :: "fs_image \<Rightarrow> fs \<Rightarrow> bool" where
  "list_literals im s \<longleftrightarrow> list_all (literal_ok im s) [list_format, ''dir'', ''file'']"

abbreviation fs_put :: "u8 list \<Rightarrow> fs \<Rightarrow> fs" where
  "fs_put xs s \<equiv> s\<lparr>fs_con := put_text xs (fs_con s)\<rparr>"

lemma literal_ok_keeps: "fs_keeps dsk s s' \<Longrightarrow> literal_ok im s xs \<Longrightarrow> literal_ok im s' xs"
  using cstr_keeps [of dsk s s' "literal im xs" "bytes xs"] by (simp add: literal_ok_def off_heap_keeps(1) bytes_def)

lemma the_cstr: "cstr m a xs \<Longrightarrow> (THE xs. cstr m a xs) = xs"
  by (rule the_equality) (auto intro: cstr_unique)

lemma list_format_text:
  "printk_text str (bytes list_format) [ArgStr a, ArgNum n, ArgStr b] =
     str a @ bytes tab @ dec_digits n @ bytes tab @ str b @ bytes nl"
  by (simp add: list_format_def bytes_def tab_def nl_def directive_text_def arg_text_def)

lemma prints_entry:
  assumes "literal_ok im s list_format" and "literal_ok im s (tree_type t)" and "cstr (fs_mem s) a nm" and "n = tree_size t"
  shows "fs_printk im list_format [ArgStr a, ArgNum n, ArgStr (literal im (tree_type t))] s = Some (Inr (fs_put (entry_line nm t) s))"
proof -
  let ?str = "\<lambda>a. THE xs. cstr (fs_mem s) a xs"
  have c: "cstr (fs_mem s) (literal im list_format) (bytes list_format)" "cstr (fs_mem s) (literal im (tree_type t)) (bytes (tree_type t))"
    using assms(1,2) by (simp_all add: literal_ok_def)
  have len: "length (bytes list_format) < 2 ^ 32" by (simp add: bytes_def list_format_def tab_def nl_def)
  have args: "list_all (arg_ok (fs_mem s) ?str) [ArgStr a, ArgNum n, ArgStr (literal im (tree_type t))]"
    using c(2) assms(3) by (simp add: arg_ok_def the_cstr)
  note printk_prints [OF c(1) len args, of "fs_con s", unfolded list_format_text the_cstr [OF c(2)] the_cstr [OF assms(3)]]
  then have "printk (fs_mem s) (literal im list_format) [ArgStr a, ArgNum n, ArgStr (literal im (tree_type t))] (fs_con s) =
      Some (put_text (entry_line nm t) (fs_con s))" by (simp only: entry_line_def assms(4))
  then show ?thesis by (simp add: fs_printk_def)
qed

section \<open>The listing of one directory\<close>

lemma fs_con_parts:
  "fs_mem (s\<lparr>fs_con := c\<rparr>) = fs_mem s" "cached_nodes (s\<lparr>fs_con := c\<rparr>) = cached_nodes s"
  "off_heap (s\<lparr>fs_con := c\<rparr>) a k = off_heap s a k"
  by (simp_all add: fs_mem_def cached_nodes_def off_heap_def)

lemma fs_ok_con: "fs_ok dev dsk n (s\<lparr>fs_con := c\<rparr>) = fs_ok dev dsk n s"
  by (simp add: fs_ok_def fs_con_parts lru_invar_def lru_list_def queue_list_def lru_keys_def cached_keys_def)

lemma fs_keeps_con: "fs_keeps dsk s s' \<Longrightarrow> fs_keeps dsk (s\<lparr>fs_con := c\<rparr>) (s'\<lparr>fs_con := c\<rparr>)"
  by (simp add: fs_keeps_def fs_con_parts)

lemma fs_keeps_put:
  assumes "fs_keeps dsk (fs_put xs s) s'" and "fs_keeps dsk (fs_put ys s') s''"
  shows "fs_keeps dsk (fs_put (xs @ ys) s) s''"
proof -
  have "fs_con s' = put_text xs (fs_con s)" using assms(1) by (simp add: fs_keeps_def)
  then have "fs_keeps dsk (fs_put (xs @ ys) s) (fs_put ys s')"
    using fs_keeps_con [OF assms(1), of "put_text ys (fs_con s')"] by simp
  then show ?thesis using assms(2) by (rule fs_keeps_trans)
qed

text \<open>What the listing relies on and keeps.\<close>

definition list_state ::
    "disk \<Rightarrow> fs_image \<Rightarrow> (u32 \<rightharpoonup> (u16 \<times> u8 list) list) \<Rightarrow> u32 set \<Rightarrow> nat \<Rightarrow> (nat \<Rightarrow> u32) \<Rightarrow> (u32 \<Rightarrow> u32) \<Rightarrow> fs \<Rightarrow> bool" where
  "list_state dsk im D I K d sz s \<longleftrightarrow> dir_tree dsk im D I K s \<and> dsk (fs_log s) = d \<and> list_literals im s
     \<and> (\<forall>p\<in>I. p \<noteq> 0 \<longrightarrow> inode_size (fs_mem s) p = sz p)"

lemma list_state_con: "list_state dsk im D I K d sz (s\<lparr>fs_con := c\<rparr>) = list_state dsk im D I K d sz s"
  by (simp add: list_state_def dir_tree_def list_literals_def literal_ok_def fs_con_parts cong: option.case_cong)

lemma list_state_keeps:
  assumes k: "fs_keeps dsk (s\<lparr>fs_con := c\<rparr>) s'" and st: "list_state dsk im D I K d sz s"
  shows "list_state dsk im D I K d sz s'"
proof -
  let ?s = "s\<lparr>fs_con := c\<rparr>"
  have st': "list_state dsk im D I K d sz ?s" using st by (simp add: list_state_con)
  then have t: "dir_tree dsk im D I K ?s" by (simp add: list_state_def)
  then have "off_heap ?s p 56" if "p \<in> I" "p \<noteq> 0" for p using that by (simp add: dir_tree_def)
  then have "\<forall>p\<in>I. p \<noteq> 0 \<longrightarrow> inode_size (fs_mem s') p = sz p"
    using st' by (auto simp: list_state_def inode_fields_keep [OF k])
  moreover have "dsk (fs_log s') = d" using k st by (simp add: fs_keeps_def list_state_def)
  moreover have "list_literals im s'" using st' by (simp add: list_state_def list_literals_def literal_ok_keeps [OF k])
  ultimately show ?thesis using dir_tree_keeps [OF k t] by (simp add: list_state_def)
qed

lemma zone_at_keeps:
  assumes "fs_keeps dsk (s\<lparr>fs_con := c\<rparr>) s'" and "zone_at s d zs j a"
  shows "zone_at s' d zs j a"
proof -
  obtain x where x: "x \<in> set (cached_nodes s)" "a = value_of x" using assms(2) by (auto simp: zone_at_def)
  then have "x \<in> set (cached_nodes s')" "\<forall>i<1024. fs_mem s' (a + of_nat i) = fs_mem s (a + of_nat i)"
    using assms(1) by (auto simp: fs_keeps_def fs_con_parts)
  then show ?thesis using x assms(2) by (auto simp: zone_at_def intro: holds_block_cong)
qed

abbreviation list_cb :: "nat \<Rightarrow> device \<Rightarrow> fs_image \<Rightarrow> u32 \<Rightarrow> fs \<Rightarrow> (bool \<times> fs) result option" where
  "list_cb n dev im \<equiv> (\<lambda>entry s.
     let node = inode_at im (ucast (entry_inode (fs_mem s) entry)) in
     if fs_mem s (entry_name entry) \<noteq> 0x2E
     then robind (fs_printk im (''%s'' @ tab @ ''%d'' @ tab @ ''%s'' @ nl)
             [ArgStr (entry_name entry), ArgNum (inode_size (fs_mem s) node),
              ArgStr (literal im (if is_directory (inode_mode (fs_mem s) node) then ''dir'' else ''file''))] s) (\<lambda>s.
          robind (list_entries n dev im node s) (\<lambda>s. Some (Inr (False, s))))
     else Some (Inr (False, s)))"

lemma shown_byte: "cstr m a nm \<Longrightarrow> m a \<noteq> 0x2E \<longleftrightarrow> shown (i, nm)"
  by (cases nm) (auto simp: shown_def)

lemma tree_inode:
  assumes "list_state dsk im D I K d sz s" and "p \<in> I" and "tree_of im D sz p t"
  shows "p \<noteq> 0" and "inode_size (fs_mem s) p = tree_size t"
    and "(if is_directory (inode_mode (fs_mem s) p) then ''dir'' else ''file'') = tree_type t"
    and "literal_ok im s (tree_type t)" and "literal_ok im s list_format"
proof -
  show p: "p \<noteq> 0" using assms(3) by (cases t) auto
  show "inode_size (fs_mem s) p = tree_size t" using assms p by (cases t) (auto simp: list_state_def)
  have "case D p of None \<Rightarrow> \<not> is_directory (inode_mode (fs_mem s) p) | Some es \<Rightarrow> is_directory (inode_mode (fs_mem s) p)"
    using assms(1,2) p by (fastforce simp: list_state_def dir_tree_def split: option.splits)
  then show "(if is_directory (inode_mode (fs_mem s) p) then ''dir'' else ''file'') = tree_type t"
    using assms(3) by (cases t) (auto split: option.splits)
  show "literal_ok im s (tree_type t)" "literal_ok im s list_format"
    using assms(1) by (cases t; simp add: list_state_def list_literals_def)+
qed

text \<open>Trees up to height \<open>n\<close> are listed.\<close>

definition lists_trees ::
    "nat \<Rightarrow> device \<Rightarrow> disk \<Rightarrow> fs_image \<Rightarrow> (u32 \<rightharpoonup> (u16 \<times> u8 list) list) \<Rightarrow> u32 set \<Rightarrow> nat \<Rightarrow> (nat \<Rightarrow> u32) \<Rightarrow> (u32 \<Rightarrow> u32) \<Rightarrow> bool" where
  "lists_trees n dev dsk im D I K d sz \<longleftrightarrow> (\<forall>p t s k. tree_height t \<le> n \<longrightarrow> p \<in> I \<longrightarrow> tree_of im D sz p t \<longrightarrow>
     list_state dsk im D I K d sz s \<longrightarrow> fs_ok dev dsk (tree_blocks t + k) s \<longrightarrow>
     (\<exists>s'. list_entries n dev im p s = Some (Inr s') \<and> fs_ok dev dsk k s' \<and> fs_keeps dsk (fs_put (tree_text t) s) s'))"

lemma list_cb_entry:
  assumes IH: "lists_trees n dev dsk im D I K d sz" and st: "list_state dsk im D I K d sz s" and z: "zone_at s d zs (i div 32) b" and e: "disk_entry d zs i e"
    and "shown e" and node: "inode_at im (ucast (fst e)) \<in> I" "tree_of im D sz (inode_at im (ucast (fst e))) t" "tree_height t \<le> n"
    and ok: "fs_ok dev dsk (tree_blocks t + k) s"
  shows "\<exists>s'. list_cb n dev im (b + of_nat (32 * (i mod 32))) s = Some (Inr (False, s')) \<and> fs_ok dev dsk k s'
    \<and> fs_keeps dsk (fs_put (entry_line (snd e) t @ tree_text t) s) s'"
proof -
  let ?p = "b + of_nat (32 * (i mod 32))" and ?node = "inode_at im (ucast (fst e))"
  let ?s = "fs_put (entry_line (snd e) t) s"
  have "holds_block (fs_mem s) b d (ucast (zone_block d zs (i div 32)))" using z by (simp add: zone_at_def)
  note er = entry_read [OF this e refl]
  have dot: "fs_mem s (entry_name ?p) \<noteq> 0x2E" using shown_byte [OF er(2), of "fst e"] \<open>shown e\<close> by simp
  note ti = tree_inode [OF st node(1,2)]
  have pr: "fs_printk im (''%s'' @ tab @ ''%d'' @ tab @ ''%s'' @ nl)
      [ArgStr (entry_name ?p), ArgNum (inode_size (fs_mem s) ?node), ArgStr (literal im (tree_type t))] s = Some (Inr ?s)"
    using prints_entry [OF ti(5,4) er(2) ti(2)] by (simp only: list_format_def)
  have "list_state dsk im D I K d sz ?s" "fs_ok dev dsk (tree_blocks t + k) ?s" using st ok by (simp_all only: list_state_con fs_ok_con)
  from IH [unfolded lists_trees_def, rule_format, OF node(3,1,2) this] obtain s' where s': "list_entries n dev im ?node ?s = Some (Inr s')" "fs_ok dev dsk k s'"
    "fs_keeps dsk (fs_put (tree_text t) ?s) s'" by blast
  have "list_cb n dev im ?p s = Some (Inr (False, s'))"
    using s'(1) by (simp only: Let_def er(1) dot if_True simp_thms ti(3) pr robind_simps)
  moreover have "fs_keeps dsk (fs_put (entry_line (snd e) t @ tree_text t) s) s'" by (rule fs_keeps_put [OF fs_keeps_refl s'(3)])
  ultimately show ?thesis using s'(2) by blast
qed

lemma list_cb_hidden:
  assumes "zone_at s d zs (i div 32) b" and e: "disk_entry d zs i e" and "\<not> shown e"
  shows "list_cb n dev im (b + of_nat (32 * (i mod 32))) s = Some (Inr (False, s))"
proof -
  have "holds_block (fs_mem s) b d (ucast (zone_block d zs (i div 32)))" using assms(1) by (simp add: zone_at_def)
  note er = entry_read [OF this e refl]
  have "fs_mem s (entry_name (b + of_nat (32 * (i mod 32)))) = 0x2E" using shown_byte [OF er(2), of "fst e"] \<open>\<not> shown e\<close> by simp
  then show ?thesis by (simp only: Let_def simp_thms if_False)
qed

abbreviation child_of :: "fs_image \<Rightarrow> (u32 \<rightharpoonup> (u16 \<times> u8 list) list) \<Rightarrow> (u32 \<Rightarrow> u32) \<Rightarrow> u16 \<times> u8 list \<Rightarrow> u8 list \<times> file_tree \<Rightarrow> bool" where
  "child_of im D sz \<equiv> (\<lambda>e (nm, t). nm = snd e \<and> tree_of im D sz (inode_at im (ucast (fst e))) t)"

abbreviation children_text :: "(u8 list \<times> file_tree) list \<Rightarrow> u8 list" where
  "children_text us \<equiv> concat (map (\<lambda>(nm, t). entry_line nm t @ tree_text t) us)"

abbreviation children_blocks :: "(u8 list \<times> file_tree) list \<Rightarrow> nat" where
  "children_blocks us \<equiv> sum_list (map (\<lambda>(nm, t). tree_blocks t) us)"

lemma list_cb_step:
  assumes IH: "lists_trees n dev dsk im D I K d sz" and st: "list_state dsk im D I K d sz s" and z: "zone_at s d zs (i div 32) b"
    and i: "i < length es" and e: "disk_entry d zs i (es ! i)" and I: "\<forall>e\<in>set es. inode_at im (ucast (fst e)) \<in> I"
    and us: "list_all2 (child_of im D sz) (filter shown (drop i es)) us" "\<forall>u\<in>set us. tree_height (snd u) \<le> n"
    and ok: "fs_ok dev dsk (children_blocks us + k) s"
  shows "\<exists>s' xs us'. list_cb n dev im (b + of_nat (32 * (i mod 32))) s = Some (Inr (False, s')) \<and> fs_ok dev dsk (children_blocks us' + k) s'
    \<and> fs_keeps dsk (fs_put xs s) s' \<and> list_all2 (child_of im D sz) (filter shown (drop (Suc i) es)) us'
    \<and> children_text us = xs @ children_text us' \<and> set us' \<subseteq> set us"
proof -
  have d: "drop i es = es ! i # drop (Suc i) es" using i by (simp add: Cons_nth_drop_Suc)
  show ?thesis
  proof (cases "shown (es ! i)")
    case False
    then have "list_all2 (child_of im D sz) (filter shown (drop (Suc i) es)) us" using us(1) by (simp add: d)
    then show ?thesis using list_cb_hidden [OF z e False] ok
      by (intro exI [of _ s] exI [of _ "[]"] exI [of _ us]) (simp only: fold_simps(1) append_Nil fs_keeps_refl simp_thms subset_refl, simp)
  next
    case True
    then obtain t us' where u: "us = (snd (es ! i), t) # us'" "tree_of im D sz (inode_at im (ucast (fst (es ! i)))) t"
      "list_all2 (child_of im D sz) (filter shown (drop (Suc i) es)) us'"
      using us(1) by (auto simp: d list_all2_Cons1)
    have h: "tree_height t \<le> n" using us(2) by (simp add: u(1))
    have m: "inode_at im (ucast (fst (es ! i))) \<in> I" using I i by simp
    have "fs_ok dev dsk (tree_blocks t + (children_blocks us' + k)) s" using ok by (simp add: u(1) add.assoc)
    from list_cb_entry [OF IH st z e True m u(2) h this] obtain s' where
      s': "list_cb n dev im (b + of_nat (32 * (i mod 32))) s = Some (Inr (False, s'))" "fs_ok dev dsk (children_blocks us' + k) s'"
        "fs_keeps dsk (fs_put (entry_line (snd (es ! i)) t @ tree_text t) s) s'" by (elim exE conjE) (rule that)
    have "children_text us = (entry_line (snd (es ! i)) t @ tree_text t) @ children_text us'" "set us' \<subseteq> set us" by (auto simp: u(1))
    then show ?thesis using s' u(3) by blast
  qed
qed

lemma dir_state_put:
  "fs_keeps dsk (s\<lparr>fs_con := c\<rparr>) s' \<Longrightarrow> dir_state dsk d zs dir name nm s \<Longrightarrow> dir_state dsk d zs dir name nm s'"
  by (erule dir_state_keeps) (simp add: dir_state_def fs_con_parts)

lemma list_loop:
  assumes IH: "lists_trees n dev dsk im D I K d sz" and es: "\<forall>i<length es. disk_entry d zs i (es ! i)"
    and L: "(length es - 1) div 32 < 519" and I: "\<forall>e\<in>set es. inode_at im (ucast (fst e)) \<in> I"
  shows "i \<le> length es \<Longrightarrow> c = (i - 1) div 32 \<Longrightarrow> fs_ok dev dsk (3 * ((length es - 1) div 32 - c) + (children_blocks us + k)) s \<Longrightarrow>
    list_state dsk im D I K d sz s \<Longrightarrow> dir_state dsk d zs dir name nm s \<Longrightarrow> zone_at s d zs c a \<Longrightarrow>
    list_all2 (child_of im D sz) (filter shown (drop i es)) us \<Longrightarrow> \<forall>u\<in>set us. tree_height (snd u) \<le> n \<Longrightarrow>
    \<exists>s'. traverse_loop dev im dir (list_cb n dev im) (length es - i) (of_nat c) a (a + of_nat (32 * (i - 32 * c))) s = Some (Inr (0, s'))
      \<and> fs_ok dev dsk k s' \<and> fs_keeps dsk (fs_put (children_text us) s) s'"
proof (induction "length es - i" arbitrary: i c s a us)
  case 0
  then have "us = []" by simp
  then show ?case using 0(1) fs_ok_mono [OF 0(4), of k] by (intro exI [of _ s]) simp
next
  case (Suc m)
  have i: "i < length es" using Suc.hyps(2) by simp
  let ?p = "\<lambda>b. b + of_nat (32 * (i mod 32))" and ?cb = "list_cb n dev im"
  obtain b s1 where s1: "traverse_loop dev im dir ?cb (Suc m) (of_nat c) a (a + of_nat (32 * (i - 32 * c))) s =
      robind (?cb (?p b) s1) (\<lambda>(stop, s''). if stop then Some (Inr (inode_at im (ucast (entry_inode (fs_mem s'') (?p b))), s''))
        else traverse_loop dev im dir ?cb m (of_nat (i div 32)) b (?p b + sizeof_dir_entry) s'')"
    "fs_ok dev dsk (3 * ((length es - 1) div 32 - i div 32) + (children_blocks us + k)) s1" "fs_keeps dsk s s1" "zone_at s1 d zs (i div 32) b"
    using traverse_reach [OF i Suc.prems(2,3) L Suc.prems(5,6), where n = m and im = im and cb = ?cb] by blast
  have k1: "fs_keeps dsk (fs_put [] s) s1" using s1(3) by simp
  note st1 = list_state_keeps [OF k1 Suc.prems(4)]
  let ?k = "3 * ((length es - 1) div 32 - i div 32) + k"
  have "fs_ok dev dsk (children_blocks us + ?k) s1" using s1(2) by (simp add: ac_simps)
  from list_cb_step [OF IH st1 s1(4) i es [rule_format, OF i] I Suc.prems(7,8) this] obtain s2 xs us' where
    s2: "?cb (?p b) s1 = Some (Inr (False, s2))" "fs_ok dev dsk (children_blocks us' + ?k) s2" "fs_keeps dsk (fs_put xs s1) s2"
      "list_all2 (child_of im D sz) (filter shown (drop (Suc i) es)) us'" "children_text us = xs @ children_text us'" "set us' \<subseteq> set us"
    by (elim exE conjE) (rule that)
  have ok2: "fs_ok dev dsk (3 * ((length es - 1) div 32 - i div 32) + (children_blocks us' + k)) s2" using s2(2) by (simp add: ac_simps)
  have m: "m = length es - Suc i" and c: "i div 32 = (Suc i - 1) div 32" using Suc.hyps(2) by simp_all
  have h: "\<forall>u\<in>set us'. tree_height (snd u) \<le> n" using Suc.prems(8) s2(6) by blast
  obtain s' where s': "traverse_loop dev im dir ?cb m (of_nat (i div 32)) b (?p b + sizeof_dir_entry) s2 = Some (Inr (0, s'))"
    "fs_ok dev dsk k s'" "fs_keeps dsk (fs_put (children_text us') s2) s'"
    using Suc.hyps(1) [OF m Suc_leI [OF i] c ok2 list_state_keeps [OF s2(3) st1] dir_state_put [OF s2(3) dir_state_keeps [OF s1(3) Suc.prems(5)]]
        zone_at_keeps [OF s2(3) s1(4)] s2(4) h]
    unfolding m [symmetric] next_entry [symmetric] by (elim exE conjE) (rule that)
  have "fs_keeps dsk (fs_put (children_text us) s) s'"
    using fs_keeps_put [OF fs_keeps_put [OF k1 s2(3)] s'(3)] by (simp only: s2(5) append_Nil)
  then show ?case using s'(1,2) unfolding Suc.hyps(2) [symmetric] s1(1) s2(1)
    by (intro exI [of _ s']) (simp only: robind_simps prod.case if_False simp_thms)
qed

text \<open>One level of the recursion.\<close>

lemma list_dir:
  assumes IH: "lists_trees n dev dsk im D I K d sz" and h: "tree_height (Dir m us) \<le> Suc n" and p: "p \<in> I"
    and t: "tree_of im D sz p (Dir m us)" and st: "list_state dsk im D I K d sz s" and ok: "fs_ok dev dsk (tree_blocks (Dir m us) + k) s"
  shows "\<exists>s'. list_entries (Suc n) dev im p s = Some (Inr s') \<and> fs_ok dev dsk k s' \<and> fs_keeps dsk (fs_put (tree_text (Dir m us)) s) s'"
proof -
  have dt: "dir_tree dsk im D I K s" and p0: "p \<noteq> 0" and l: "literal_ok im s list_format" and sz: "inode_size (fs_mem s) p = m"
    using st tree_inode(1,2,5) [OF st p t] by (simp_all add: list_state_def)
  obtain es where us: "D p = Some es" "list_all2 (child_of im D sz) (filter shown es) us" using t by (auto split: option.splits)
  then have e: "off_heap s p 56" "is_directory (inode_mode (fs_mem s) p)" "unat (inode_size (fs_mem s) p) div 32 = length es"
    "\<forall>i<length es. disk_entry d (inode_zone (fs_mem s) p) i (es ! i)" "\<forall>e\<in>set es. inode_at im (ucast (fst e)) \<in> I"
    using dt p p0 st by (force simp: dir_tree_def list_state_def)+
  let ?zs = "inode_zone (fs_mem s) p" and ?name = "literal im list_format" and ?C = "(length es - 1) div 32"
  have ds: "dir_state dsk d ?zs p ?name (bytes list_format) s"
    using e(1) l st by (simp add: dir_state_def literal_ok_def list_state_def bytes_def)
  have ok': "fs_ok dev dsk (3 * (?C + 1) + (children_blocks us + k)) s" using ok sz e(3) by (simp add: add.assoc)
  have L: "?C < 519" using zone_count_small [OF ok'] by linarith
  obtain b s1 where s1: "traverse_dir dev im p (list_cb n dev im) s = traverse_loop dev im p (list_cb n dev im) (length es) 0 b b s1"
    "fs_ok dev dsk (3 * ?C + (children_blocks us + k)) s1" "fs_keeps dsk s s1" "zone_at s1 d ?zs 0 b"
    using traverse_dir_start [OF ok' ds p0 e(2,3), where im = im and cb = "list_cb n dev im"] by (elim exE conjE) (rule that)
  have k1: "fs_keeps dsk (fs_put [] s) s1" using s1(3) by simp
  have h': "\<forall>u\<in>set us. tree_height (snd u) \<le> n" using height_children [OF _ h] by (metis prod.collapse)
  obtain s' where s': "traverse_loop dev im p (list_cb n dev im) (length es) 0 b b s1 = Some (Inr (0, s'))" "fs_ok dev dsk k s'"
    "fs_keeps dsk (fs_put (children_text us) s1) s'"
    using list_loop [OF IH e(4) L e(5), of 0 0 us k s1 p ?name "bytes list_format" b] s1(2,4) us(2) h'
      list_state_keeps [OF k1 st] dir_state_keeps [OF s1(3) ds] by auto
  have "list_entries (Suc n) dev im p s = Some (Inr s')"
    using s' by (simp only: list_entries.simps p0 e(2) if_True if_False s1(1) robind_simps prod.case)
  moreover have "fs_keeps dsk (fs_put (tree_text (Dir m us)) s) s'"
    using fs_keeps_put [OF k1 s'(3)] by (simp only: tree_text.simps append_Nil)
  ultimately show ?thesis using s'(2) by blast
qed

text \<open>Trees of every height are listed.\<close>

lemma list_entries_ok: "lists_trees n dev dsk im D I K d sz"
proof (induction n)
  case 0
  have "tree_height t \<noteq> 0" for t by (cases t) simp_all
  then show ?case by (simp add: lists_trees_def del: neq0_conv)
next
  case (Suc n)
  show ?case unfolding lists_trees_def
  proof (intro allI impI)
    fix p t s k
    assume h: "tree_height t \<le> Suc n" and p: "p \<in> I" and t: "tree_of im D sz p t" and st: "list_state dsk im D I K d sz s"
      and ok: "fs_ok dev dsk (tree_blocks t + k) s"
    show "\<exists>s'. list_entries (Suc n) dev im p s = Some (Inr s') \<and> fs_ok dev dsk k s' \<and> fs_keeps dsk (fs_put (tree_text t) s) s'"
    proof (cases t)
      case (File m)
      then have "p \<noteq> 0" "\<not> is_directory (inode_mode (fs_mem s) p)" using st p t by (auto simp: dir_tree_def list_state_def)
      then show ?thesis using ok File by simp
    next
      case (Dir m us)
      show ?thesis using list_dir [OF Suc.IH _ p _ st] h t ok unfolding Dir by blast
    qed
  qed
qed

section \<open>Properties\<close>

text \<open>A disk with a directory \<open>a\<close> that holds a file \<open>b\<close> of 7 bytes, and the entry \<open>.\<close> of the root; the inode table is at
  0x1000 and the literals are at 0x4000.\<close>

definition list_disk :: "nat \<Rightarrow> u32" where
  "list_disk = (\<lambda>_. 0)(1280 := 0x002E0001, 1288 := 0x00610002, 1536 := 0x00620003)"

definition list_mem :: mem where
  "list_mem = (\<lambda>_. 0)(0x1039 := 0x40, 0x103C := 0x40, 0x1046 := 5, 0x1071 := 0x40, 0x1074 := 0x20, 0x107E := 6, 0x10AC := 7,
     0x4000 := 0x25, 0x4001 := 0x73, 0x4002 := 9, 0x4003 := 0x25, 0x4004 := 0x64, 0x4005 := 9, 0x4006 := 0x25, 0x4007 := 0x73, 0x4008 := 10,
     0x4010 := 0x64, 0x4011 := 0x69, 0x4012 := 0x72, 0x4020 := 0x66, 0x4021 := 0x69, 0x4022 := 0x6C, 0x4023 := 0x65)"

definition list_image :: fs_image where
  "list_image = example_image\<lparr>literal := (\<lambda>xs. if xs = list_format then 0x4000 else if xs = ''dir'' then 0x4010 else 0x4020)\<rparr>"

definition list_dirs :: "u32 \<rightharpoonup> (u16 \<times> u8 list) list" where
  "list_dirs = [0x1038 \<mapsto> [(1, [0x2E]), (2, [0x61])], 0x1070 \<mapsto> [(3, [0x62])]]"

definition list_tree :: file_tree where
  "list_tree = Dir 64 [([0x61], Dir 32 [([0x62], File 7)])]"

lemma idle_disk_log: "ata_disk f (fs_log (idle_fs m [])) = f"
  by (simp add: idle_fs_def ata_disk_def ata_run_def)

lemma list_inodes:
  "inode_zone (fs_mem (idle_fs list_mem [])) 0x1038 0 = 5" "inode_zone (fs_mem (idle_fs list_mem [])) 0x1070 0 = 6"
  "inode_size (fs_mem (idle_fs list_mem [])) 0x1038 = 64" "inode_size (fs_mem (idle_fs list_mem [])) 0x1070 = 32"
  "inode_size (fs_mem (idle_fs list_mem [])) 0x10A8 = 7"
  "is_directory (inode_mode (fs_mem (idle_fs list_mem [])) 0x1038)" "is_directory (inode_mode (fs_mem (idle_fs list_mem [])) 0x1070)"
  "\<not> is_directory (inode_mode (fs_mem (idle_fs list_mem [])) 0x10A8)"
  by (simp_all add: field_accesses read16_def read32_def idle_fs_mem_read list_mem_def is_directory_def S_IFMT_def S_IFDIR_def)

lemma list_entries_on_disk:
  "zs 0 = 5 \<Longrightarrow> disk_entry list_disk zs 0 (1, [0x2E])" "zs 0 = 5 \<Longrightarrow> disk_entry list_disk zs 1 (2, [0x61])"
  "zs 0 = 6 \<Longrightarrow> disk_entry list_disk zs 0 (3, [0x62])"
  by (simp_all add: disk_entry_def zone_block_def disk_half_def disk_byte_def list_disk_def)

lemma list_example_dirs:
  "dir_tree (ata_disk list_disk) list_image list_dirs {0x1038, 0x1070, 0x10A8} 1 (idle_fs list_mem [])"
proof -
  have "disk_entry list_disk (inode_zone (fs_mem (idle_fs list_mem [])) 0x1038) i ([(1, [0x2E]), (2, [0x61])] ! i)" if "i < 2" for i
    using less_2_cases [OF that] list_entries_on_disk(1,2) [of "inode_zone (fs_mem (idle_fs list_mem [])) 0x1038"] list_inodes(1) by (elim disjE) simp_all
  then show ?thesis using list_entries_on_disk(3) [of "inode_zone (fs_mem (idle_fs list_mem [])) 0x1070"]
    by (simp add: dir_tree_def idle_disk_log idle_off_heap list_dirs_def list_inodes inode_at_def list_image_def example_image_def layout_sizes)
qed

lemma list_example_tree: "tree_of list_image list_dirs (inode_size (fs_mem (idle_fs list_mem []))) 0x1038 list_tree"
  by (simp add: list_tree_def list_dirs_def list_inodes shown_def inode_at_def list_image_def example_image_def layout_sizes)

lemma list_example_literals: "list_literals list_image (idle_fs list_mem [])"
  by (simp add: list_literals_def literal_ok_def list_image_def idle_off_heap list_format_def tab_def nl_def bytes_def
      idle_fs_mem_read list_mem_def)

text \<open>C31. On a disk whose shown directories below an inode form a tree, \<open>list_entries\<close> returns for every bound of the depth that is at
  least the height of the tree: it prints name, size and type of every entry whose name does not start with a dot, each
  directory followed by its content, and nothing else. It keeps the cache coherent and changes neither the disk nor memory outside
  of the heap. The cache has room for the blocks of the tree, three for each zone of a directory, so that nothing is evicted.\<close>

theorem list_entries_lists:
  assumes "fs_ok dev dsk (tree_blocks t + k) s" and "dir_tree dsk im D I K s" and "p \<in> I"
    and "tree_of im D (inode_size (fs_mem s)) p t" and "list_literals im s" and "tree_height t \<le> n"
  shows "\<exists>s'. list_entries n dev im p s = Some (Inr s') \<and> fs_ok dev dsk k s' \<and> fs_keeps dsk (fs_put (tree_text t) s) s'"
proof -
  have "list_state dsk im D I K (dsk (fs_log s)) (inode_size (fs_mem s)) s" using assms(2,5) by (simp add: list_state_def)
  then show ?thesis
    using list_entries_ok [of n dev dsk im D I K "dsk (fs_log s)" "inode_size (fs_mem s)"] assms by (simp add: lists_trees_def)
qed

theorem list_entries_lists_witness:
  "\<exists>s'. list_entries 3 (ata_sim list_disk) list_image (inode_at list_image kRootINO) (idle_fs list_mem []) = Some (Inr s')
    \<and> fs_con s' = put_text [0x61, 9, 0x33, 0x32, 9, 0x64, 0x69, 0x72, 10, 0x62, 9, 0x37, 9, 0x66, 0x69, 0x6C, 0x65, 10] example_console"
proof -
  have root: "inode_at list_image kRootINO = 0x1038" by (simp add: inode_at_def list_image_def example_image_def layout_sizes kRootINO_def)
  have ok: "fs_ok (ata_sim list_disk) (ata_disk list_disk) (tree_blocks list_tree + 0) (idle_fs list_mem [])"
    by (rule idle_fs_ok [OF _ ata_idle.power_on]) (simp add: list_tree_def)
  have h: "tree_height list_tree \<le> 3" by (simp add: list_tree_def)
  have tx: "tree_text list_tree = [0x61, 9, 0x33, 0x32, 9, 0x64, 0x69, 0x72, 10, 0x62, 9, 0x37, 9, 0x66, 0x69, 0x6C, 0x65, 10]"
    by (simp add: list_tree_def entry_line_def bytes_def tab_def nl_def dec_digits.simps)
  from list_entries_lists [OF ok list_example_dirs _ list_example_tree list_example_literals h] obtain s' where
    "list_entries 3 (ata_sim list_disk) list_image 0x1038 (idle_fs list_mem []) = Some (Inr s')"
    "fs_keeps (ata_disk list_disk) (fs_put (tree_text list_tree) (idle_fs list_mem [])) s'" by auto
  then show ?thesis unfolding root tx by (auto simp: fs_keeps_def idle_fs_def)
qed

end
