(* ===== verification/Sprite_Fs_Init.thy ===== *)
theory Sprite_Fs_Init
  imports Sprite_Fs
begin

text \<open>
  What \<open>init_fs\<close> and the block copies of \<open>lib/fs.cc\<close> achieve: \<open>read_blocks\<close> copies items from consecutive
  blocks of the disk into a table in memory, and \<open>init_fs\<close> thereby loads the super block, the inodes and
  both bitmaps. The tables are statics of the kernel and lie outside of the heap.
\<close>

section \<open>Writes outside of the heap\<close>

definition span :: "u32 \<Rightarrow> nat \<Rightarrow> nat set" where
  "span a n = {unat a..<unat a + n}"

text \<open>As \<open>fs_keeps\<close>, except for the bytes of a set outside of the heap.\<close>

definition fs_within :: "disk \<Rightarrow> nat set \<Rightarrow> fs \<Rightarrow> fs \<Rightarrow> bool" where
  "fs_within dsk A s s' \<longleftrightarrow> dsk (fs_log s') = dsk (fs_log s) \<and> fs_dev s' = fs_dev s \<and> fs_con s' = fs_con s \<and> lru_cb s' = lru_cb s
     \<and> mstart (lru_heap s') = mstart (lru_heap s) \<and> mend (lru_heap s') = mend (lru_heap s)
     \<and> (\<forall>y<2 ^ 32. (y < unat (mstart (lru_heap s)) \<or> unat (mend (lru_heap s)) \<le> y) \<and> y \<notin> A \<longrightarrow> fs_mem s' (of_nat y) = fs_mem s (of_nat y))
     \<and> (\<forall>x\<in>set (cached_nodes s). x \<in> set (cached_nodes s') \<and> node_key (lru_nodes s' x) = node_key (lru_nodes s x)
          \<and> (\<forall>i<1024. fs_mem s' (value_of x + of_nat i) = fs_mem s (value_of x + of_nat i)))"

lemma fs_keeps_within: "fs_keeps dsk s s' \<Longrightarrow> fs_within dsk A s s'"
  by (auto simp: fs_keeps_def fs_within_def)

lemma fs_within_trans: "fs_within dsk A s s' \<Longrightarrow> fs_within dsk B s' s'' \<Longrightarrow> fs_within dsk (A \<union> B) s s''"
  by (auto simp: fs_within_def)

lemma fs_within_mono: "fs_within dsk A s s' \<Longrightarrow> A \<subseteq> B \<Longrightarrow> fs_within dsk B s s'"
  by (auto simp: fs_within_def)

lemma off_heap_within:
  assumes "fs_within dsk A s s'" and "off_heap s a n"
  shows "off_heap s' a n" and "span a n \<inter> A = {} \<Longrightarrow> i < n \<Longrightarrow> fs_mem s' (a + of_nat i) = fs_mem s (a + of_nat i)"
proof -
  show "off_heap s' a n" using assms by (simp add: off_heap_def fs_within_def)
  assume d: "span a n \<inter> A = {}" and i: "i < n"
  have a: "a + of_nat i = of_nat (unat a + i)" by simp
  have "unat a + i \<in> span a n" using i by (simp add: span_def)
  then have "unat a + i \<notin> A" using d by blast
  moreover have "unat a + i < 2 ^ 32" "unat a + i < unat (mstart (lru_heap s)) \<or> unat (mend (lru_heap s)) \<le> unat a + i"
    using assms(2) i by (auto simp: off_heap_def)
  ultimately show "fs_mem s' (a + of_nat i) = fs_mem s (a + of_nat i)"
    using assms(1) unfolding a fs_within_def by blast
qed

text \<open>Storing outside of the heap keeps the cache as it is.\<close>

lemma set_mem_off_heap:
  assumes ok: "fs_ok dev dsk n s" and o: "off_heap s a l"
    and m: "\<And>y. y < 2 ^ 32 \<Longrightarrow> y \<notin> span a l \<Longrightarrow> m (of_nat y) = fs_mem s (of_nat y)"
  shows "fs_ok dev dsk n (set_mem m s) \<and> fs_within dsk (span a l) s (set_mem m s)"
proof -
  let ?h = "lru_heap s"
  have inv: "lru_invar kCacheSize sizeof_block_buffer s" using ok by (simp add: fs_ok_def)
  have ih: "il_invar ?h" using inv by (simp add: lru_invar_def lru_list_def)
  have e: "unat (mend ?h) < 2 ^ 32" by (rule unat_u32_lt)
  have heap: "m (of_nat y) = fs_mem s (of_nat y)" if "unat (mstart ?h) \<le> y" "y < unat (mend ?h)" for y
    using that e o by (intro m) (auto simp: off_heap_def span_def)
  note f = il_frame [OF ih, of m]
  have f: "il_invar (?h\<lparr>il_mem := m\<rparr>)" "il_blocks (?h\<lparr>il_mem := m\<rparr>) = il_blocks ?h" "il_regions (?h\<lparr>il_mem := m\<rparr>) = il_regions ?h"
    by (rule f; use heap in \<open>simp add: fs_mem_def\<close>)+
  have buf: "m (value_of x + of_nat i) = fs_mem s (value_of x + of_nat i)" if "x \<in> set (cached_nodes s)" "i < 1024" for x i
  proof -
    note h = node_in_heap [OF inv that(1)]
    then have "unat x + 1040 < 2 ^ 32" using e by simp
    then have v: "value_of x + of_nat i = of_nat (unat x + 12 + i)" by (rule value_byte(1)) (use that(2) in simp)
    show ?thesis unfolding v by (rule heap) (use h that(2) in linarith)+
  qed
  have c: "cached_nodes (set_mem m s) = cached_nodes s" "cached_keys (set_mem m s) = cached_keys s" "fs_mem (set_mem m s) = m"
    by (simp_all add: cached_nodes_def cached_keys_def lru_keys_def set_mem_def fs_mem_def)
  have "lru_invar kCacheSize sizeof_block_buffer (set_mem m s)"
    using inv f unfolding lru_invar_def c by (simp add: lru_list_def queue_list_def set_mem_def)
  moreover have "holds_block m (value_of x) (dsk (fs_log s)) (node_key (lru_nodes s x))" if "x \<in> set (cached_nodes s)" for x
  proof (rule holds_block_cong)
    show "holds_block (fs_mem s) (value_of x) (dsk (fs_log s)) (node_key (lru_nodes s x))" using ok that by (simp add: fs_ok_def)
  qed (rule buf [OF that])
  ultimately have "fs_ok dev dsk n (set_mem m s)"
    using ok f(2) c by (simp add: fs_ok_def heap_room_def) (simp add: set_mem_def)
  moreover have "fs_within dsk (span a l) s (set_mem m s)"
    using m buf c by (simp add: fs_within_def) (simp add: set_mem_def)
  ultimately show ?thesis ..
qed

text \<open>What no operation of the block layer changes.\<close>

definition same_machine :: "fs \<Rightarrow> fs \<Rightarrow> bool" where
  "same_machine s s' \<longleftrightarrow> fs_dev s' = fs_dev s \<and> fs_con s' = fs_con s \<and> mstart (lru_heap s') = mstart (lru_heap s) \<and> mend (lru_heap s') = mend (lru_heap s)"

lemma same_machine_trans: "same_machine s s' \<Longrightarrow> same_machine s' s'' \<Longrightarrow> same_machine s s''"
  by (simp add: same_machine_def)

lemma same_machine_within: "fs_within dsk A s s' \<Longrightarrow> same_machine s s'"
  by (simp add: same_machine_def fs_within_def)

section \<open>Copies from a cached block\<close>

text \<open>A copy between memory that does not overlap, without wrap-around of the destination.\<close>

lemma memcpy_span:
  assumes "n < 2 ^ 32" and "apart src n dst n" and "unat dst + n \<le> 2 ^ 32"
  shows "i < n \<Longrightarrow> memcpy dst src (of_nat n) m (dst + of_nat i) = m (src + of_nat i)"
    and "y < 2 ^ 32 \<Longrightarrow> y \<notin> span dst n \<Longrightarrow> memcpy dst src (of_nat n) m (of_nat y) = m (of_nat y)"
proof -
  have m: "memcpy dst src (of_nat n) m = fold (\<lambda>i m. m(dst + of_nat i := m (src + of_nat i))) [0..<n] m"
    using assms(1) by (simp add: memcpy_def unat_of_nat_u32)
  note c = memcpy_fold [OF assms(1,2), of m]
  show "memcpy dst src (of_nat n) m (dst + of_nat i) = m (src + of_nat i)" if "i < n" unfolding m using c that by blast
  assume y: "y < 2 ^ 32" "y \<notin> span dst n"
  have "(of_nat y :: u32) \<noteq> dst + of_nat i" if "i < n" for i
  proof -
    have e: "dst + of_nat i = of_nat (unat dst + i)" by simp
    have "unat dst + i < 2 ^ 32" using assms(3) that by simp
    then show ?thesis unfolding e using y that by (subst of_nat_u32_eq_iff) (auto simp: span_def)
  qed
  then show "memcpy dst src (of_nat n) m (of_nat y) = m (of_nat y)" unfolding m using c by blast
qed

text \<open>Parts of a buffer lie in the heap and apart from anything outside of it.\<close>

lemma buffer_part:
  assumes inv: "lru_invar kCacheSize sizeof_block_buffer s" and x: "x \<in> set (cached_nodes s)" and r: "j + siz \<le> 1024" and o: "off_heap s p siz"
  shows "unat (value_of x + of_nat j) = unat x + 12 + j" and "unat x + 1040 < 2 ^ 32"
    and "apart (value_of x + of_nat j) siz p siz" and "apart p siz (value_of x + of_nat j) siz"
proof -
  let ?a = "value_of x + of_nat j" and ?h = "lru_heap s"
  note h = node_in_heap [OF inv x] unat_u32_lt [of "mend ?h"]
  show lt: "unat x + 1040 < 2 ^ 32" using h by simp
  have "j < 1028" using r by simp
  note w = value_byte [OF lt this]
  show v: "unat ?a = unat x + 12 + j" unfolding w(1) using w(2) by (rule unat_of_nat_u32)
  show ap: "apart ?a siz p siz"
  proof (cases "unat p + siz \<le> unat (mstart ?h)")
    case True
    then have "apart p siz ?a siz" using v h r by (intro apart_below) simp_all
    then show ?thesis by (simp add: apart_commute)
  next
    case False
    then show ?thesis using v h r o by (intro apart_below) (simp_all add: off_heap_def)
  qed
  then show "apart p siz ?a siz" by (simp add: apart_commute)
qed

definition block_at :: "fs \<Rightarrow> (nat \<Rightarrow> u32) \<Rightarrow> u32 \<Rightarrow> u32 \<Rightarrow> bool" where
  "block_at s d b a \<longleftrightarrow> holds_block (fs_mem s) a d b \<and> (\<exists>x\<in>set (cached_nodes s). a = value_of x)"

lemma block_at_within:
  assumes "fs_within dsk A s s'" and "block_at s d b a"
  shows "block_at s' d b a"
proof -
  obtain x where x: "x \<in> set (cached_nodes s)" "a = value_of x" using assms(2) by (auto simp: block_at_def)
  have "holds_block (fs_mem s') a d b"
  proof (rule holds_block_cong)
    show "holds_block (fs_mem s) a d b" using assms(2) by (simp add: block_at_def)
    show "fs_mem s' (a + of_nat i) = fs_mem s (a + of_nat i)" if "i < 1024" for i
      using assms(1) x that by (simp add: fs_within_def)
  qed
  moreover have "x \<in> set (cached_nodes s')" using assms(1) x(1) by (simp add: fs_within_def)
  ultimately show ?thesis using x(2) by (auto simp: block_at_def)
qed

lemma item_copy:
  assumes ok: "fs_ok dev dsk n s" and b: "block_at s d b a" and r: "j + siz \<le> 1024" and o: "off_heap s dst siz"
  defines "m \<equiv> memcpy dst (a + of_nat j) (of_nat siz) (fs_mem s)"
  shows "fs_ok dev dsk n (set_mem m s)" and "fs_within dsk (span dst siz) s (set_mem m s)"
    and "i < siz \<Longrightarrow> fs_mem (set_mem m s) (dst + of_nat i) = block_byte d b (j + i)"
proof -
  obtain x where x: "x \<in> set (cached_nodes s)" "a = value_of x" using b by (auto simp: block_at_def)
  have inv: "lru_invar kCacheSize sizeof_block_buffer s" using ok by (simp add: fs_ok_def)
  have lt: "siz < 2 ^ 32" and w: "unat dst + siz \<le> 2 ^ 32" using r o by (simp_all add: off_heap_def)
  note c = memcpy_span [OF lt buffer_part(3) [OF inv x(1) r o, folded x(2)] w, of _ "fs_mem s", folded m_def]
  from set_mem_off_heap [OF ok o c(2)] show "fs_ok dev dsk n (set_mem m s)" "fs_within dsk (span dst siz) s (set_mem m s)" by simp_all
  show "fs_mem (set_mem m s) (dst + of_nat i) = block_byte d b (j + i)" if "i < siz"
  proof -
    have "m (dst + of_nat i) = fs_mem s (a + of_nat (j + i))" using c(1) [OF that] by (simp add: algebra_simps)
    also have "\<dots> = block_byte d b (j + i)" using b r that by (intro holds_block_bytes) (simp_all add: block_at_def)
    finally show ?thesis by (simp add: set_mem_def fs_mem_def)
  qed
qed

section \<open>Items in consecutive blocks\<close>

text \<open>Reaching item \<open>i\<close>: one step of the loop of \<open>read_blocks\<close> up to the copy.\<close>

lemma read_blocks_reach:
  assumes i: "i < N" and c: "c = (i - 1) div q" and q: "isz * q = 1024"
    and ok: "fs_ok dev dsk ((N - 1) div q - c + k) s" and L: "unat start + (N - 1) div q < 0x8000000"
    and z: "block_at s d (start + of_nat c) a" and d: "dsk (fs_log s) = d"
  shows "\<exists>b s'. read_blocks_loop dev (of_nat isz) osz siz (Suc n) (start + of_nat c) a (a + of_nat (isz * (i - q * c))) dst s =
      read_blocks_loop dev (of_nat isz) osz siz n (start + of_nat (i div q)) b (b + of_nat (isz * (i mod q)) + of_nat isz) (dst + osz)
        (set_mem (memcpy dst (b + of_nat (isz * (i mod q))) siz (fs_mem s')) s')
    \<and> fs_ok dev dsk ((N - 1) div q - i div q + k) s' \<and> fs_keeps dsk s s' \<and> block_at s' d (start + of_nat (i div q)) b"
proof -
  have q0: "0 < q" using q by (cases q) simp_all
  obtain x where x: "x \<in> set (cached_nodes s)" "a = value_of x" using z by (auto simp: block_at_def)
  have "lru_invar kCacheSize sizeof_block_buffer s" using ok by (simp add: fs_ok_def)
  from value_in_range [OF this x(1)] have a: "unat a + 1024 < 2 ^ 32" by (simp add: x(2))
  have j: "i - q * c \<le> q" unfolding c by (rule item_position [OF q0])
  note e = block_end [OF a q j]
  show ?thesis
  proof (cases "i - q * c = q")
    case False
    then have iv: "i div q = c" "i mod q = i - q * c" unfolding c using item_position(3,4) [OF q0, of i] by blast+
    have "\<not> a + kBlockSize \<le> a + of_nat (isz * (i - q * c))" using e False by blast
    then show ?thesis unfolding iv
      by (intro exI [of _ a] exI [of _ s]) (simp only: read_blocks_loop.simps Let_def if_False ok z fs_keeps_refl simp_thms)
  next
    case True
    then have iv: "i div q = Suc c" "i mod q = 0" unfolding c using item_position(5,6) [OF q0, of i] by blast+
    have le: "i div q \<le> (N - 1) div q" using i by (intro div_le_mono) simp
    then have "(N - 1) div q - c + k = Suc ((N - 1) div q - i div q + k)" using iv(1) by simp
    then have ok': "fs_ok dev dsk (Suc ((N - 1) div q - i div q + k)) s" using ok by metis
    have n: "start + of_nat c + 1 = start + of_nat (Suc c)" by simp
    have "unat (start + of_nat (Suc c)) = unat start + Suc c"
      using L le iv(1) by (simp add: unat_word_ariths unat_of_nat)
    then have "bno_ok (start + of_nat (Suc c))" using L le iv(1) by (simp add: bno_ok_def)
    from read_block_ok [OF ok' this] obtain b s' where b: "read_block dev (start + of_nat c + 1) s = Some (Inr (b, s'))" "b \<noteq> 0"
      "fs_ok dev dsk ((N - 1) div q - i div q + k) s'" "fs_keeps dsk s s'" "block_at s' d (start + of_nat (Suc c)) b"
      unfolding n block_at_def d by blast
    have "a + kBlockSize \<le> a + of_nat (isz * (i - q * c))" using e True by blast
    moreover have "b + word_of_nat 0 = b" by simp
    ultimately show ?thesis using b(2-5) unfolding iv
      by (intro exI [of _ b] exI [of _ s'])
        (simp only: read_blocks_loop.simps Let_def if_True if_False b(1) [unfolded n] robind_simps prod.case n simp_thms mult_0_right)
  qed
qed

text \<open>Where item \<open>j\<close> of a sequence that starts at block \<open>start\<close> lies on the disk, byte by byte.\<close>

definition item_byte :: "(nat \<Rightarrow> u32) \<Rightarrow> u32 \<Rightarrow> nat \<Rightarrow> nat \<Rightarrow> nat \<Rightarrow> u8" where
  "item_byte d start isz j i = block_byte d (start + of_nat (j div (1024 div isz))) (isz * (j mod (1024 div isz)) + i)"

lemma item_per_block: "isz * q = (1024 :: nat) \<Longrightarrow> 0 < q \<and> 1024 div isz = q"
  by (metis nonzero_mult_div_cancel_left mult_eq_0_iff zero_neq_numeral gr0I)

lemma mult_Suc_le: "i < N \<Longrightarrow> z * i + z \<le> z * (N :: nat)"
  by (metis Suc_leI mult_Suc_right mult_le_mono2 add.commute)

lemma item_advance: "(a :: u32) + of_nat (z * (i mod q)) + of_nat z = a + of_nat (z * (Suc i - q * (i div q)))"
  "(a :: u32) + of_nat (z * i) + of_nat z = a + of_nat (z * Suc i)"
proof -
  have "Suc i - q * (i div q) = Suc (i mod q)" using mult_div_mod_eq [of q i] by linarith
  then show "a + of_nat (z * (i mod q)) + of_nat z = a + of_nat (z * (Suc i - q * (i div q)))" by (simp add: algebra_simps)
qed (simp add: algebra_simps)

text \<open>The copy of item \<open>i\<close> to its place in the table.\<close>

lemma read_item:
  assumes ok: "fs_ok dev dsk n s" and b: "block_at s d (start + of_nat (i div q)) a" and q: "isz * q = 1024"
    and siz: "siz \<le> isz" "siz \<le> osz" "0 < siz" and i: "i < N" and o: "off_heap s base (osz * N)"
  defines "s' \<equiv> set_mem (memcpy (base + of_nat (osz * i)) (a + of_nat (isz * (i mod q))) (of_nat siz) (fs_mem s)) s"
  shows "fs_ok dev dsk n s'" and "fs_within dsk {unat base + osz * i..<unat base + osz * i + siz} s s'"
    and "l < siz \<Longrightarrow> fs_mem s' (base + of_nat (osz * i + l)) = item_byte d start isz i l"
proof -
  let ?dst = "base + of_nat (osz * i)"
  have iN: "osz * i + osz \<le> osz * N" by (rule mult_Suc_le [OF i])
  have u: "unat ?dst = unat base + osz * i"
    using o iN siz by (simp add: off_heap_def unat_word_ariths unat_of_nat del: of_nat_mult)
  then have o': "off_heap s ?dst siz" using o iN siz(2) by (auto simp: off_heap_def)
  have "isz * (i mod q) + isz \<le> isz * q" by (rule mult_Suc_le) (use item_per_block [OF q] in simp)
  then have r: "isz * (i mod q) + siz \<le> 1024" using q siz(1) by simp
  note cp = item_copy [OF ok b r o', folded s'_def]
  show "fs_ok dev dsk n s'" "fs_within dsk {unat base + osz * i..<unat base + osz * i + siz} s s'"
    using cp(1) cp(2) [unfolded span_def u] by simp_all
  have e: "base + of_nat (osz * i + l) = ?dst + of_nat l" by simp
  show "fs_mem s' (base + of_nat (osz * i + l)) = item_byte d start isz i l" if "l < siz"
    using cp(3) [OF that] item_per_block [OF q] unfolding e by (simp add: item_byte_def)
qed

lemma read_blocks_loop_ok:
  assumes q: "isz * q = 1024" and siz: "siz \<le> isz" "siz \<le> osz" "0 < siz" and L: "unat start + (N - 1) div q < 0x8000000"
  shows "i \<le> N \<Longrightarrow> c = (i - 1) div q \<Longrightarrow> fs_ok dev dsk ((N - 1) div q - c + k) s \<Longrightarrow> off_heap s base (osz * N) \<Longrightarrow>
    block_at s d (start + of_nat c) a \<Longrightarrow> dsk (fs_log s) = d \<Longrightarrow>
    \<exists>s'. read_blocks_loop dev (of_nat isz) (of_nat osz) (of_nat siz) (N - i) (start + of_nat c) a (a + of_nat (isz * (i - q * c)))
          (base + of_nat (osz * i)) s = Some (Inr (True, s'))
      \<and> fs_ok dev dsk k s' \<and> fs_within dsk {unat base + osz * i..<unat base + osz * N} s s'
      \<and> (\<forall>j. i \<le> j \<and> j < N \<longrightarrow> (\<forall>l. l < siz \<longrightarrow> fs_mem s' (base + of_nat (osz * j + l)) = item_byte d start isz j l))"
proof (induction "N - i" arbitrary: i c s a)
  case 0
  then show ?case using fs_ok_mono [OF 0(4), of k] fs_keeps_within [OF fs_keeps_refl] by (intro exI [of _ s]) auto
next
  case (Suc n)
  have i: "i < N" using Suc.hyps(2) by simp
  obtain b s1 where s1: "read_blocks_loop dev (of_nat isz) (of_nat osz) (of_nat siz) (Suc n) (start + of_nat c) a
        (a + of_nat (isz * (i - q * c))) (base + of_nat (osz * i)) s =
      read_blocks_loop dev (of_nat isz) (of_nat osz) (of_nat siz) n (start + of_nat (i div q)) b (b + of_nat (isz * (i mod q)) + of_nat isz)
        (base + of_nat (osz * i) + of_nat osz) (set_mem (memcpy (base + of_nat (osz * i)) (b + of_nat (isz * (i mod q))) (of_nat siz) (fs_mem s1)) s1)"
    "fs_ok dev dsk ((N - 1) div q - i div q + k) s1" "fs_keeps dsk s s1" "block_at s1 d (start + of_nat (i div q)) b"
    using read_blocks_reach [OF i Suc.prems(2) q Suc.prems(3) L Suc.prems(5,6)] by blast
  define s2 where "s2 = set_mem (memcpy (base + of_nat (osz * i)) (b + of_nat (isz * (i mod q))) (of_nat siz) (fs_mem s1)) s1"
  have o1: "off_heap s1 base (osz * N)" by (rule off_heap_keeps(1) [OF s1(3) Suc.prems(4)])
  note cp = read_item [OF s1(2,4) q siz i o1, folded s2_def]
  have o2: "off_heap s2 base (osz * N)" by (rule off_heap_within(1) [OF cp(2) o1])
  have W: "fs_within dsk {unat base + osz * i..<unat base + osz * i + siz} s s2"
    using fs_within_trans [OF fs_keeps_within [OF s1(3), of "{}"] cp(2)] by simp
  have d2: "dsk (fs_log s2) = d" using W Suc.prems(6) by (simp add: fs_within_def)
  have n: "n = N - Suc i" and c': "i div q = (Suc i - 1) div q" using Suc.hyps(2) by simp_all
  obtain s' where s': "read_blocks_loop dev (of_nat isz) (of_nat osz) (of_nat siz) n (start + of_nat (i div q)) b
        (b + of_nat (isz * (i mod q)) + of_nat isz) (base + of_nat (osz * i) + of_nat osz) s2 = Some (Inr (True, s'))"
      "fs_ok dev dsk k s'" "fs_within dsk {unat base + osz * Suc i..<unat base + osz * N} s2 s'"
      "\<forall>j. Suc i \<le> j \<and> j < N \<longrightarrow> (\<forall>l. l < siz \<longrightarrow> fs_mem s' (base + of_nat (osz * j + l)) = item_byte d start isz j l)"
    using Suc.hyps(1) [OF n Suc_leI [OF i] c' cp(1) o2 block_at_within [OF cp(2) s1(4)] d2]
    unfolding item_advance(1) unfolding item_advance(2) n [symmetric] by blast
  have W': "fs_within dsk {unat base + osz * i..<unat base + osz * N} s s'"
    by (rule fs_within_mono [OF fs_within_trans [OF W s'(3)]]) (use mult_Suc_le [OF i, of osz] siz(2) in auto)
  have oi: "off_heap s2 base (osz * Suc i)" using o2 mult_Suc_le [OF i, of osz] by (auto simp: off_heap_def)
  have "fs_mem s' (base + of_nat (osz * i + l)) = item_byte d start isz i l" if l: "l < siz" for l
    using off_heap_within(2) [OF s'(3) oi, of "osz * i + l"] cp(3) [OF l] l siz(2) by (simp add: span_def del: of_nat_add of_nat_mult)
  then have "fs_mem s' (base + of_nat (osz * j + l)) = item_byte d start isz j l" if "i \<le> j" "j < N" "l < siz" for j l
    using s'(4) that by (cases "j = i") simp_all
  then show ?case using s'(1,2) W' unfolding Suc.hyps(2) [symmetric] s1(1) s2_def [symmetric]
    by (intro exI [of _ s']) blast
qed

lemma read_blocks_ok:
  assumes q: "isz * q = 1024" and siz: "siz \<le> isz" "siz \<le> osz" "0 < siz" and N: "N = unat count"
    and L: "unat start + (N - 1) div q < 0x8000000" and o: "off_heap s base (osz * N)"
    and ok: "fs_ok dev dsk (Suc ((N - 1) div q + k)) s" and d: "dsk (fs_log s) = d"
  shows "\<exists>s'. read_blocks dev (of_nat isz) (of_nat osz) start base count (of_nat siz) s = Some (Inr (True, s'))
    \<and> fs_ok dev dsk k s' \<and> fs_within dsk (span base (osz * N)) s s'
    \<and> (\<forall>j<N. \<forall>l. l < siz \<longrightarrow> fs_mem s' (base + of_nat (osz * j + l)) = item_byte d start isz j l)"
proof -
  have "bno_ok start" using L by (simp add: bno_ok_def)
  from read_block_ok [OF ok this] obtain a s1 where s1: "read_block dev start s = Some (Inr (a, s1))" "fs_ok dev dsk ((N - 1) div q + k) s1"
    "fs_keeps dsk s s1" "block_at s1 d start a" unfolding block_at_def d by blast
  have o1: "off_heap s1 base (osz * N)" by (rule off_heap_keeps(1) [OF s1(3) o])
  have d1: "dsk (fs_log s1) = d" using s1(3) d by (simp add: fs_keeps_def)
  obtain s' where s': "read_blocks_loop dev (of_nat isz) (of_nat osz) (of_nat siz) N start a a base s1 = Some (Inr (True, s'))"
    "fs_ok dev dsk k s'" "fs_within dsk {unat base..<unat base + osz * N} s1 s'"
    "\<forall>j<N. \<forall>l. l < siz \<longrightarrow> fs_mem s' (base + of_nat (osz * j + l)) = item_byte d start isz j l"
    using read_blocks_loop_ok [OF q siz L, of 0 0 dev dsk k s1 base d a] s1(2,4) o1 d1 by auto
  have "fs_within dsk (span base (osz * N)) s s'"
    using fs_within_trans [OF fs_keeps_within [OF s1(3), of "{}"] s'(3)] by (simp add: span_def)
  then show ?thesis using s1(1) s' by (auto simp: read_blocks_def N)
qed

section \<open>Initialisation of the file system\<close>

text \<open>The fields of the super block on the disk.\<close>

definition sb_half :: "(nat \<Rightarrow> u32) \<Rightarrow> nat \<Rightarrow> nat" where
  "sb_half d i = unat (disk_half d 1 i)"

definition inode_block :: "(nat \<Rightarrow> u32) \<Rightarrow> u32" where
  "inode_block d = of_nat (2 + sb_half d 2 + sb_half d 3)"

text \<open>The number of blocks that hold \<open>n\<close> items, \<open>q\<close> to a block; the code reads one even for no item.\<close>

definition blocks_for :: "nat \<Rightarrow> nat \<Rightarrow> nat" where
  "blocks_for n q = (n - 1) div q + 1"

text \<open>The tables that \<open>init_fs\<close> fills.\<close>

definition fs_tables :: "fs_image \<Rightarrow> (nat \<Rightarrow> u32) \<Rightarrow> (u32 \<times> nat) list" where
  "fs_tables im d = [(g_super_block im, 39), (inode_at im 1, 56 * sb_half d 0), (g_imap_data im, sb_half d 0 div 8),
     (g_zmap_data im, sb_half d 1 div 8)]"

fun spans_apart :: "(u32 \<times> nat) list \<Rightarrow> bool" where
  "spans_apart [] = True"
| "spans_apart (r # rs) = ((\<forall>r'\<in>set rs. span (fst r) (snd r) \<inter> span (fst r') (snd r') = {}) \<and> spans_apart rs)"

lemma half_bytes:
  fixes w :: u32
  shows "(ucast (ucast w :: u8) :: u16) OR push_bit 8 (ucast (ucast (drop_bit 8 w) :: u8)) = ucast w"
  by (rule bit_eqI) (auto simp: bit_simps dest: bit_imp_le_length)

lemma read16_block:
  assumes "m p = block_byte d (ucast b) (2 * i)" and "m (p + 1) = block_byte d (ucast b) (2 * i + 1)"
  shows "read16 m p = disk_half d b i"
proof -
  define k where "k = i div 2"
  let ?w = "d (256 * unat b + k)"
  have "i = 2 * k \<or> i = 2 * k + 1" unfolding k_def by presburger
  then show ?thesis
  proof
    assume i: "i = 2 * k"
    then have "2 * i mod 4 = 0" "2 * i div 4 = k" "(2 * i + 1) mod 4 = 1" "(2 * i + 1) div 4 = k" by presburger+
    then show ?thesis using assms half_bytes [of ?w] i
      by (simp add: read16_def block_byte_def disk_half_def unat_zone_number)
  next
    assume i: "i = 2 * k + 1"
    then have "2 * i mod 4 = 2" "2 * i div 4 = k" "(2 * i + 1) mod 4 = 3" "(2 * i + 1) div 4 = k" by presburger+
    then show ?thesis using assms half_bytes [of "drop_bit 16 ?w"] i
      by (simp add: read16_def block_byte_def disk_half_def unat_zone_number)
  qed
qed

lemma sb_half_less: "sb_half d i < 65536"
  by (simp add: sb_half_def zone_number_less)

lemma set_callback: "fs_ok dev dsk n (SetUncacheCallback cb s) = fs_ok dev dsk n s" "fs_mem (SetUncacheCallback cb s) = fs_mem s"
  "off_heap (SetUncacheCallback cb s) a l = off_heap s a l" "fs_log (SetUncacheCallback cb s) = fs_log s" "lru_cb (SetUncacheCallback cb s) = cb"
  by (simp_all add: SetUncacheCallback_def fs_ok_def fs_mem_def off_heap_def cached_nodes_def cached_keys_def lru_keys_def lru_invar_def
      lru_list_def queue_list_def)

text \<open>A table that the rest of the initialisation does not touch.\<close>

lemma table_kept:
  assumes "fs_within dsk (span b k) s s'" and "off_heap s a n" and "span a n \<inter> span b k = {}" and "i < n"
  shows "fs_mem s' (a + of_nat i) = fs_mem s (a + of_nat i)"
  by (rule off_heap_within(2) [OF assms])

text \<open>The super block in memory, as the disk has it.\<close>

definition sb_loaded :: "fs_image \<Rightarrow> (nat \<Rightarrow> u32) \<Rightarrow> fs \<Rightarrow> bool" where
  "sb_loaded im d s \<longleftrightarrow> (\<forall>i<39. fs_mem s (g_super_block im + of_nat i) = block_byte d 1 i)"

lemma sb_loaded_fields:
  assumes "sb_loaded im d s"
  shows "sb_num_inodes (fs_mem s) (g_super_block im) = disk_half d 1 0" and "sb_num_zones (fs_mem s) (g_super_block im) = disk_half d 1 1"
    and "sb_num_imap_blocks (fs_mem s) (g_super_block im) = disk_half d 1 2" and "sb_num_zmap_blocks (fs_mem s) (g_super_block im) = disk_half d 1 3"
proof -
  let ?p = "g_super_block im"
  have r: "read16 (fs_mem s) (?p + of_nat (2 * i)) = disk_half d 1 i" if "i < 19" for i
  proof (rule read16_block)
    show "fs_mem s (?p + of_nat (2 * i)) = block_byte d (ucast (1 :: u16)) (2 * i)" using assms that by (simp add: sb_loaded_def del: of_nat_mult)
    have e: "?p + of_nat (2 * i) + 1 = ?p + of_nat (2 * i + 1)" by simp
    show "fs_mem s (?p + of_nat (2 * i) + 1) = block_byte d (ucast (1 :: u16)) (2 * i + 1)"
      unfolding e using assms that by (simp add: sb_loaded_def del: of_nat_mult of_nat_add of_nat_Suc)
  qed
  from r [of 0] r [of 1] r [of 2] r [of 3] show "sb_num_inodes (fs_mem s) ?p = disk_half d 1 0" "sb_num_zones (fs_mem s) ?p = disk_half d 1 1"
    "sb_num_imap_blocks (fs_mem s) ?p = disk_half d 1 2" "sb_num_zmap_blocks (fs_mem s) ?p = disk_half d 1 3"
    by (simp_all add: sb_num_inodes_def sb_num_zones_def sb_num_imap_blocks_def sb_num_zmap_blocks_def super_block_def)
qed

lemma sb_loaded_within:
  assumes "fs_within dsk (span a n) s s'" and "sb_loaded im d s" and "off_heap s (g_super_block im) 39"
    and "span (g_super_block im) 39 \<inter> span a n = {}"
  shows "sb_loaded im d s'"
  using assms(2) table_kept [OF assms(1,3,4)] by (simp add: sb_loaded_def)

definition table_loaded :: "u32 \<Rightarrow> nat \<Rightarrow> nat \<Rightarrow> u32 \<Rightarrow> nat \<Rightarrow> (nat \<Rightarrow> u32) \<Rightarrow> nat \<Rightarrow> fs \<Rightarrow> bool" where
  "table_loaded a osz siz start isz d N s \<longleftrightarrow>
     (\<forall>j<N. \<forall>l. l < siz \<longrightarrow> fs_mem s (a + of_nat (osz * j + l)) = item_byte d start isz j l)"

lemma table_loaded_within:
  assumes w: "fs_within dsk (span b k) s s'" and t: "table_loaded a osz siz start isz d N s" and o: "off_heap s a (osz * N)"
    and ap: "span a (osz * N) \<inter> span b k = {}" and siz: "siz \<le> osz"
  shows "table_loaded a osz siz start isz d N s'"
  unfolding table_loaded_def
proof (intro allI impI)
  fix j l assume j: "j < N" and l: "l < siz"
  have "osz * j + osz \<le> osz * N" using j by (metis Suc_leI mult_Suc_right mult_le_mono2 add.commute)
  then have "osz * j + l < osz * N" using l siz by simp
  from table_kept [OF w o ap this] t j l show "fs_mem s' (a + of_nat (osz * j + l)) = item_byte d start isz j l"
    by (simp add: table_loaded_def del: of_nat_add of_nat_mult)
qed

text \<open>A table as \<open>init_fs\<close> loads it: afterwards its items are those of the disk, and tables elsewhere stay.\<close>

lemma load_table:
  assumes "isz * q = 1024" and "siz \<le> isz" and "siz \<le> osz" and "0 < siz" and "N = unat count"
    and "unat start + (N - 1) div q < 0x8000000" and "off_heap s base (osz * N)"
    and "fs_ok dev dsk (Suc ((N - 1) div q + k)) s" and "dsk (fs_log s) = d"
  obtains s' where "read_blocks dev (of_nat isz) (of_nat osz) start base count (of_nat siz) s = Some (Inr (True, s'))"
    and "fs_ok dev dsk k s'" and "fs_within dsk (span base (osz * N)) s s'" and "table_loaded base osz siz start isz d N s'"
    and "dsk (fs_log s') = d" and "lru_cb s' = lru_cb s" and "\<And>a l. off_heap s a l \<Longrightarrow> off_heap s' a l"
proof -
  obtain s' where s': "read_blocks dev (of_nat isz) (of_nat osz) start base count (of_nat siz) s = Some (Inr (True, s'))"
    "fs_ok dev dsk k s'" "fs_within dsk (span base (osz * N)) s s'" "table_loaded base osz siz start isz d N s'"
    using read_blocks_ok [OF assms] unfolding table_loaded_def by blast
  moreover have "dsk (fs_log s') = d" "lru_cb s' = lru_cb s" using s'(3) assms(9) by (simp_all add: fs_within_def)
  ultimately show ?thesis using off_heap_within(1) [OF s'(3)] by (intro that)
qed

lemma unat_half: "unat (ucast (disk_half d 1 i) :: u32) = sb_half d i" "(ucast (disk_half d 1 i) :: u32) = of_nat (sb_half d i)"
  by (simp_all add: sb_half_def unat_zone_number word_unat_eq_iff unat_of_nat_u32 order_less_trans [OF zone_number_less])

lemma load_super_block:
  assumes ok: "fs_ok dev dsk (Suc n) s" and o: "off_heap s (g_super_block im) 39" and d: "dsk (fs_log s) = d"
  shows "\<exists>b s1 s2. read_block dev kSuperBlockBNO s = Some (Inr (b, s1))
    \<and> s2 = SetUncacheCallback (uncache_addr im) (set_mem (memcpy (g_super_block im) b sizeof_super_block (fs_mem s1)) s1)
    \<and> fs_ok dev dsk n s2 \<and> sb_loaded im d s2 \<and> lru_cb s2 = uncache_addr im \<and> dsk (fs_log s2) = d
    \<and> (\<forall>a l. off_heap s a l \<longrightarrow> off_heap s2 a l) \<and> same_machine s s2"
proof -
  have "bno_ok kSuperBlockBNO" by (simp add: bno_ok_def kSuperBlockBNO_def)
  from read_block_ok [OF ok this] obtain b s1 where s1: "read_block dev kSuperBlockBNO s = Some (Inr (b, s1))" "fs_ok dev dsk n s1"
    "fs_keeps dsk s s1" "block_at s1 d 1 b" unfolding block_at_def d kSuperBlockBNO_def by blast
  have o1: "off_heap s1 (g_super_block im) 39" by (rule off_heap_keeps(1) [OF s1(3) o])
  let ?s = "set_mem (memcpy (g_super_block im) b sizeof_super_block (fs_mem s1)) s1"
  have z: "sizeof_super_block = of_nat 39" "b + of_nat 0 = b" by (simp_all add: layout_sizes)
  note cp = item_copy [OF s1(2,4) _ o1, of 0, unfolded z(2), folded z(1)]
  have w: "fs_within dsk (span (g_super_block im) 39) s1 ?s" by (rule cp(2)) simp
  have "off_heap (SetUncacheCallback (uncache_addr im) ?s) a l" if "off_heap s a l" for a l
    using off_heap_within(1) [OF w off_heap_keeps(1) [OF s1(3) that]] by (simp add: set_callback)
  moreover have "dsk (fs_log ?s) = d" using w s1(3) d by (simp add: fs_within_def fs_keeps_def)
  moreover have "same_machine s (SetUncacheCallback (uncache_addr im) ?s)"
    using same_machine_trans [OF same_machine_within [OF fs_keeps_within [OF s1(3)]] same_machine_within [OF w]]
    by (simp add: same_machine_def SetUncacheCallback_def)
  ultimately show ?thesis using s1(1) cp
    by (intro exI [of _ b] exI [of _ s1] exI [of _ "SetUncacheCallback (uncache_addr im) ?s"]) (simp add: set_callback sb_loaded_def)
qed

text \<open>The three tables one after the other, from a state with the super block in memory.\<close>

lemma init_tables_ok:
  fixes d im
  defines "ni \<equiv> sb_half d 0" and "nz \<equiv> sb_half d 1"
  assumes ok: "fs_ok dev dsk (Suc ((ni - 1) div 32 + Suc ((ni div 8 - 1) div 1024 + Suc ((nz div 8 - 1) div 1024 + k)))) s2"
    and l2: "sb_loaded im d s2" and d: "dsk (fs_log s2) = d"
    and o: "\<forall>(a, n)\<in>set (fs_tables im d). off_heap s2 a n" and ap: "spans_apart (fs_tables im d)"
  shows "\<exists>s3 s4 s5. read_blocks dev 32 56 (inode_block d) (inode_at im 1) (ucast (disk_half d 1 0)) 32 s2 = Some (Inr (True, s3))
    \<and> read_blocks dev 1 1 2 (g_imap_data im) (ucast (disk_half d 1 0) div 8) 1 s3 = Some (Inr (True, s4))
    \<and> read_blocks dev 1 1 (of_nat (2 + sb_half d 2)) (g_zmap_data im) (ucast (disk_half d 1 1) div 8) 1 s4 = Some (Inr (True, s5))
    \<and> sb_loaded im d s3 \<and> sb_loaded im d s4 \<and> sb_loaded im d s5 \<and> fs_ok dev dsk k s5 \<and> dsk (fs_log s5) = d \<and> lru_cb s5 = lru_cb s2
    \<and> table_loaded (inode_at im 1) 56 32 (inode_block d) 32 d ni s5 \<and> table_loaded (g_imap_data im) 1 1 2 1 d (ni div 8) s5
    \<and> table_loaded (g_zmap_data im) 1 1 (of_nat (2 + sb_half d 2)) 1 d (nz div 8) s5 \<and> same_machine s2 s5"
proof -
  let ?sb = "g_super_block im" and ?nt = "inode_at im 1" and ?im = "g_imap_data im" and ?zm = "g_zmap_data im"
  have t: "off_heap s2 ?sb 39" "off_heap s2 ?nt (56 * ni)" "off_heap s2 ?im (1 * (ni div 8))" "off_heap s2 ?zm (1 * (nz div 8))"
    using o by (simp_all add: fs_tables_def ni_def nz_def)
  have D: "span ?sb 39 \<inter> span ?nt (56 * ni) = {}" "span ?sb 39 \<inter> span ?im (1 * (ni div 8)) = {}"
    "span ?sb 39 \<inter> span ?zm (1 * (nz div 8)) = {}" "span ?nt (56 * ni) \<inter> span ?im (1 * (ni div 8)) = {}"
    "span ?nt (56 * ni) \<inter> span ?zm (1 * (nz div 8)) = {}" "span ?im (1 * (ni div 8)) \<inter> span ?zm (1 * (nz div 8)) = {}"
    using ap by (simp_all add: fs_tables_def ni_def nz_def)
  note lt = sb_half_less [of d]
  have st: "unat (inode_block d) = 2 + sb_half d 2 + sb_half d 3" unfolding inode_block_def using lt [of 2] lt [of 3] by (intro unat_of_nat_u32) simp
  obtain s3 where s3: "read_blocks dev (of_nat 32) (of_nat 56) (inode_block d) ?nt (ucast (disk_half d 1 0)) (of_nat 32) s2 = Some (Inr (True, s3))"
    "fs_ok dev dsk (Suc ((ni div 8 - 1) div 1024 + Suc ((nz div 8 - 1) div 1024 + k))) s3"
    "fs_within dsk (span ?nt (56 * ni)) s2 s3" "table_loaded ?nt 56 32 (inode_block d) 32 d ni s3"
    "dsk (fs_log s3) = d" "lru_cb s3 = lru_cb s2" and o3: "\<And>a l. off_heap s2 a l \<Longrightarrow> off_heap s3 a l"
    by (rule load_table [of 32 32 32 56 ni "ucast (disk_half d 1 0)" "inode_block d" s2 ?nt, OF _ _ _ _ _ _ t(2) ok d])
      (use st lt [of 0] lt [of 2] lt [of 3] in \<open>simp_all add: unat_half(1) ni_def\<close>)
  have l3: "sb_loaded im d s3" by (rule sb_loaded_within [OF s3(3) l2 t(1) D(1)])
  obtain s4 where s4: "read_blocks dev (of_nat 1) (of_nat 1) 2 ?im (ucast (disk_half d 1 0) div 8) (of_nat 1) s3 = Some (Inr (True, s4))"
    "fs_ok dev dsk (Suc ((nz div 8 - 1) div 1024 + k)) s4" "fs_within dsk (span ?im (1 * (ni div 8))) s3 s4"
    "table_loaded ?im 1 1 2 1 d (ni div 8) s4" "dsk (fs_log s4) = d" "lru_cb s4 = lru_cb s3" and o4: "\<And>a l. off_heap s3 a l \<Longrightarrow> off_heap s4 a l"
    by (rule load_table [of 1 1024 1 1 "ni div 8" "ucast (disk_half d 1 0) div 8" 2 s3 ?im, OF _ _ _ _ _ _ o3 [OF t(3)] s3(2,5)])
      (use lt [of 0] in \<open>simp_all add: unat_half(1) unat_div ni_def\<close>)
  have l4: "sb_loaded im d s4" by (rule sb_loaded_within [OF s4(3) l3 o3 [OF t(1)] D(2)])
  have zt: "unat (of_nat (2 + sb_half d 2) :: u32) = 2 + sb_half d 2" using lt [of 2] by (intro unat_of_nat_u32) simp
  obtain s5 where s5: "read_blocks dev (of_nat 1) (of_nat 1) (of_nat (2 + sb_half d 2)) ?zm (ucast (disk_half d 1 1) div 8) (of_nat 1) s4 = Some (Inr (True, s5))"
    "fs_ok dev dsk k s5" "fs_within dsk (span ?zm (1 * (nz div 8))) s4 s5"
    "table_loaded ?zm 1 1 (of_nat (2 + sb_half d 2)) 1 d (nz div 8) s5" "dsk (fs_log s5) = d" "lru_cb s5 = lru_cb s4"
    by (rule load_table [of 1 1024 1 1 "nz div 8" "ucast (disk_half d 1 1) div 8" "of_nat (2 + sb_half d 2)" s4 ?zm, OF _ _ _ _ _ _ o4 [OF o3 [OF t(4)]] s4(2,5)])
      (use lt [of 1] lt [of 2] zt in \<open>simp_all add: unat_half(1) unat_div nz_def\<close>)
  have "sb_loaded im d s5" by (rule sb_loaded_within [OF s5(3) l4 o4 [OF o3 [OF t(1)]] D(3)])
  moreover have "table_loaded ?nt 56 32 (inode_block d) 32 d ni s4" by (rule table_loaded_within [OF s4(3) s3(4) o3 [OF t(2)] D(4)]) simp
  then have "table_loaded ?nt 56 32 (inode_block d) 32 d ni s5" by (rule table_loaded_within [OF s5(3) _ o4 [OF o3 [OF t(2)]] D(5)]) simp
  moreover have "table_loaded ?im 1 1 2 1 d (ni div 8) s5" by (rule table_loaded_within [OF s5(3) s4(4) o4 [OF o3 [OF t(3)]] D(6)]) simp
  moreover have "same_machine s2 s5"
    using same_machine_trans same_machine_within [OF s3(3)] same_machine_within [OF s4(3)] same_machine_within [OF s5(3)] by blast
  ultimately show ?thesis using s3(1,6) s4(1,6) s5 l3 l4 by (intro exI [of _ s3] exI [of _ s4] exI [of _ s5]) simp
qed

lemma init_fs_ok:
  assumes ok: "fs_ok dev dsk (1 + blocks_for (sb_half d 0) 32 + blocks_for (sb_half d 0 div 8) 1024 + blocks_for (sb_half d 1 div 8) 1024 + k) s"
    and d: "dsk (fs_log s) = d" and o: "\<forall>(a, n)\<in>set (fs_tables im d). off_heap s a n" and ap: "spans_apart (fs_tables im d)"
  shows "\<exists>s'. init_fs dev im s = Some (Inr s') \<and> fs_ok dev dsk k s' \<and> lru_cb s' = uncache_addr im \<and> dsk (fs_log s') = d
    \<and> sb_loaded im d s' \<and> table_loaded (inode_at im 1) 56 32 (inode_block d) 32 d (sb_half d 0) s'
    \<and> table_loaded (g_imap_data im) 1 1 2 1 d (sb_half d 0 div 8) s'
    \<and> table_loaded (g_zmap_data im) 1 1 (of_nat (2 + sb_half d 2)) 1 d (sb_half d 1 div 8) s' \<and> same_machine s s'"
proof -
  let ?ni = "sb_half d 0" and ?nz = "sb_half d 1" and ?sb = "g_super_block im"
  have ok1: "fs_ok dev dsk (Suc (Suc ((?ni - 1) div 32 + Suc ((?ni div 8 - 1) div 1024 + Suc ((?nz div 8 - 1) div 1024 + k))))) s"
    using ok by (simp add: blocks_for_def add.commute add.left_commute)
  have "off_heap s ?sb 39" using o by (simp add: fs_tables_def)
  from load_super_block [OF ok1 this d] obtain b s1 s2 where
    s2: "read_block dev kSuperBlockBNO s = Some (Inr (b, s1))"
      "s2 = SetUncacheCallback (uncache_addr im) (set_mem (memcpy ?sb b sizeof_super_block (fs_mem s1)) s1)"
      "fs_ok dev dsk (Suc ((?ni - 1) div 32 + Suc ((?ni div 8 - 1) div 1024 + Suc ((?nz div 8 - 1) div 1024 + k)))) s2"
      "sb_loaded im d s2" "lru_cb s2 = uncache_addr im" "dsk (fs_log s2) = d" and o2: "\<And>a l. off_heap s a l \<Longrightarrow> off_heap s2 a l" and m2: "same_machine s s2" by blast
  have "\<forall>(a, n)\<in>set (fs_tables im d). off_heap s2 a n" using o o2 by auto
  from init_tables_ok [OF s2(3,4,6) this ap] obtain s3 s4 s5 where r: "read_blocks dev 32 56 (inode_block d) (inode_at im 1) (ucast (disk_half d 1 0)) 32 s2 = Some (Inr (True, s3))"
    "read_blocks dev 1 1 2 (g_imap_data im) (ucast (disk_half d 1 0) div 8) 1 s3 = Some (Inr (True, s4))"
    "read_blocks dev 1 1 (of_nat (2 + sb_half d 2)) (g_zmap_data im) (ucast (disk_half d 1 1) div 8) 1 s4 = Some (Inr (True, s5))"
    "sb_loaded im d s3" "sb_loaded im d s4" and s5: "sb_loaded im d s5" "fs_ok dev dsk k s5" "dsk (fs_log s5) = d" "lru_cb s5 = lru_cb s2"
    "table_loaded (inode_at im 1) 56 32 (inode_block d) 32 d ?ni s5" "table_loaded (g_imap_data im) 1 1 2 1 d (?ni div 8) s5"
    "table_loaded (g_zmap_data im) 1 1 (of_nat (2 + sb_half d 2)) 1 d (?nz div 8) s5" "same_machine s2 s5" by blast
  note f2 = sb_loaded_fields [OF s2(4)] and f3 = sb_loaded_fields [OF r(4)] and f4 = sb_loaded_fields [OF r(5)]
  have "inode_start im s2 = inode_block d" by (simp add: inode_start_def f2 unat_half(2) inode_block_def)
  moreover have "g_inode_table im + sizeof_m_inode = inode_at im 1" by (simp add: inode_at_def)
  ultimately have "init_fs dev im s = Some (Inr s5)" using s2(1) r(1-3)
    by (simp add: init_fs_def Let_def s2(2) [unfolded layout_sizes, symmetric] f2 f3 f4 layout_sizes unat_half(2))
  moreover have "same_machine s s5" by (rule same_machine_trans [OF m2 s5(8)])
  ultimately show ?thesis using s5 s2(5) by (intro exI [of _ s5]) simp
qed

section \<open>Properties\<close>

text \<open>C28. \<open>init_fs\<close> loads the file system: on a working drive with room in the cache it succeeds, the super block,
  all inodes and both bitmaps in memory are those of the disk byte by byte (every inode at its place in the
  table, without the fields that exist in memory only), the callback of the cache is installed, the cache is
  coherent, and the disk is unchanged.\<close>

theorem init_fs_loads:
  assumes "fs_ok dev dsk (1 + blocks_for (sb_half d 0) 32 + blocks_for (sb_half d 0 div 8) 1024 + blocks_for (sb_half d 1 div 8) 1024 + k) s"
    and "dsk (fs_log s) = d" and "\<forall>(a, n)\<in>set (fs_tables im d). off_heap s a n" and "spans_apart (fs_tables im d)"
  shows "\<exists>s'. init_fs dev im s = Some (Inr s') \<and> fs_ok dev dsk k s' \<and> lru_cb s' = uncache_addr im \<and> dsk (fs_log s') = d
    \<and> sb_loaded im d s' \<and> table_loaded (inode_at im 1) 56 32 (inode_block d) 32 d (sb_half d 0) s'
    \<and> table_loaded (g_imap_data im) 1 1 2 1 d (sb_half d 0 div 8) s'
    \<and> table_loaded (g_zmap_data im) 1 1 (of_nat (2 + sb_half d 2)) 1 d (sb_half d 1 div 8) s'"
  using init_fs_ok [OF assms] by blast

text \<open>A disk with two inodes, the first of which is a directory, in block 4.\<close>

definition inode_disk :: "nat \<Rightarrow> u32" where
  "inode_disk = (\<lambda>_. 0)(256 := 0x00100002, 257 := 0x00010001, 1024 := 0x00004000)"

lemma inode_disk_facts: "sb_half inode_disk 0 = 2" "sb_half inode_disk 1 = 16" "inode_block inode_disk = 4"
  "item_byte inode_disk 4 32 0 1 = 0x40"
  by (simp_all add: sb_half_def inode_block_def disk_half_def inode_disk_def item_byte_def block_byte_def)

theorem init_fs_loads_witness:
  "\<exists>s'. init_fs (ata_sim inode_disk) example_image example_fs = Some (Inr s') \<and> fs_mem s' 0x1039 = 0x40"
proof -
  let ?d = inode_disk
  have ok: "fs_ok (ata_sim ?d) (ata_disk ?d)
      (1 + blocks_for (sb_half ?d 0) 32 + blocks_for (sb_half ?d 0 div 8) 1024 + blocks_for (sb_half ?d 1 div 8) 1024 + 0) example_fs"
    by (rule example_fs_ok) (simp add: inode_disk_facts inode_disk_facts(2) [simplified] blocks_for_def)
  have t: "fs_tables example_image ?d = [(0x2000, 39), (0x1038, 112), (0x2100, 0), (0x2200, 2)]"
    by (simp add: fs_tables_def inode_disk_facts inode_disk_facts(2) [simplified] example_image_def inode_at_def layout_sizes)
  have "\<forall>(a, n)\<in>set (fs_tables example_image ?d). off_heap example_fs a n" unfolding t by (simp add: example_off_heap)
  moreover have "spans_apart (fs_tables example_image ?d)" unfolding t by (auto simp: span_def)
  ultimately obtain s' where s': "init_fs (ata_sim ?d) example_image example_fs = Some (Inr s')"
    "table_loaded (inode_at example_image 1) 56 32 (inode_block ?d) 32 ?d (sb_half ?d 0) s'"
    using init_fs_loads [OF ok example_disk_log] by blast
  have "fs_mem s' (inode_at example_image 1 + of_nat (56 * 0 + 1)) = item_byte ?d 4 32 0 1"
    using s'(2) [unfolded table_loaded_def inode_disk_facts(1,3), rule_format, of 0 1] by simp
  then have "fs_mem s' 0x1039 = 0x40" unfolding inode_disk_facts(4) by (simp add: inode_at_def example_image_def layout_sizes)
  with s'(1) show ?thesis by blast
qed

end
