(* ===== verification/Sprite_Fs_Sync.thy ===== *)
theory Sprite_Fs_Sync
  imports Sprite_Fs_Init
begin

text \<open>
  What the synchronisation of \<open>lib/fs.cc\<close> achieves: \<open>write_blocks\<close> copies the items of a table into
  consecutive blocks of the cache and writes each of them to the disk, and \<open>sync_all\<close> thereby stores the
  super block, both bitmaps and the inodes. While a block is being filled its buffer differs from the disk.
\<close>

section \<open>A block that is being filled\<close>

text \<open>What writing the blocks of a set leaves as it is: the other blocks of the disk, and memory outside of the heap.\<close>

definition fs_touch :: "disk \<Rightarrow> nat set \<Rightarrow> fs \<Rightarrow> fs \<Rightarrow> bool" where
  "fs_touch dsk B s s' \<longleftrightarrow> (\<forall>w. w div 256 \<notin> B \<longrightarrow> dsk (fs_log s') w = dsk (fs_log s) w)
     \<and> fs_dev s' = fs_dev s \<and> fs_con s' = fs_con s \<and> lru_cb s' = lru_cb s
     \<and> mstart (lru_heap s') = mstart (lru_heap s) \<and> mend (lru_heap s') = mend (lru_heap s)
     \<and> (\<forall>y<2 ^ 32. y < unat (mstart (lru_heap s)) \<or> unat (mend (lru_heap s)) \<le> y \<longrightarrow> fs_mem s' (of_nat y) = fs_mem s (of_nat y))"

lemma fs_touch_refl [simp]: "fs_touch dsk B s s"
  by (simp add: fs_touch_def)

lemma fs_touch_trans: "fs_touch dsk A s s' \<Longrightarrow> fs_touch dsk B s' s'' \<Longrightarrow> A \<union> B \<subseteq> C \<Longrightarrow> fs_touch dsk C s s''"
  by (simp add: fs_touch_def) (metis subsetD)

lemma fs_keeps_touch: "fs_keeps dsk s s' \<Longrightarrow> fs_touch dsk B s s'"
  by (simp add: fs_keeps_def fs_touch_def)

lemma off_heap_touch:
  assumes "fs_touch dsk B s s'" and "off_heap s a n"
  shows "off_heap s' a n" and "i < n \<Longrightarrow> fs_mem s' (a + of_nat i) = fs_mem s (a + of_nat i)"
proof -
  show "off_heap s' a n" using assms by (simp add: off_heap_def fs_touch_def)
  have a: "a + of_nat i = of_nat (unat a + i)" by simp
  have o: "\<forall>y<2 ^ 32. y < unat (mstart (lru_heap s)) \<or> unat (mend (lru_heap s)) \<le> y \<longrightarrow> fs_mem s' (of_nat y) = fs_mem s (of_nat y)"
    using assms(1) by (simp add: fs_touch_def)
  assume i: "i < n"
  show "fs_mem s' (a + of_nat i) = fs_mem s (a + of_nat i)"
    unfolding a by (rule o [rule_format]) (use assms(2) i in \<open>auto simp: off_heap_def\<close>)
qed

lemma block_byte_touch:
  assumes "fs_touch dsk B s s'" and "unat b \<notin> B" and "j < 1024"
  shows "block_byte (dsk (fs_log s')) b j = block_byte (dsk (fs_log s)) b j"
proof -
  have "(256 * unat b + j div 4) div 256 = unat b" using assms(3) by simp
  then show ?thesis using assms(1,2) by (simp add: block_byte_def fs_touch_def)
qed

text \<open>A block is opened, on a hit as it is and on a miss with an arbitrary buffer.\<close>

lemma get_block_open:
  assumes ok: "fs_ok dev dsk (Suc n) s"
  shows "\<exists>x s'. get_block dev b s = Some (Inr (value_of x, s')) \<and> value_of x \<noteq> 0 \<and> fs_open dev dsk n b x s' \<and> fs_touch dsk {} s s'"
proof (cases "b \<in> set (cached_keys s)")
  case True
  then obtain x s' where x: "Get kCacheSize b s = Inr (value_of x, s')" "value_of x \<noteq> 0" "fs_ok dev dsk (Suc n) s'" "fs_keeps dsk s s'"
    "x \<in> set (cached_nodes s')" "node_key (lru_nodes s' x) = b"
    using Get_ok [OF ok] by blast
  then have "fs_open dev dsk n b x s'" using fs_ok_less [OF x(3)] by (simp add: fs_ok_def fs_open_def)
  then show ?thesis using x fs_keeps_touch by (auto simp: get_block_def)
next
  case False
  have inv: "lru_invar kCacheSize sizeof_block_buffer s" using ok by (simp add: fs_ok_def)
  have miss: "Get kCacheSize b s = Inr (0, s)"
    using Get_miss [of kCacheSize sizeof_block_buffer s "cached_nodes s" b] inv False by (simp add: lru_invar_def cached_keys_def)
  from Alloc_open [OF ok False] obtain x s1 where "Alloc (uncache dev) kCacheSize sizeof_block_buffer b s = Some (Inr (value_of x, s1))"
    "value_of x \<noteq> 0" "fs_open dev dsk n b x s1" "fs_keeps dsk s s1" by blast
  then show ?thesis using miss fs_keeps_touch by (auto simp: get_block_def)
qed

text \<open>A copy from memory outside of the heap into the open buffer.\<close>

lemma buffer_copy:
  assumes op: "fs_open dev dsk n b x s" and r: "j + siz \<le> 1024" and o: "off_heap s src siz"
  defines "m \<equiv> memcpy (value_of x + of_nat j) src (of_nat siz) (fs_mem s)"
  shows "fs_open dev dsk n b x (set_mem m s)" and "fs_touch dsk {} s (set_mem m s)"
    and "i < siz \<Longrightarrow> fs_mem (set_mem m s) (value_of x + of_nat (j + i)) = fs_mem s (src + of_nat i)"
    and "i < 1024 \<Longrightarrow> i < j \<or> j + siz \<le> i \<Longrightarrow> fs_mem (set_mem m s) (value_of x + of_nat i) = fs_mem s (value_of x + of_nat i)"
proof -
  let ?dst = "value_of x + of_nat j"
  have x: "x \<in> set (cached_nodes s)" and inv: "lru_invar kCacheSize sizeof_block_buffer s" using op by (simp_all add: fs_open_def)
  note h = node_in_heap [OF inv x] and b = buffer_part [OF inv x r o]
  have at: "value_of x + of_nat i = of_nat (unat x + 12 + i)" "unat x + 12 + i < 2 ^ 32" if "i < 1028" for i
    using value_byte [OF b(2) that] by simp_all
  have lt: "siz < 2 ^ 32" and w: "unat ?dst + siz \<le> 2 ^ 32" using r b(1,2) by simp_all
  note c = memcpy_span [OF lt b(4) w, of _ "fs_mem s", folded m_def]
  have off: "m (of_nat y) = fs_mem s (of_nat y)" if y: "y < 2 ^ 32" "y < unat x + 12 + j \<or> unat x + 12 + j + siz \<le> y" for y
    by (rule c(2) [OF y(1)]) (use y(2) b(1) in \<open>auto simp: span_def\<close>)
  have reg: "m (of_nat y) = fs_mem s (of_nat y)" if "y < 2 ^ 32" "\<not> in_region y (unat x, 1040)" for y
    using that r by (intro off) (auto simp: in_region_def)
  have s': "set_mem m s = (set_mem m s)\<lparr>fs_log := fs_log s\<rparr>" by (simp add: set_mem_def)
  note w = buffer_write [OF inv x reg, where l = "fs_log s", folded s']
  have f: "fs_mem (set_mem m s) = m" "lru_nodes (set_mem m s) = lru_nodes s" "fs_log (set_mem m s) = fs_log s" "fs_dev (set_mem m s) = fs_dev s"
    by (simp_all add: set_mem_def fs_mem_def)
  have "holds_block m (value_of z) (dsk (fs_log s)) (node_key (lru_nodes s z))" if z: "z \<in> set (cached_nodes s)" "z \<noteq> x" for z
  proof (rule holds_block_cong)
    show "holds_block (fs_mem s) (value_of z) (dsk (fs_log s)) (node_key (lru_nodes s z))" using op z by (simp add: fs_open_def)
    show "m (value_of z + of_nat i) = fs_mem s (value_of z + of_nat i)" if "i < 1024" for i
      using other_buffer [OF inv x z that] reg by auto
  qed
  then show "fs_open dev dsk n b x (set_mem m s)" using op w f by (simp add: fs_open_def)
  show "fs_touch dsk {} s (set_mem m s)" using reg h by (auto simp: fs_touch_def in_region_def f) (simp_all add: set_mem_def)
  show "fs_mem (set_mem m s) (value_of x + of_nat (j + i)) = fs_mem s (src + of_nat i)" if "i < siz"
  proof -
    have e: "value_of x + of_nat (j + i) = ?dst + of_nat i" by (simp add: algebra_simps)
    show ?thesis unfolding f e by (rule c(1) [OF that])
  qed
  show "fs_mem (set_mem m s) (value_of x + of_nat i) = fs_mem s (value_of x + of_nat i)" if i: "i < 1024" "i < j \<or> j + siz \<le> i"
  proof -
    have "i < 1028" using i(1) by simp
    note a = at [OF this]
    show ?thesis unfolding f a(1) by (rule off [OF a(2)]) (use i(2) in auto)
  qed
qed

text \<open>Writing the open block makes the cache coherent again.\<close>

lemma write_block_closes:
  assumes op: "fs_open dev dsk n b x s" and b: "bno_ok b"
  shows "\<exists>s'. write_block dev b s = Some (Inr (True, s')) \<and> fs_ok dev dsk n s' \<and> fs_touch dsk {unat b} s s'
    \<and> (\<forall>j<1024. block_byte (dsk (fs_log s')) b j = fs_mem s (value_of x + of_nat j))"
proof -
  have dev: "drive_ready dev dsk s" "ide_device_valid (fs_dev s)" and inv: "lru_invar kCacheSize sizeof_block_buffer s"
    and x: "x \<in> set (cached_nodes s)" "node_key (lru_nodes s x) = b" using op by (simp_all add: fs_open_def)
  obtain s' where s': "write_block dev b s = Some (Inr (True, s'))" "lru_invar kCacheSize sizeof_block_buffer s'"
    "cached_keys s' = spec_get b (cached_keys s)" "set (cached_nodes s') = set (cached_nodes s)" "fs_mem s' = fs_mem s"
    "holds_block (fs_mem s') (value_of x) (dsk (fs_log s')) b"
    "\<forall>w. w \<notin> {256 * unat b..<256 * unat b + 256} \<longrightarrow> dsk (fs_log s') w = dsk (fs_log s) w"
    "\<forall>y. node_key (lru_nodes s' y) = node_key (lru_nodes s y)" "lru_heap s' = lru_heap s" "lru_cb s' = lru_cb s" "fs_dev s' = fs_dev s" "fs_con s' = fs_con s" "drive_ready dev dsk s'"
    using write_block_ok [OF dev inv b x] by blast
  have dk: "dsk (fs_log s') w = dsk (fs_log s) w" if "w div 256 \<noteq> unat b" for w
    using that by (intro s'(7) [rule_format]) auto
  have "holds_block (fs_mem s') (value_of z) (dsk (fs_log s')) (node_key (lru_nodes s' z))" if z: "z \<in> set (cached_nodes s')" for z
  proof (cases "z = x")
    case False
    have "node_key (lru_nodes s z) \<noteq> b"
      using inv x z False s'(4) by (auto simp: lru_invar_def lru_list_def lru_keys_def distinct_map inj_on_def)
    then have "unat (node_key (lru_nodes s z)) \<noteq> unat b" by (simp add: word_unat_eq_iff)
    moreover have "holds_block (fs_mem s) (value_of z) (dsk (fs_log s)) (node_key (lru_nodes s z))"
      using op z False s'(4) by (simp add: fs_open_def)
    ultimately show ?thesis using s'(5,8) dk by (simp add: holds_block_def)
  qed (use s'(6,8) x(2) in simp)
  moreover have "length (cached_keys s') = length (cached_keys s)"
    using s'(2-4) inv by (metis cached_keys_def lru_keys_def length_map distinct_card lru_invar_def lru_list_def distinct_map)
  ultimately have "fs_ok dev dsk n s'" using op s' by (simp add: fs_ok_def fs_open_def)
  moreover have "fs_touch dsk {unat b} s s'" using dk s' by (auto simp: fs_touch_def)
  moreover have "block_byte (dsk (fs_log s')) b j = fs_mem s (value_of x + of_nat j)" if "j < 1024" for j
    using holds_block_bytes [OF s'(6) that] s'(5) by simp
  ultimately show ?thesis using s'(1) by blast
qed

section \<open>Items into consecutive blocks\<close>

text \<open>The items that are already in the open buffer: those from the first one of the block on.\<close>

definition buffered :: "nat \<Rightarrow> nat \<Rightarrow> nat \<Rightarrow> nat \<Rightarrow> nat \<Rightarrow> nat \<Rightarrow> u32 \<Rightarrow> u32 \<Rightarrow> fs \<Rightarrow> bool" where
  "buffered bsz q msz siz c i base a s \<longleftrightarrow> (\<forall>j. q * c \<le> j \<and> j < i \<longrightarrow> (\<forall>l. l < siz \<longrightarrow>
     fs_mem s (a + of_nat (bsz * (j - q * c) + l)) = fs_mem s (base + of_nat (msz * j + l))))"

text \<open>The items of a range that are on the disk.\<close>

definition stored :: "nat \<Rightarrow> nat \<Rightarrow> nat \<Rightarrow> u32 \<Rightarrow> nat \<Rightarrow> nat \<Rightarrow> u32 \<Rightarrow> (nat \<Rightarrow> u32) \<Rightarrow> fs \<Rightarrow> bool" where
  "stored bsz msz siz start lo hi base d s \<longleftrightarrow> (\<forall>j. lo \<le> j \<and> j < hi \<longrightarrow> (\<forall>l. l < siz \<longrightarrow>
     item_byte d start bsz j l = fs_mem s (base + of_nat (msz * j + l))))"

lemma item_offset: "isz * q = 1024 \<Longrightarrow> siz \<le> isz \<Longrightarrow> l < siz \<Longrightarrow> k < q \<Longrightarrow> isz * k + l < (1024 :: nat)"
  using mult_Suc_le [of k q isz] by simp

lemma table_offset: "j < N \<Longrightarrow> l < siz \<Longrightarrow> siz \<le> osz \<Longrightarrow> osz * j + l < osz * (N :: nat)"
  using mult_Suc_le [of j N osz] by simp

text \<open>Closing a block puts the items of its buffer on the disk.\<close>

lemma close_block:
  assumes op: "fs_open dev dsk n (start + of_nat c) x s" and L: "unat start + c < 0x8000000"
    and q: "bsz * q = 1024" and siz: "siz \<le> bsz" and i: "i \<le> q * c + q" and bu: "buffered bsz q msz siz c i base (value_of x) s"
  shows "\<exists>s'. write_block dev (start + of_nat c) s = Some (Inr (True, s')) \<and> fs_ok dev dsk n s' \<and> fs_touch dsk {unat start + c} s s'
    \<and> stored bsz msz siz start (q * c) i base (dsk (fs_log s')) s"
proof -
  have u: "unat (start + of_nat c) = unat start + c" using L by (simp add: unat_word_ariths unat_of_nat)
  then have "bno_ok (start + of_nat c)" using L by (simp add: bno_ok_def)
  from write_block_closes [OF op this] obtain s' where s': "write_block dev (start + of_nat c) s = Some (Inr (True, s'))" "fs_ok dev dsk n s'"
    "fs_touch dsk {unat start + c} s s'" "\<forall>j<1024. block_byte (dsk (fs_log s')) (start + of_nat c) j = fs_mem s (value_of x + of_nat j)"
    unfolding u by blast
  have "item_byte (dsk (fs_log s')) start bsz j l = fs_mem s (base + of_nat (msz * j + l))" if j: "q * c \<le> j" "j < i" and l: "l < siz" for j l
  proof -
    obtain k where k: "j = q * c + k" using j(1) by (metis le_Suc_ex)
    have kq: "k < q" using j(2) i k by simp
    have "item_byte (dsk (fs_log s')) start bsz j l = block_byte (dsk (fs_log s')) (start + of_nat c) (bsz * k + l)"
      using item_per_block [OF q] kq by (simp add: item_byte_def k)
    also have "\<dots> = fs_mem s (value_of x + of_nat (bsz * k + l))" using s'(4) item_offset [OF q siz l kq] by blast
    also have "\<dots> = fs_mem s (base + of_nat (msz * j + l))" using bu [unfolded buffered_def, rule_format, of j l] j l unfolding k by simp
    finally show ?thesis .
  qed
  then show ?thesis using s'(1-3) by (auto simp: stored_def)
qed

text \<open>Reaching item \<open>i\<close>: one step of the loop of \<open>write_blocks\<close> up to the copy.\<close>

lemma write_blocks_reach:
  assumes i: "i < N" and c: "c = (i - 1) div q" and q: "bsz * q = 1024" and siz: "siz \<le> bsz"
    and op: "fs_open dev dsk ((N - 1) div q - c + k) (start + of_nat c) x s" and L: "unat start + (N - 1) div q < 0x8000000"
    and bu: "buffered bsz q msz siz c i base (value_of x) s"
  shows "\<exists>y s'. write_blocks_loop dev isz (of_nat bsz) sz (Suc n) (start + of_nat c) (value_of x) (value_of x + of_nat (bsz * (i - q * c))) src s =
      write_blocks_loop dev isz (of_nat bsz) sz n (start + of_nat (i div q)) (value_of y) (value_of y + of_nat (bsz * (i mod q)) + of_nat bsz) (src + isz)
        (set_mem (memcpy (value_of y + of_nat (bsz * (i mod q))) src sz (fs_mem s')) s')
    \<and> fs_open dev dsk ((N - 1) div q - i div q + k) (start + of_nat (i div q)) y s'
    \<and> fs_touch dsk {unat start + c..<unat start + i div q} s s'
    \<and> buffered bsz q msz siz (i div q) i base (value_of y) s' \<and> stored bsz msz siz start (q * c) (q * (i div q)) base (dsk (fs_log s')) s"
proof -
  have q0: "0 < q" using item_per_block [OF q] by simp
  have inv: "lru_invar kCacheSize sizeof_block_buffer s" and x: "x \<in> set (cached_nodes s)" using op by (simp_all add: fs_open_def)
  note a = value_in_range [OF inv x]
  have j: "i - q * c \<le> q" "q * c \<le> i" unfolding c using item_position(1,2) [OF q0] by blast+
  note e = block_end [OF a q j(1)]
  have le: "i div q \<le> (N - 1) div q" using i by (intro div_le_mono) simp
  show ?thesis
  proof (cases "i - q * c = q")
    case False
    then have iv: "i div q = c" "i mod q = i - q * c" unfolding c using item_position(3,4) [OF q0, of i] by blast+
    have "\<not> value_of x + kBlockSize \<le> value_of x + of_nat (bsz * (i - q * c))" using e False by blast
    moreover have "stored bsz msz siz start (q * c) (q * c) base (dsk (fs_log s)) s" by (auto simp: stored_def)
    ultimately show ?thesis unfolding iv using op bu
      by (intro exI [of _ x] exI [of _ s]) (simp only: write_blocks_loop.simps Let_def if_False fs_touch_refl simp_thms)
  next
    case True
    then have iv: "i div q = Suc c" "i mod q = 0" unfolding c using item_position(5,6) [OF q0, of i] by blast+
    have ie: "i = q * Suc c" using True j(2) by simp
    have L': "unat start + c < 0x8000000" using L le iv(1) by simp
    obtain s1 where s1: "write_block dev (start + of_nat c) s = Some (Inr (True, s1))" "fs_ok dev dsk ((N - 1) div q - c + k) s1"
      "fs_touch dsk {unat start + c} s s1" "stored bsz msz siz start (q * c) i base (dsk (fs_log s1)) s"
      using close_block [OF op L' q siz _ bu] ie by auto
    have "(N - 1) div q - c + k = Suc ((N - 1) div q - i div q + k)" using iv(1) le by simp
    then have ok1: "fs_ok dev dsk (Suc ((N - 1) div q - i div q + k)) s1" using s1(2) by metis
    obtain y s2 where y: "get_block dev (start + of_nat c + 1) s1 = Some (Inr (value_of y, s2))" "value_of y \<noteq> 0"
      "fs_open dev dsk ((N - 1) div q - i div q + k) (start + of_nat c + 1) y s2" "fs_touch dsk {} s1 s2"
      using get_block_open [OF ok1] by blast
    have n: "start + of_nat c + 1 = start + of_nat (Suc c)" by simp
    have t: "fs_touch dsk {unat start + c..<unat start + Suc c} s s2" by (rule fs_touch_trans [OF s1(3) y(4)]) auto
    have "dsk (fs_log s2) = dsk (fs_log s1)" using y(4) by (simp add: fs_touch_def fun_eq_iff)
    then have st: "stored bsz msz siz start (q * c) (q * Suc c) base (dsk (fs_log s2)) s" using s1(4) ie by simp
    have bu': "buffered bsz q msz siz (Suc c) i base (value_of y) s2" using ie by (auto simp: buffered_def)
    have "value_of x + kBlockSize \<le> value_of x + of_nat (bsz * (i - q * c))" using e True by blast
    moreover have "value_of y + word_of_nat 0 = value_of y" by simp
    ultimately show ?thesis using y(2) y(3) [unfolded n] t st bu' unfolding iv
      by (intro exI [of _ y] exI [of _ s2])
        (simp only: write_blocks_loop.simps Let_def if_True if_False s1(1) y(1) [unfolded n] robind_simps prod.case n simp_thms mult_0_right)
  qed
qed

lemma stored_touch:
  assumes st: "stored bsz msz siz start lo hi base (dsk (fs_log s1)) s" and t: "fs_touch dsk B s1 s'"
    and q: "bsz * q = 1024" and siz: "siz \<le> bsz" and L: "unat start + (hi - 1) div q < 0x8000000"
    and B: "\<forall>w\<in>B. w < unat start \<or> unat start + (hi - 1) div q < w"
  shows "stored bsz msz siz start lo hi base (dsk (fs_log s')) s"
  unfolding stored_def
proof (intro allI impI, elim conjE)
  fix j l assume j: "lo \<le> j" "j < hi" and l: "l < siz"
  have q0: "0 < q" "1024 div bsz = q" using item_per_block [OF q] by simp_all
  have c: "j div q \<le> (hi - 1) div q" using j(2) by (intro div_le_mono) simp
  have "unat (start + of_nat (j div q)) = unat start + j div q" using L c by (simp add: unat_word_ariths unat_of_nat)
  then have "unat (start + of_nat (j div q)) \<notin> B" using B c by fastforce
  from block_byte_touch [OF t this item_offset [OF q siz l]] have "item_byte (dsk (fs_log s')) start bsz j l = item_byte (dsk (fs_log s1)) start bsz j l"
    using q0 by (simp add: item_byte_def)
  then show "item_byte (dsk (fs_log s')) start bsz j l = fs_mem s (base + of_nat (msz * j + l))"
    using st j l unfolding stored_def by presburger
qed

text \<open>The copy of item \<open>i\<close> extends the buffered items.\<close>

lemma copy_item:
  assumes op: "fs_open dev dsk n b x s" and q: "bsz * q = 1024" and siz: "siz \<le> bsz" "siz \<le> msz" "0 < siz" and i: "i < N"
    and o: "off_heap s base (msz * N)" and bu: "buffered bsz q msz siz (i div q) i base (value_of x) s"
  defines "s' \<equiv> set_mem (memcpy (value_of x + of_nat (bsz * (i mod q))) (base + of_nat (msz * i)) (of_nat siz) (fs_mem s)) s"
  shows "fs_open dev dsk n b x s'" and "fs_touch dsk {} s s'" and "buffered bsz q msz siz (i div q) (Suc i) base (value_of x) s'"
proof -
  have q0: "0 < q" using item_per_block [OF q] by simp
  have iN: "msz * i + msz \<le> msz * N" by (rule mult_Suc_le [OF i])
  have "bsz * (i mod q) + bsz \<le> bsz * q" by (rule mult_Suc_le) (use q0 in simp)
  then have r: "bsz * (i mod q) + siz \<le> 1024" using q siz(1) by simp
  have "unat (base + of_nat (msz * i)) = unat base + msz * i"
    using o iN siz by (simp add: off_heap_def unat_word_ariths unat_of_nat del: of_nat_mult)
  then have o': "off_heap s (base + of_nat (msz * i)) siz" using o iN siz(2) by (auto simp: off_heap_def)
  note cp = buffer_copy [OF op r o', folded s'_def]
  show "fs_open dev dsk n b x s'" and t: "fs_touch dsk {} s s'" by (rule cp(1), rule cp(2))
  have im: "i - q * (i div q) = i mod q" by (simp add: minus_mult_div_eq_mod)
  show "buffered bsz q msz siz (i div q) (Suc i) base (value_of x) s'"
    unfolding buffered_def
  proof (intro allI impI, elim conjE)
    fix j l assume j: "q * (i div q) \<le> j" "j < Suc i" and l: "l < siz"
    have e: "base + of_nat (msz * i) + of_nat l = base + of_nat (msz * i + l)" for l by (simp add: algebra_simps)
    have src: "fs_mem s' (base + of_nat (msz * j + l)) = fs_mem s (base + of_nat (msz * j + l))"
      by (rule off_heap_touch(2) [OF t o]) (rule table_offset, use j i l siz(2) in auto)
    show "fs_mem s' (value_of x + of_nat (bsz * (j - q * (i div q)) + l)) = fs_mem s' (base + of_nat (msz * j + l))"
    proof (cases "j = i")
      case True
      then show ?thesis unfolding src using cp(3) [OF l, unfolded e] im by (simp del: of_nat_add of_nat_mult)
    next
      case False
      then have ji: "j < i" using j(2) by simp
      have "j - q * (i div q) < i mod q" using ji j(1) im by linarith
      then have lt: "bsz * (j - q * (i div q)) + l < bsz * (i mod q)" by (rule table_offset [OF _ l siz(1)])
      moreover have "bsz * (j - q * (i div q)) + l < 1024" using lt r by simp
      ultimately have "fs_mem s' (value_of x + of_nat (bsz * (j - q * (i div q)) + l)) = fs_mem s (value_of x + of_nat (bsz * (j - q * (i div q)) + l))"
        by (intro cp(4)) simp_all
      then show ?thesis unfolding src using bu [unfolded buffered_def, rule_format, of j l] ji j(1) l by simp
    qed
  qed
qed

text \<open>What the blocks before \<open>e\<close> hold and what the later blocks are then given make one stored range.\<close>

lemma stored_join:
  assumes s1: "stored bsz msz siz start lo (q * e) base (dsk (fs_log s2)) s" and w: "fs_touch dsk {unat start + e..unat start + m} s2 s'"
    and s2: "stored bsz msz siz start (q * e) N base (dsk (fs_log s')) s2" and t: "fs_touch dsk B s s2" and o: "off_heap s base (msz * N)"
    and q: "bsz * q = 1024" and siz: "siz \<le> bsz" "siz \<le> msz" and L: "e \<le> m" "unat start + m < 0x8000000"
  shows "stored bsz msz siz start lo N base (dsk (fs_log s')) s"
proof -
  have "stored bsz msz siz start lo (q * e) base (dsk (fs_log s')) s"
  proof (cases "e = 0")
    case False
    have "q * e - 1 < e * q" using False item_per_block [OF q] by (simp add: mult.commute)
    then have "(q * e - 1) div q < e" by (rule less_mult_imp_div_less)
    then show ?thesis using L by (intro stored_touch [OF s1 w q siz(1)]) auto
  qed (auto simp: stored_def)
  moreover have "fs_mem s2 (base + of_nat (msz * j + l)) = fs_mem s (base + of_nat (msz * j + l))" if "j < N" "l < siz" for j l
    by (rule off_heap_touch(2) [OF t o table_offset [OF that siz(2)]])
  ultimately show ?thesis using s2 unfolding stored_def by (metis not_le_imp_less)
qed

lemma write_blocks_loop_ok:
  assumes q: "bsz * q = 1024" and siz: "siz \<le> bsz" "siz \<le> msz" "0 < siz" and L: "unat start + (N - 1) div q < 0x8000000"
  shows "i \<le> N \<Longrightarrow> c = (i - 1) div q \<Longrightarrow> fs_open dev dsk ((N - 1) div q - c + k) (start + of_nat c) x s \<Longrightarrow> off_heap s base (msz * N) \<Longrightarrow>
    buffered bsz q msz siz c i base (value_of x) s \<Longrightarrow>
    \<exists>s'. write_blocks_loop dev (of_nat msz) (of_nat bsz) (of_nat siz) (N - i) (start + of_nat c) (value_of x)
          (value_of x + of_nat (bsz * (i - q * c))) (base + of_nat (msz * i)) s = Some (Inr (True, s'))
      \<and> fs_ok dev dsk k s' \<and> fs_touch dsk {unat start + c..unat start + (N - 1) div q} s s'
      \<and> stored bsz msz siz start (q * c) N base (dsk (fs_log s')) s"
proof (induction "N - i" arbitrary: i c s x)
  case 0
  have iN: "i = N" using 0 by simp
  then have c: "(N - 1) div q = c" using 0 by simp
  have "i - q * c \<le> q" unfolding 0 using item_per_block [OF q] by (intro item_position) simp
  then have "N \<le> q * c + q" using iN by simp
  from close_block [OF 0(4) _ q siz(1) this] 0(6) L iN c obtain s' where
    "write_block dev (start + of_nat c) s = Some (Inr (True, s'))" "fs_ok dev dsk k s'" "fs_touch dsk {unat start + c} s s'"
    "stored bsz msz siz start (q * c) N base (dsk (fs_log s')) s" by auto
  then show ?case using iN c by (intro exI [of _ s']) simp
next
  case (Suc n)
  have i: "i < N" using Suc.hyps(2) by simp
  have le: "i div q \<le> (N - 1) div q" "c \<le> i div q" using i Suc.prems(2) by (auto intro: div_le_mono)
  obtain y s1 where s1: "write_blocks_loop dev (of_nat msz) (of_nat bsz) (of_nat siz) (Suc n) (start + of_nat c) (value_of x)
        (value_of x + of_nat (bsz * (i - q * c))) (base + of_nat (msz * i)) s =
      write_blocks_loop dev (of_nat msz) (of_nat bsz) (of_nat siz) n (start + of_nat (i div q)) (value_of y)
        (value_of y + of_nat (bsz * (i mod q)) + of_nat bsz) (base + of_nat (msz * i) + of_nat msz)
        (set_mem (memcpy (value_of y + of_nat (bsz * (i mod q))) (base + of_nat (msz * i)) (of_nat siz) (fs_mem s1)) s1)"
    "fs_open dev dsk ((N - 1) div q - i div q + k) (start + of_nat (i div q)) y s1" "fs_touch dsk {unat start + c..<unat start + i div q} s s1"
    "buffered bsz q msz siz (i div q) i base (value_of y) s1" "stored bsz msz siz start (q * c) (q * (i div q)) base (dsk (fs_log s1)) s"
    using write_blocks_reach [OF i Suc.prems(2) q siz(1) Suc.prems(3) L Suc.prems(5)] by blast
  define s2 where "s2 = set_mem (memcpy (value_of y + of_nat (bsz * (i mod q))) (base + of_nat (msz * i)) (of_nat siz) (fs_mem s1)) s1"
  have o1: "off_heap s1 base (msz * N)" by (rule off_heap_touch(1) [OF s1(3) Suc.prems(4)])
  note cp = copy_item [OF s1(2) q siz i o1 s1(4), folded s2_def]
  have n: "n = N - Suc i" and c': "i div q = (Suc i - 1) div q" using Suc.hyps(2) by simp_all
  obtain s' where s': "write_blocks_loop dev (of_nat msz) (of_nat bsz) (of_nat siz) n (start + of_nat (i div q)) (value_of y)
        (value_of y + of_nat (bsz * (i mod q)) + of_nat bsz) (base + of_nat (msz * i) + of_nat msz) s2 = Some (Inr (True, s'))"
      "fs_ok dev dsk k s'" "fs_touch dsk {unat start + i div q..unat start + (N - 1) div q} s2 s'"
      "stored bsz msz siz start (q * (i div q)) N base (dsk (fs_log s')) s2"
    using Suc.hyps(1) [OF n Suc_leI [OF i] c' cp(1) off_heap_touch(1) [OF cp(2) o1] cp(3)] unfolding item_advance(1) unfolding item_advance(2) n [symmetric] by blast
  have t: "fs_touch dsk {unat start + c..<unat start + i div q} s s2" by (rule fs_touch_trans [OF s1(3) cp(2)]) simp
  then have T: "fs_touch dsk {unat start + c..unat start + (N - 1) div q} s s'" by (rule fs_touch_trans [OF _ s'(3)]) (use le in auto)
  have d: "dsk (fs_log s2) = dsk (fs_log s1)" using cp(2) by (simp add: fs_touch_def fun_eq_iff)
  have "stored bsz msz siz start (q * c) N base (dsk (fs_log s')) s"
    by (rule stored_join [OF s1(5) [folded d] s'(3,4) t Suc.prems(4) q siz(1,2)]) (use le L in auto)
  then show ?case using s'(1,2) T unfolding Suc.hyps(2) [symmetric] s1(1) s2_def [symmetric] by (intro exI [of _ s']) blast
qed

section \<open>Tables on the disk\<close>

lemma table_loaded_stored: "table_loaded base msz siz start bsz d N s \<longleftrightarrow> stored bsz msz siz start 0 N base d s"
  by (auto simp: table_loaded_def stored_def)

text \<open>Writing other blocks leaves a table and its blocks in agreement.\<close>

lemma table_loaded_touch:
  assumes t: "table_loaded base msz siz start bsz (dsk (fs_log s)) N s" and w: "fs_touch dsk B s s'"
    and q: "bsz * q = 1024" and siz: "siz \<le> bsz" "siz \<le> msz" and L: "unat start + (N - 1) div q < 0x8000000"
    and B: "\<forall>w\<in>B. w < unat start \<or> unat start + (N - 1) div q < w" and o: "off_heap s base (msz * N)"
  shows "table_loaded base msz siz start bsz (dsk (fs_log s')) N s'"
proof -
  have st: "stored bsz msz siz start 0 N base (dsk (fs_log s')) s"
    by (rule stored_touch [OF t [unfolded table_loaded_stored] w q siz(1) L B])
  have "fs_mem s' (base + of_nat (msz * j + l)) = fs_mem s (base + of_nat (msz * j + l))" if "j < N" "l < siz" for j l
    by (rule off_heap_touch(2) [OF w o table_offset [OF that siz(2)]])
  then show ?thesis using st unfolding table_loaded_stored stored_def by simp
qed

lemma write_blocks_ok:
  assumes q: "bsz * q = 1024" and siz: "siz \<le> bsz" "siz \<le> msz" "0 < siz" and N: "N = unat count"
    and L: "unat start + (N - 1) div q < 0x8000000" and o: "off_heap s base (msz * N)"
    and ok: "fs_ok dev dsk (Suc ((N - 1) div q + k)) s"
  shows "\<exists>s'. write_blocks dev (of_nat msz) (of_nat bsz) base start count (of_nat siz) s = Some (Inr (True, s'))
    \<and> fs_ok dev dsk k s' \<and> fs_touch dsk {unat start..unat start + (N - 1) div q} s s'
    \<and> table_loaded base msz siz start bsz (dsk (fs_log s')) N s'"
proof -
  obtain x s1 where x: "get_block dev start s = Some (Inr (value_of x, s1))" "fs_open dev dsk ((N - 1) div q + k) start x s1" "fs_touch dsk {} s s1"
    using get_block_open [OF ok] by blast
  have o1: "off_heap s1 base (msz * N)" by (rule off_heap_touch(1) [OF x(3) o])
  have "buffered bsz q msz siz 0 0 base (value_of x) s1" by (simp add: buffered_def)
  then obtain s' where s': "write_blocks_loop dev (of_nat msz) (of_nat bsz) (of_nat siz) N start (value_of x) (value_of x) base s1 = Some (Inr (True, s'))"
    "fs_ok dev dsk k s'" "fs_touch dsk {unat start..unat start + (N - 1) div q} s1 s'" "stored bsz msz siz start 0 N base (dsk (fs_log s')) s1"
    using write_blocks_loop_ok [OF q siz L, of 0 0 dev dsk k x s1 base] x(2) o1 by auto
  have "fs_mem s' (base + of_nat (msz * j + l)) = fs_mem s1 (base + of_nat (msz * j + l))" if "j < N" "l < siz" for j l
    by (rule off_heap_touch(2) [OF s'(3) o1 table_offset [OF that siz(2)]])
  then have "table_loaded base msz siz start bsz (dsk (fs_log s')) N s'" using s'(4) unfolding table_loaded_stored stored_def by simp
  moreover have "fs_touch dsk {unat start..unat start + (N - 1) div q} s s'" by (rule fs_touch_trans [OF x(3) s'(3)]) simp
  ultimately show ?thesis using x(1) s'(1,2) by (auto simp: write_blocks_def N)
qed

section \<open>Synchronisation\<close>

text \<open>The numbers in the super block in memory, which say where the tables go.\<close>

definition sb_field :: "fs_image \<Rightarrow> fs \<Rightarrow> nat \<Rightarrow> nat" where
  "sb_field im s i = unat (read16 (fs_mem s) (g_super_block im + of_nat (2 * i)))"

text \<open>The part of the super block that exists on the disk too.\<close>

definition sb_stored :: "fs_image \<Rightarrow> (nat \<Rightarrow> u32) \<Rightarrow> fs \<Rightarrow> bool" where
  "sb_stored im d s \<longleftrightarrow> (\<forall>i<20. block_byte d 1 i = fs_mem s (g_super_block im + of_nat i))"

lemma sync_super_block_ok:
  assumes ok: "fs_ok dev dsk (Suc k) s" and o: "off_heap s (g_super_block im) 39"
  shows "\<exists>s'. sync_super_block dev im s = Some (Inr s') \<and> fs_ok dev dsk k s' \<and> fs_touch dsk {1} s s' \<and> sb_stored im (dsk (fs_log s')) s'"
proof -
  obtain x s1 where x: "get_block dev kSuperBlockBNO s = Some (Inr (value_of x, s1))" "fs_open dev dsk k kSuperBlockBNO x s1" "fs_touch dsk {} s s1"
    using get_block_open [OF ok] by blast
  have o1: "off_heap s1 (g_super_block im) 39" by (rule off_heap_touch(1) [OF x(3) o])
  then have o2: "off_heap s1 (g_super_block im) 20" by (auto simp: off_heap_def)
  define s2 where "s2 = set_mem (memcpy (value_of x) (g_super_block im) sizeof_d_super_block (fs_mem s1)) s1"
  have z: "sizeof_d_super_block = of_nat 20" "value_of x + of_nat 0 = value_of x" by (simp_all add: layout_sizes)
  have r: "(0 :: nat) + 20 \<le> 1024" by simp
  note cp = buffer_copy [OF x(2) r o2, unfolded z(2), folded z(1), folded s2_def]
  obtain s' where s': "write_block dev kSuperBlockBNO s2 = Some (Inr (True, s'))" "fs_ok dev dsk k s'" "fs_touch dsk {1} s2 s'"
    "\<forall>j<1024. block_byte (dsk (fs_log s')) 1 j = fs_mem s2 (value_of x + of_nat j)"
    using write_block_closes [OF cp(1)] by (auto simp: bno_ok_def kSuperBlockBNO_def)
  have t2: "fs_touch dsk {} s s2" by (rule fs_touch_trans [OF x(3) cp(2)]) simp
  have t: "fs_touch dsk {1} s s'" by (rule fs_touch_trans [OF t2 s'(3)]) simp
  have "block_byte (dsk (fs_log s')) 1 i = fs_mem s' (g_super_block im + of_nat i)" if i: "i < 20" for i
  proof -
    have "block_byte (dsk (fs_log s')) 1 i = fs_mem s1 (g_super_block im + of_nat i)" using s'(4) cp(3) [OF i] i by simp
    moreover have "fs_touch dsk {1} s1 s'" by (rule fs_touch_trans [OF cp(2) s'(3)]) simp
    then have "fs_mem s' (g_super_block im + of_nat i) = fs_mem s1 (g_super_block im + of_nat i)" using i by (intro off_heap_touch(2) [OF _ o1]) simp_all
    ultimately show ?thesis by simp
  qed
  moreover have "sync_super_block dev im s = Some (Inr s')" using x(1) s'(1) by (simp add: sync_super_block_def s2_def)
  ultimately show ?thesis using s'(2) t by (auto simp: sb_stored_def)
qed

lemma sb_field_touch:
  assumes "fs_touch dsk B s s'" and "off_heap s (g_super_block im) 39" and "i < 19"
  shows "sb_field im s' i = sb_field im s i"
proof -
  have e: "g_super_block im + of_nat (2 * i) + 1 = g_super_block im + of_nat (2 * i + 1)" by simp
  show ?thesis unfolding sb_field_def read16_def e
    using off_heap_touch(2) [OF assms(1,2), of "2 * i"] off_heap_touch(2) [OF assms(1,2), of "2 * i + 1"] assms(3) by (simp del: of_nat_add of_nat_mult)
qed

lemma sb_fields:
  "sb_field im s 0 = unat (sb_num_inodes (fs_mem s) (g_super_block im))" "sb_field im s 1 = unat (sb_num_zones (fs_mem s) (g_super_block im))"
  "sb_field im s 2 = unat (sb_num_imap_blocks (fs_mem s) (g_super_block im))" "sb_field im s 3 = unat (sb_num_zmap_blocks (fs_mem s) (g_super_block im))"
  by (simp_all add: sb_field_def sb_num_inodes_def sb_num_zones_def sb_num_imap_blocks_def sb_num_zmap_blocks_def super_block_def)

lemma sb_stored_touch:
  assumes "fs_touch dsk B s s'" and "1 \<notin> B" and "off_heap s (g_super_block im) 39" and "sb_stored im (dsk (fs_log s)) s"
  shows "sb_stored im (dsk (fs_log s')) s'"
proof -
  have "block_byte (dsk (fs_log s')) 1 i = block_byte (dsk (fs_log s)) 1 i" if "i < 20" for i
    using that assms(2) by (intro block_byte_touch [OF assms(1)]) simp_all
  then show ?thesis using assms(4) off_heap_touch(2) [OF assms(1,3)] by (simp add: sb_stored_def)
qed

text \<open>The tables of the synchronisation, and the blocks they go to. The bitmaps have to fit into the blocks that
  the super block gives them.\<close>

definition sync_tables :: "fs_image \<Rightarrow> fs \<Rightarrow> (u32 \<times> nat) list" where
  "sync_tables im s = [(g_super_block im, 39), (inode_at im 1, 56 * sb_field im s 0), (g_imap_data im, sb_field im s 0 div 8),
     (g_zmap_data im, sb_field im s 1 div 8)]"

definition bitmaps_fit :: "fs_image \<Rightarrow> fs \<Rightarrow> bool" where
  "bitmaps_fit im s \<longleftrightarrow> blocks_for (sb_field im s 0 div 8) 1024 \<le> sb_field im s 2 \<and> blocks_for (sb_field im s 1 div 8) 1024 \<le> sb_field im s 3"

definition tables_end :: "fs_image \<Rightarrow> fs \<Rightarrow> nat" where
  "tables_end im s = 2 + sb_field im s 2 + sb_field im s 3 + blocks_for (sb_field im s 0) 32"

definition table_start :: "fs_image \<Rightarrow> fs \<Rightarrow> nat \<Rightarrow> u32" where
  "table_start im s i = of_nat (if i = 0 then 2 else if i = 1 then 2 + sb_field im s 2 else 2 + sb_field im s 2 + sb_field im s 3)"

definition tables_synced :: "fs_image \<Rightarrow> (nat \<Rightarrow> u32) \<Rightarrow> fs \<Rightarrow> bool" where
  "tables_synced im d s \<longleftrightarrow> sb_stored im d s
     \<and> table_loaded (g_imap_data im) 1 1 (table_start im s 0) 1 d (sb_field im s 0 div 8) s
     \<and> table_loaded (g_zmap_data im) 1 1 (table_start im s 1) 1 d (sb_field im s 1 div 8) s
     \<and> table_loaded (inode_at im 1) 56 32 (table_start im s 2) 32 d (sb_field im s 0) s"

lemma sb_field_less: "sb_field im s i < 65536"
  by (simp add: sb_field_def zone_number_less)

lemma sb_field_small: "sb_field im s i < 2 ^ 32" "sb_field im s i div 8 < 2 ^ 32"
  using sb_field_less [of im s i] by simp_all

lemma unat_table_start:
  "unat (table_start im s 0) = 2" "unat (table_start im s 1) = 2 + sb_field im s 2" "unat (table_start im s 2) = 2 + sb_field im s 2 + sb_field im s 3"
proof -
  have "2 + sb_field im s 2 + sb_field im s 3 < 2 ^ 32" using sb_field_less [of im s 2] sb_field_less [of im s 3] by simp
  then show "unat (table_start im s 0) = 2" "unat (table_start im s 1) = 2 + sb_field im s 2"
    "unat (table_start im s 2) = 2 + sb_field im s 2 + sb_field im s 3"
    unfolding table_start_def by (simp_all only: if_True if_False refl one_neq_zero zero_neq_numeral numeral_eq_one_iff semiring_norm unat_of_nat_u32)
qed

lemma tables_bound: "unat (table_start im s 2) + blocks_for (sb_field im s 0) 32 \<le> 0x8000000"
  "unat (table_start im s 1) + blocks_for (sb_field im s 1 div 8) 1024 \<le> 0x8000000" "unat (table_start im s 0) + blocks_for (sb_field im s 0 div 8) 1024 \<le> 0x8000000"
  using sb_field_less [of im s 0] sb_field_less [of im s 1] sb_field_less [of im s 2] sb_field_less [of im s 3]
  unfolding unat_table_start blocks_for_def by linarith+

lemma table_start_touch:
  "fs_touch dsk B s s' \<Longrightarrow> off_heap s (g_super_block im) 39 \<Longrightarrow> table_start im s' i = table_start im s i"
  using sb_field_touch [of dsk B s s' im] by (simp add: table_start_def)

text \<open>Later tables leave an earlier one in agreement.\<close>

lemma synced_touch:
  assumes "table_loaded base msz siz start bsz (dsk (fs_log s)) N s" and "fs_touch dsk {e..<e'} s s'" and "bsz * q = 1024"
    and "siz \<le> bsz" and "siz \<le> msz" and "unat start + blocks_for N q \<le> 0x8000000" and "unat start + blocks_for N q \<le> e" and "off_heap s base (msz * N)"
  shows "table_loaded base msz siz start bsz (dsk (fs_log s')) N s'"
  by (rule table_loaded_touch [OF assms(1-5) _ _ assms(8)]) (use assms(6,7) in \<open>auto simp: blocks_for_def\<close>)

text \<open>One table: its blocks are written, the rest of the disk and all memory outside of the heap stay.\<close>

lemma sync_table:
  assumes q: "bsz * q = 1024" and siz: "siz \<le> bsz" "siz \<le> msz" "0 < siz" and N: "N < 2 ^ 32"
    and L: "unat start + blocks_for N q \<le> 0x8000000" and o: "off_heap s base (msz * N)" and ok: "fs_ok dev dsk (blocks_for N q + k) s"
  shows "\<exists>s'. write_blocks dev (of_nat msz) (of_nat bsz) base start (of_nat N) (of_nat siz) s = Some (Inr (True, s'))
    \<and> fs_ok dev dsk k s' \<and> fs_touch dsk {unat start..<unat start + blocks_for N q} s s'
    \<and> table_loaded base msz siz start bsz (dsk (fs_log s')) N s'"
proof -
  have "{unat start..<unat start + blocks_for N q} = {unat start..unat start + (N - 1) div q}" by (auto simp: blocks_for_def)
  moreover have "N = unat (of_nat N :: u32)" using N by (simp add: unat_of_nat_u32)
  ultimately show ?thesis using write_blocks_ok [OF q siz _ _ o, of "of_nat N" start dev dsk k] L ok by (simp add: blocks_for_def)
qed

lemma sb_counts:
  "(ucast (sb_num_inodes (fs_mem s) (g_super_block im)) :: u32) = of_nat (sb_field im s 0)"
  "(ucast (sb_num_inodes (fs_mem s) (g_super_block im)) :: u32) div 8 = of_nat (sb_field im s 0 div 8)"
  "(ucast (sb_num_zones (fs_mem s) (g_super_block im)) :: u32) div 8 = of_nat (sb_field im s 1 div 8)"
  "2 = table_start im s 0" "2 + ucast (sb_num_imap_blocks (fs_mem s) (g_super_block im)) = table_start im s 1" "inode_start im s = table_start im s 2"
proof -
  have w: "(ucast (h :: u16) :: u32) = of_nat (unat h)" "(ucast h :: u32) div 8 = of_nat (unat h div 8)" for h
  proof -
    have "unat h < 2 ^ 32" "unat h div 8 < 2 ^ 32" using zone_number_less [of h] by simp_all
    then show "(ucast h :: u32) = of_nat (unat h)" "(ucast h :: u32) div 8 = of_nat (unat h div 8)"
      by (simp_all add: word_unat_eq_iff unat_zone_number unat_div unat_of_nat_u32)
  qed
  show "(ucast (sb_num_inodes (fs_mem s) (g_super_block im)) :: u32) = of_nat (sb_field im s 0)"
    "(ucast (sb_num_inodes (fs_mem s) (g_super_block im)) :: u32) div 8 = of_nat (sb_field im s 0 div 8)"
    "(ucast (sb_num_zones (fs_mem s) (g_super_block im)) :: u32) div 8 = of_nat (sb_field im s 1 div 8)"
    "2 = table_start im s 0" "2 + ucast (sb_num_imap_blocks (fs_mem s) (g_super_block im)) = table_start im s 1" "inode_start im s = table_start im s 2"
    by (simp_all only: w(2) sb_fields table_start_def inode_start_def) simp_all
qed

lemma sync_imap_ok:
  assumes "fs_ok dev dsk (blocks_for (sb_field im s 0 div 8) 1024 + k) s" and "off_heap s (g_imap_data im) (sb_field im s 0 div 8)"
  shows "\<exists>s'. sync_imap dev im s = Some (Inr s') \<and> fs_ok dev dsk k s'
    \<and> fs_touch dsk {2..<2 + blocks_for (sb_field im s 0 div 8) 1024} s s'
    \<and> table_loaded (g_imap_data im) 1 1 (table_start im s 0) 1 (dsk (fs_log s')) (sb_field im s 0 div 8) s'"
  using sync_table [of 1 1024 1 1 "sb_field im s 0 div 8" "table_start im s 0" s "g_imap_data im" dev dsk k] assms sb_field_small [of im s 0] tables_bound [of im s]
  by (auto simp: sync_imap_def sb_counts(2) sb_counts(4) [of im s] unat_table_start(1))

lemma sync_zmap_ok:
  assumes "fs_ok dev dsk (blocks_for (sb_field im s 1 div 8) 1024 + k) s" and "off_heap s (g_zmap_data im) (sb_field im s 1 div 8)"
  shows "\<exists>s'. sync_zmap dev im s = Some (Inr s') \<and> fs_ok dev dsk k s'
    \<and> fs_touch dsk {2 + sb_field im s 2..<2 + sb_field im s 2 + blocks_for (sb_field im s 1 div 8) 1024} s s'
    \<and> table_loaded (g_zmap_data im) 1 1 (table_start im s 1) 1 (dsk (fs_log s')) (sb_field im s 1 div 8) s'"
  using sync_table [of 1 1024 1 1 "sb_field im s 1 div 8" "table_start im s 1" s "g_zmap_data im" dev dsk k] assms sb_field_small [of im s 1] tables_bound [of im s]
  by (auto simp: sync_zmap_def sb_counts(3,5) unat_table_start(2) simp del: One_nat_def)

lemma sync_inodes_ok:
  assumes "fs_ok dev dsk (blocks_for (sb_field im s 0) 32 + k) s" and "off_heap s (inode_at im 1) (56 * sb_field im s 0)"
  shows "\<exists>s'. sync_inodes dev im s = Some (Inr s') \<and> fs_ok dev dsk k s'
    \<and> fs_touch dsk {2 + sb_field im s 2 + sb_field im s 3..<tables_end im s} s s'
    \<and> table_loaded (inode_at im 1) 56 32 (table_start im s 2) 32 (dsk (fs_log s')) (sb_field im s 0) s'"
proof -
  have a: "g_inode_table im + 56 = inode_at im 1" by (simp add: inode_at_def layout_sizes)
  show ?thesis
    using sync_table [of 32 32 32 56 "sb_field im s 0" "table_start im s 2" s "inode_at im 1" dev dsk k] assms sb_field_small [of im s 0] tables_bound [of im s]
    by (auto simp: sync_inodes_def sb_counts(1,6) unat_table_start(3) a tables_end_def layout_sizes)
qed

lemma sync_all_ok:
  assumes ok: "fs_ok dev dsk (1 + blocks_for (sb_field im s 0 div 8) 1024 + blocks_for (sb_field im s 1 div 8) 1024 + blocks_for (sb_field im s 0) 32 + k) s"
    and o: "\<forall>(a, n)\<in>set (sync_tables im s). off_heap s a n" and fit: "bitmaps_fit im s"
  shows "\<exists>s'. sync_all dev im s = Some (Inr s') \<and> fs_ok dev dsk k s' \<and> fs_touch dsk {1..<tables_end im s} s s'
    \<and> tables_synced im (dsk (fs_log s')) s'"
proof -
  let ?sb = "g_super_block im" and ?f = "sb_field im s" and ?ni = "sb_field im s 0 div 8" and ?nz = "sb_field im s 1 div 8"
  let ?bi = "blocks_for ?ni 1024" and ?bz = "blocks_for ?nz 1024" and ?bn = "blocks_for (?f 0) 32"
  have t: "off_heap s ?sb 39" "off_heap s (inode_at im 1) (56 * ?f 0)" "off_heap s (g_imap_data im) ?ni" "off_heap s (g_zmap_data im) ?nz"
    using o by (simp_all add: sync_tables_def)
  have fits: "?bi \<le> ?f 2" "?bz \<le> ?f 3" using fit by (simp_all add: bitmaps_fit_def)
  have "fs_ok dev dsk (Suc (?bi + (?bz + (?bn + k)))) s" using ok by (simp add: add.assoc)
  from sync_super_block_ok [OF this t(1)] obtain s1 where s1: "sync_super_block dev im s = Some (Inr s1)" "fs_ok dev dsk (?bi + (?bz + (?bn + k))) s1"
    "fs_touch dsk {1} s s1" "sb_stored im (dsk (fs_log s1)) s1" by blast
  note f1 = sb_field_touch [OF s1(3) t(1)] and o1 = off_heap_touch(1) [OF s1(3)]
  obtain s2 where s2: "sync_imap dev im s1 = Some (Inr s2)" "fs_ok dev dsk (?bz + (?bn + k)) s2" "fs_touch dsk {2..<2 + ?bi} s1 s2"
    "table_loaded (g_imap_data im) 1 1 (table_start im s1 0) 1 (dsk (fs_log s2)) ?ni s2"
    using sync_imap_ok [of dev dsk im s1] s1(2) o1 [OF t(3)] f1 [of 0] by auto
  have t2: "fs_touch dsk {1..<2 + ?bi} s s2" by (rule fs_touch_trans [OF s1(3) s2(3)]) auto
  note f2 = sb_field_touch [OF t2 t(1)] and o2 = off_heap_touch(1) [OF t2]
  obtain s3 where s3: "sync_zmap dev im s2 = Some (Inr s3)" "fs_ok dev dsk (?bn + k) s3" "fs_touch dsk {2 + ?f 2..<2 + ?f 2 + ?bz} s2 s3"
    "table_loaded (g_zmap_data im) 1 1 (table_start im s2 1) 1 (dsk (fs_log s3)) ?nz s3"
    using sync_zmap_ok [of dev dsk im s2] s2(2) o2 [OF t(4)] f2 [of 1] f2 [of 2] by auto
  have t3: "fs_touch dsk {1..<2 + ?f 2 + ?bz} s s3" by (rule fs_touch_trans [OF t2 s3(3)]) (use fits in auto)
  note f3 = sb_field_touch [OF t3 t(1)] and o3 = off_heap_touch(1) [OF t3]
  have e3: "tables_end im s3 = tables_end im s" using f3 by (simp add: tables_end_def)
  obtain s4 where s4: "sync_inodes dev im s3 = Some (Inr s4)" "fs_ok dev dsk k s4" "fs_touch dsk {2 + ?f 2 + ?f 3..<tables_end im s} s3 s4"
    "table_loaded (inode_at im 1) 56 32 (table_start im s3 2) 32 (dsk (fs_log s4)) (?f 0) s4"
    using sync_inodes_ok [of dev dsk im s3] s3(2) o3 [OF t(2)] f3 [of 0] f3 [of 2] f3 [of 3] unfolding e3 by auto
  have t4: "fs_touch dsk {1..<tables_end im s} s s4" by (rule fs_touch_trans [OF t3 s4(3)]) (use fits in \<open>auto simp: tables_end_def\<close>)
  note f4 = sb_field_touch [OF t4 t(1)]
  have st: "table_start im s4 i = table_start im s i" "table_start im s3 i = table_start im s i" "table_start im s2 i = table_start im s i"
    "table_start im s1 i = table_start im s i" for i using table_start_touch t(1) t4 t3 t2 s1(3) by blast+
  have t34: "fs_touch dsk {2 + ?f 2..<tables_end im s} s2 s4" by (rule fs_touch_trans [OF s3(3) s4(3)]) (use fits in \<open>auto simp: tables_end_def\<close>)
  then have t14: "fs_touch dsk {2..<tables_end im s} s1 s4" by (rule fs_touch_trans [OF s2(3)]) (use fits in \<open>auto simp: tables_end_def\<close>)
  have "sb_stored im (dsk (fs_log s4)) s4" using sb_stored_touch [OF t14 _ o1 [OF t(1)] s1(4)] by simp
  moreover have "table_loaded (g_imap_data im) 1 1 (table_start im s 0) 1 (dsk (fs_log s4)) ?ni s4"
    by (rule synced_touch [OF s2(4) [unfolded st] t34, of 1024]) (use tables_bound [of im s] fits o2 [OF t(3)] unat_table_start [of im s] in simp_all)
  moreover have "table_loaded (g_zmap_data im) 1 1 (table_start im s 1) 1 (dsk (fs_log s4)) ?nz s4"
    by (rule synced_touch [OF s3(4) [unfolded st] s4(3), of 1024]) (use tables_bound [of im s] fits o3 [OF t(4)] unat_table_start [of im s] in simp_all)
  ultimately have "tables_synced im (dsk (fs_log s4)) s4" using s4(4) f4 [of 0] f4 [of 1] by (simp add: tables_synced_def st)
  moreover have "sync_all dev im s = Some (Inr s4)" using s1(1) s2(1) s3(1) s4(1) by (simp add: sync_all_def)
  ultimately show ?thesis using s4(2) t4 by blast
qed

section \<open>Synchronisation and initialisation\<close>

text \<open>The first \<open>siz\<close> bytes of each item of a table agree in two memories.\<close>

definition same_table :: "u32 \<Rightarrow> nat \<Rightarrow> nat \<Rightarrow> nat \<Rightarrow> mem \<Rightarrow> mem \<Rightarrow> bool" where
  "same_table a msz siz N m m' \<longleftrightarrow> (\<forall>j<N. \<forall>l. l < siz \<longrightarrow> m (a + of_nat (msz * j + l)) = m' (a + of_nat (msz * j + l)))"

lemma same_table_loaded:
  assumes "table_loaded a msz siz start bsz d N s" and "table_loaded a msz siz start bsz d N s'"
  shows "same_table a msz siz N (fs_mem s) (fs_mem s')"
  using assms by (simp add: table_loaded_def same_table_def del: of_nat_add of_nat_mult)

lemma same_table_touch:
  assumes "fs_touch dsk B s s'" and "off_heap s a (msz * N)" and "siz \<le> msz" and "same_table a msz siz N m (fs_mem s')"
  shows "same_table a msz siz N m (fs_mem s)"
  using assms(4) off_heap_touch(2) [OF assms(1,2)] table_offset [OF _ _ assms(3)] by (simp add: same_table_def del: of_nat_add of_nat_mult)

lemma sb_stored_half:
  assumes "sb_stored im d s" and "i < 10"
  shows "sb_half d i = sb_field im s i"
proof -
  let ?p = "g_super_block im + of_nat (2 * i)"
  have e: "?p + 1 = g_super_block im + of_nat (2 * i + 1)" by simp
  have "read16 (fs_mem s) ?p = disk_half d 1 i"
  proof (rule read16_block)
    show "fs_mem s ?p = block_byte d (ucast (1 :: u16)) (2 * i)" using assms by (simp add: sb_stored_def del: of_nat_mult)
    show "fs_mem s (?p + 1) = block_byte d (ucast (1 :: u16)) (2 * i + 1)" unfolding e using assms by (simp add: sb_stored_def del: of_nat_mult of_nat_add of_nat_Suc)
  qed
  then show ?thesis by (simp add: sb_half_def sb_field_def)
qed

lemma sync_init_ok:
  assumes r: "sync_all dev im s = Some (Inr s')"
    and ok: "fs_ok dev dsk (1 + blocks_for (sb_field im s 0 div 8) 1024 + blocks_for (sb_field im s 1 div 8) 1024 + blocks_for (sb_field im s 0) 32 + k) s"
    and o: "\<forall>(a, n)\<in>set (sync_tables im s). off_heap s a n" and fit: "bitmaps_fit im s" and ap: "spans_apart (sync_tables im s)"
    and b: "fs_ok dev dsk (1 + blocks_for (sb_field im s 0) 32 + blocks_for (sb_field im s 0 div 8) 1024 + blocks_for (sb_field im s 1 div 8) 1024 + k') b"
      "dsk (fs_log b) = dsk (fs_log s')" "\<forall>(a, n)\<in>set (sync_tables im s). off_heap b a n"
  shows "\<exists>b'. init_fs dev im b = Some (Inr b') \<and> fs_ok dev dsk k' b' \<and> same_table (g_super_block im) 20 20 1 (fs_mem b') (fs_mem s)
    \<and> same_table (inode_at im 1) 56 32 (sb_field im s 0) (fs_mem b') (fs_mem s)
    \<and> same_table (g_imap_data im) 1 1 (sb_field im s 0 div 8) (fs_mem b') (fs_mem s)
    \<and> same_table (g_zmap_data im) 1 1 (sb_field im s 1 div 8) (fs_mem b') (fs_mem s)"
proof -
  let ?d = "dsk (fs_log s')"
  have t: "off_heap s (g_super_block im) 39" "off_heap s (inode_at im 1) (56 * sb_field im s 0)" "off_heap s (g_imap_data im) (1 * (sb_field im s 0 div 8))"
    "off_heap s (g_zmap_data im) (1 * (sb_field im s 1 div 8))" using o by (simp_all add: sync_tables_def)
  have s': "fs_touch dsk {1..<tables_end im s} s s'" "tables_synced im ?d s'"
    using sync_all_ok [OF ok o fit] r by simp_all
  note f = sb_field_touch [OF s'(1) t(1)] and st = table_start_touch [OF s'(1) t(1)]
  note sy = s'(2) [unfolded tables_synced_def st]
  have h: "sb_half ?d 0 = sb_field im s 0" "sb_half ?d 1 = sb_field im s 1" "sb_half ?d 2 = sb_field im s 2" "sb_half ?d 3 = sb_field im s 3"
    using sb_stored_half [of im ?d s'] sy f by simp_all
  have tb: "fs_tables im ?d = sync_tables im s" by (simp add: fs_tables_def sync_tables_def h h(2) [simplified])
  obtain b' where b': "init_fs dev im b = Some (Inr b')" "fs_ok dev dsk k' b'" "sb_loaded im ?d b'"
    "table_loaded (inode_at im 1) 56 32 (inode_block ?d) 32 ?d (sb_field im s 0) b'"
    "table_loaded (g_imap_data im) 1 1 2 1 ?d (sb_field im s 0 div 8) b'"
    "table_loaded (g_zmap_data im) 1 1 (of_nat (2 + sb_half ?d 2)) 1 ?d (sb_field im s 1 div 8) b'"
    using init_fs_ok [of dev dsk ?d k' b im, unfolded tb h(1,2), OF b ap] by blast
  have starts: "inode_block ?d = table_start im s 2" "2 = table_start im s 0" "of_nat (2 + sb_half ?d 2) = table_start im s 1"
    by (simp_all add: inode_block_def table_start_def h)
  have "same_table (inode_at im 1) 56 32 (sb_field im s 0) (fs_mem b') (fs_mem s)"
    using sy f by (intro same_table_touch [OF s'(1) t(2)] same_table_loaded [OF b'(4) [unfolded starts(1)]]) simp_all
  moreover have "same_table (g_imap_data im) 1 1 (sb_field im s 0 div 8) (fs_mem b') (fs_mem s)"
    using sy f by (intro same_table_touch [OF s'(1) t(3)] same_table_loaded [OF b'(5) [unfolded starts(2)]]) simp_all
  moreover have "same_table (g_zmap_data im) 1 1 (sb_field im s 1 div 8) (fs_mem b') (fs_mem s)"
    using sy f by (intro same_table_touch [OF s'(1) t(4)] same_table_loaded [OF b'(6) [unfolded starts(3)]]) simp_all
  moreover have "same_table (g_super_block im) 20 20 1 (fs_mem b') (fs_mem s)"
    using b'(3) sy off_heap_touch(2) [OF s'(1) t(1)] by (simp add: same_table_def sb_loaded_def sb_stored_def)
  ultimately show ?thesis using b'(1,2) by blast
qed

section \<open>Properties\<close>

lemma table_loaded_back:
  assumes "fs_touch dsk B s s'" and "off_heap s a (msz * N)" and "siz \<le> msz" and "table_loaded a msz siz start bsz d N s'"
  shows "table_loaded a msz siz start bsz d N s"
  using assms(4) off_heap_touch(2) [OF assms(1,2)] table_offset [OF _ _ assms(3)] by (simp add: table_loaded_def del: of_nat_add of_nat_mult)

lemma tables_synced_back:
  assumes t: "fs_touch dsk B s s'" and o: "\<forall>(a, n)\<in>set (sync_tables im s). off_heap s a n" and y: "tables_synced im d s'"
  shows "tables_synced im d s"
proof -
  have sb: "off_heap s (g_super_block im) 39" using o by (simp add: sync_tables_def)
  have t1: "table_loaded a msz siz start bsz d N s" if "table_loaded a msz siz start bsz d N s'" "off_heap s a (msz * N)" "siz \<le> msz" for a msz siz start bsz N
    by (rule table_loaded_back [OF t that(2,3,1)])
  have "sb_stored im d s" using y off_heap_touch(2) [OF t sb] by (simp add: tables_synced_def sb_stored_def)
  then show ?thesis using y sb_field_touch [OF t sb] table_start_touch [OF t sb] o
    unfolding tables_synced_def sync_tables_def by (auto intro!: t1)
qed

text \<open>\<open>sync_all\<close> stores the file system: on a working drive with room in the cache, and with bitmaps that fit into
  their blocks, it succeeds and the super block, both bitmaps and all inodes are on the disk byte by byte as
  they are in memory. No other block of the disk changes, nor any memory outside of the heap, and the cache is
  coherent.\<close>

lemma sync_all_stores:
  assumes "fs_ok dev dsk (1 + blocks_for (sb_field im s 0 div 8) 1024 + blocks_for (sb_field im s 1 div 8) 1024 + blocks_for (sb_field im s 0) 32 + k) s"
    and "\<forall>(a, n)\<in>set (sync_tables im s). off_heap s a n" and "bitmaps_fit im s"
  shows "\<exists>s'. sync_all dev im s = Some (Inr s') \<and> fs_ok dev dsk k s' \<and> fs_touch dsk {1..<tables_end im s} s s'
    \<and> tables_synced im (dsk (fs_log s')) s"
  using sync_all_ok [OF assms] tables_synced_back [OF _ assms(2)] by blast

text \<open>A super block in memory that describes two inodes and sixteen zones, and a directory as the first inode.\<close>

definition sync_mem :: mem where
  "sync_mem = (\<lambda>_. 0)(0x2000 := 2, 0x2002 := 16, 0x2004 := 1, 0x2006 := 1, 0x1039 := 0x40)"

definition sync_fs :: fs where
  "sync_fs = idle_fs sync_mem []"

lemma sync_fs_facts:
  "sb_field example_image sync_fs 0 = 2" "sb_field example_image sync_fs 1 = 16" "sb_field example_image sync_fs 2 = 1"
  "sb_field example_image sync_fs 3 = 1" "bitmaps_fit example_image sync_fs"
  "sync_tables example_image sync_fs = [(0x2000, 39), (0x1038, 112), (0x2100, 0), (0x2200, 2)]"
  "table_start example_image sync_fs 2 = 4"
proof -
  show f: "sb_field example_image sync_fs 0 = 2" "sb_field example_image sync_fs 1 = 16" "sb_field example_image sync_fs 2 = 1"
    "sb_field example_image sync_fs 3 = 1"
    by (simp_all add: sb_field_def sync_fs_def example_image_def read16_def idle_fs_mem_read sync_mem_def)
  show "bitmaps_fit example_image sync_fs" by (simp add: bitmaps_fit_def f f(2) [simplified] blocks_for_def)
  show "sync_tables example_image sync_fs = [(0x2000, 39), (0x1038, 112), (0x2100, 0), (0x2200, 2)]"
    unfolding sync_tables_def f by (simp add: example_image_def inode_at_def layout_sizes)
  show "table_start example_image sync_fs 2 = 4" by (simp add: table_start_def f)
qed

lemma sync_fs_ok:
  "fs_ok (ata_sim d) (ata_disk d) (1 + blocks_for (sb_field example_image sync_fs 0 div 8) 1024 + blocks_for (sb_field example_image sync_fs 1 div 8) 1024
     + blocks_for (sb_field example_image sync_fs 0) 32 + 0) sync_fs"
  "\<forall>(a, n)\<in>set (sync_tables example_image sync_fs). off_heap (idle_fs m l) a n"
proof -
  show "fs_ok (ata_sim d) (ata_disk d) (1 + blocks_for (sb_field example_image sync_fs 0 div 8) 1024 + blocks_for (sb_field example_image sync_fs 1 div 8) 1024
     + blocks_for (sb_field example_image sync_fs 0) 32 + 0) sync_fs"
    unfolding sync_fs_facts unfolding sync_fs_def by (rule idle_fs_ok [OF _ ata_idle.power_on]) (simp add: blocks_for_def)
  show "\<forall>(a, n)\<in>set (sync_tables example_image sync_fs). off_heap (idle_fs m l) a n"
    unfolding sync_fs_facts by (simp add: idle_off_heap)
qed

lemma sync_all_stores_witness:
  "\<exists>s'. sync_all (ata_sim (\<lambda>_. 0)) example_image sync_fs = Some (Inr s') \<and> item_byte (ata_disk (\<lambda>_. 0) (fs_log s')) 4 32 0 1 = 0x40"
proof -
  obtain s' where s': "sync_all (ata_sim (\<lambda>_. 0)) example_image sync_fs = Some (Inr s')"
    "table_loaded (inode_at example_image 1) 56 32 4 32 (ata_disk (\<lambda>_. 0) (fs_log s')) 2 sync_fs"
    using sync_all_stores [OF sync_fs_ok(1) sync_fs_ok(2) [of sync_mem "[]", folded sync_fs_def] sync_fs_facts(5), of "\<lambda>_. 0"]
    unfolding tables_synced_def sync_fs_facts by blast
  have "fs_mem sync_fs (inode_at example_image 1 + of_nat (56 * 0 + 1)) = 0x40"
    by (simp add: sync_fs_def idle_fs_mem_read inode_at_def example_image_def layout_sizes sync_mem_def)
  then show ?thesis using s'(1) s'(2) [unfolded table_loaded_def, rule_format, of 0 1] by auto
qed

text \<open>C27. What \<open>sync_all\<close> stores \<open>init_fs\<close> loads: on any later state with the disk that the synchronisation left, the
  initialisation succeeds and brings back the super block, the inodes and both bitmaps byte by byte. In both states the
  cache agrees with the disk and has room for the blocks of the tables, so that nothing is evicted, and the tables lie outside of
  the heap; they do not overlap, and the bitmaps fit into the blocks that the super block gives them.\<close>

theorem sync_init_roundtrip:
  assumes "sync_all dev im s = Some (Inr s')"
    and "fs_ok dev dsk (1 + blocks_for (sb_field im s 0 div 8) 1024 + blocks_for (sb_field im s 1 div 8) 1024 + blocks_for (sb_field im s 0) 32 + k) s"
    and "\<forall>(a, n)\<in>set (sync_tables im s). off_heap s a n" and "bitmaps_fit im s" and "spans_apart (sync_tables im s)"
    and "fs_ok dev dsk (1 + blocks_for (sb_field im s 0) 32 + blocks_for (sb_field im s 0 div 8) 1024 + blocks_for (sb_field im s 1 div 8) 1024 + k') b"
    and "dsk (fs_log b) = dsk (fs_log s')" and "\<forall>(a, n)\<in>set (sync_tables im s). off_heap b a n"
  shows "\<exists>b'. init_fs dev im b = Some (Inr b') \<and> fs_ok dev dsk k' b' \<and> same_table (g_super_block im) 20 20 1 (fs_mem b') (fs_mem s)
    \<and> same_table (inode_at im 1) 56 32 (sb_field im s 0) (fs_mem b') (fs_mem s)
    \<and> same_table (g_imap_data im) 1 1 (sb_field im s 0 div 8) (fs_mem b') (fs_mem s)
    \<and> same_table (g_zmap_data im) 1 1 (sb_field im s 1 div 8) (fs_mem b') (fs_mem s)"
  by (rule sync_init_ok [OF assms])

theorem sync_init_roundtrip_witness:
  "\<exists>s' b'. sync_all (ata_sim (\<lambda>_. 0)) example_image sync_fs = Some (Inr s')
    \<and> init_fs (ata_sim (\<lambda>_. 0)) example_image (idle_fs (\<lambda>_. 0) (fs_log s')) = Some (Inr b') \<and> fs_mem b' 0x1039 = 0x40"
proof -
  let ?d = "\<lambda>_. 0 :: u32" and ?im = example_image
  have o: "\<forall>(a, n)\<in>set (sync_tables ?im sync_fs). off_heap sync_fs a n" using sync_fs_ok(2) [of sync_mem "[]"] by (simp add: sync_fs_def)
  obtain s' where s': "sync_all (ata_sim ?d) ?im sync_fs = Some (Inr s')" and ok': "fs_ok (ata_sim ?d) (ata_disk ?d) 0 s'"
    using sync_all_ok [OF sync_fs_ok(1) o sync_fs_facts(5), of ?d] by blast
  have idle: "ata_idle (ata_sim ?d) (fs_log s')" using ok' by (simp add: fs_ok_def drive_ready_def)
  have ap: "spans_apart (sync_tables ?im sync_fs)" unfolding sync_fs_facts by (auto simp: span_def)
  have b: "fs_ok (ata_sim ?d) (ata_disk ?d) (1 + blocks_for (sb_field ?im sync_fs 0) 32 + blocks_for (sb_field ?im sync_fs 0 div 8) 1024
      + blocks_for (sb_field ?im sync_fs 1 div 8) 1024 + 0) (idle_fs (\<lambda>_. 0) (fs_log s'))"
    unfolding sync_fs_facts by (rule idle_fs_ok [OF _ idle]) (simp add: blocks_for_def)
  have l: "ata_disk ?d (fs_log (idle_fs (\<lambda>_. 0) (fs_log s'))) = ata_disk ?d (fs_log s')" by (simp add: idle_fs_def)
  obtain b' where b': "init_fs (ata_sim ?d) ?im (idle_fs (\<lambda>_. 0) (fs_log s')) = Some (Inr b')"
    "same_table (inode_at ?im 1) 56 32 2 (fs_mem b') (fs_mem sync_fs)"
    using sync_init_roundtrip [OF s' sync_fs_ok(1) o sync_fs_facts(5) ap b l sync_fs_ok(2)] unfolding sync_fs_facts by blast
  have a: "inode_at ?im 1 + of_nat (56 * 0 + 1) = 0x1039" by (simp add: inode_at_def example_image_def layout_sizes)
  have "fs_mem b' 0x1039 = fs_mem sync_fs 0x1039" using b'(2) [unfolded same_table_def, rule_format, of 0 1] unfolding a by simp
  then show ?thesis using s' b'(1) by (simp add: sync_fs_def idle_fs_mem_read sync_mem_def)
qed

end
