(* ===== verification/Sprite_Evict.thy ===== *)
theory Sprite_Evict
  imports Sprite_Fs
begin

text \<open>
  What happens when the block cache is full. The callback that \<open>init_fs\<close> installs writes the block back with
  \<open>write_block\<close>, which looks the block up in the very cache that is dropping it and so puts its node back into
  the queue. The node is then reused for the new block while it is the last of the queue, and ends as its own
  predecessor.
\<close>

section \<open>The callback inside an eviction\<close>






section \<open>A node that is its own predecessor\<close>











section \<open>Properties\<close>





end
