(* ===== verification/Sprite_Pmm.thy ===== *)
theory Sprite_Pmm
  imports Sprite_Prelude "HOL-Library.Multiset"
begin

text \<open>
  The physical page manager of \<open>lib/pmm.cc\<close>: a stack of free page addresses, filled once from
  the memory map of the boot loader.
\<close>

section \<open>State and operations\<close>

definition PMM_MAX_SIZE :: u32 where
  "PMM_MAX_SIZE = 0x20000000"

definition PMM_PAGE_SIZE :: u32 where
  "PMM_PAGE_SIZE = 0x1000"

definition PAGE_MAX_SIZE :: u32 where
  "PAGE_MAX_SIZE = PMM_MAX_SIZE div PMM_PAGE_SIZE"

lemma PAGE_MAX_SIZE_eq: "PAGE_MAX_SIZE = 0x20000"
  by (simp add: PAGE_MAX_SIZE_def PMM_MAX_SIZE_def PMM_PAGE_SIZE_def)

record pmm =
  pmm_stack :: "nat \<Rightarrow> u32"
  pmm_stack_top :: u32
  phy_page_count :: u32

text \<open>The array \<open>pmm_stack\<close> has \<open>PAGE_MAX_SIZE + 1\<close> elements.\<close>

definition pmm_stack_len :: nat where
  "pmm_stack_len = unat PAGE_MAX_SIZE + 1"

definition pmm_free_page :: "u32 \<Rightarrow> pmm \<Rightarrow> pmm result" where
  "pmm_free_page p s =
     rbind (assert_that (pmm_stack_top s \<noteq> PAGE_MAX_SIZE) ''out of pmm_stack'') (\<lambda>_.
     (let top = pmm_stack_top s + 1 in
      rbind (arr_set pmm_stack_len (pmm_stack s) (unat top) p) (\<lambda>st.
      Inr (s\<lparr>pmm_stack := st, pmm_stack_top := top\<rparr>))))"

definition pmm_alloc_page :: "pmm \<Rightarrow> (u32 \<times> pmm) result" where
  "pmm_alloc_page s =
     rbind (assert_that (pmm_stack_top s \<noteq> 0) ''out of memory'') (\<lambda>_.
     rbind (arr_get pmm_stack_len (pmm_stack s) (unat (pmm_stack_top s))) (\<lambda>p.
     Inr (p, s\<lparr>pmm_stack_top := pmm_stack_top s - 1\<rparr>)))"

text \<open>
  \<open>pmm_alloc_page (pma)\<close>: the loop over the indices up to the top. The index is a \<open>uint32_t\<close>
  in the source; a read at \<open>pmm_stack_len\<close> stops the model, so it never reaches \<open>2\<^sup>3\<^sup>2\<close>.
\<close>

function pmm_alloc_page_loop :: "u32 \<Rightarrow> nat \<Rightarrow> pmm \<Rightarrow> (u32 \<times> pmm) result" where
  "pmm_alloc_page_loop pma i s =
     (if unat (pmm_stack_top s) < i then Inr (0, s)
      else if pmm_stack_len \<le> i then Inl OutOfBounds
      else if pmm_stack s i = pma then
        rbind (arr_get pmm_stack_len (pmm_stack s) (unat (pmm_stack_top s))) (\<lambda>t.
        Inr (pmm_stack s i,
             s\<lparr>pmm_stack := (pmm_stack s)(i := t), pmm_stack_top := pmm_stack_top s - 1\<rparr>))
      else pmm_alloc_page_loop pma (i + 1) s)"
  by pat_completeness auto
termination
  by (relation "measure (\<lambda>(pma, i, s). pmm_stack_len - i)") auto

declare pmm_alloc_page_loop.simps [simp del]

definition pmm_alloc_page_at :: "u32 \<Rightarrow> pmm \<Rightarrow> (u32 \<times> pmm) result" where
  "pmm_alloc_page_at pma s = pmm_alloc_page_loop pma 0 s"

record mmap_entry_t =
  mm_size :: u32
  base_addr_low :: u32
  base_addr_high :: u32
  length_low :: u32
  length_high :: u32
  mm_type :: u32

text \<open>The inner loop of \<open>init_pmm\<close>: push every page of one usable area.\<close>

function init_pmm_pages :: "u32 \<Rightarrow> u32 \<Rightarrow> pmm \<Rightarrow> pmm result" where
  "init_pmm_pages page_addr len s =
     (if page_addr < len \<and> page_addr \<le> PMM_MAX_SIZE then
        rbind (pmm_free_page page_addr s) (\<lambda>s'.
        init_pmm_pages (page_addr + PMM_PAGE_SIZE) len
          (s'\<lparr>phy_page_count := phy_page_count s' + 1\<rparr>))
      else Inr s)"
  by pat_completeness auto
termination
proof (relation "measure (\<lambda>(a, len, s). 2 ^ 32 - unat a)", goal_cases)
  case 1
  then show ?case by simp
next
  case (2 a len s s')
  then have "unat a \<le> 0x20000000" by (simp add: PMM_MAX_SIZE_def word_le_nat_alt)
  then have "unat (a + PMM_PAGE_SIZE) = unat a + 0x1000"
    by (simp add: PMM_PAGE_SIZE_def unat_word_ariths)
  with \<open>unat a \<le> 0x20000000\<close> show ?case by simp
qed

declare init_pmm_pages.simps [simp del]

text \<open>
  \<open>kern_size\<close> is \<open>kern_end - kern_start\<close>, the size of the linked image.
\<close>

fun init_pmm_entries :: "u32 \<Rightarrow> mmap_entry_t list \<Rightarrow> pmm \<Rightarrow> pmm result" where
  "init_pmm_entries kern_size [] s = Inr s"
| "init_pmm_entries kern_size (e # es) s =
     rbind (if mm_type e = 1 \<and> base_addr_low e = 0x100000
            then init_pmm_pages (base_addr_low e + kern_size) (base_addr_low e + length_low e) s
            else Inr s)
       (init_pmm_entries kern_size es)"

text \<open>
  \<open>mmap_end_addr\<close> is \<open>(mmap_entry_t *) mmap_addr + mmap_length\<close>: pointer arithmetic counts
  entries, so the loop visits \<open>mmap_length\<close> entries. \<open>mmap i\<close> is the entry at
  \<open>mmap_addr + 24 * i\<close>.
\<close>

definition init_pmm :: "u32 \<Rightarrow> (nat \<Rightarrow> mmap_entry_t) \<Rightarrow> u32 \<Rightarrow> pmm \<Rightarrow> pmm result" where
  "init_pmm kern_size mmap mmap_length s =
     init_pmm_entries kern_size (map mmap [0..<unat mmap_length])
       (s\<lparr>pmm_stack_top := - 1, phy_page_count := 0\<rparr>)"

section \<open>The stack of free pages\<close>

definition pmm_depth :: "pmm \<Rightarrow> nat" where
  "pmm_depth s = unat (pmm_stack_top s + 1)"

definition pmm_wf :: "pmm \<Rightarrow> bool" where
  "pmm_wf s \<longleftrightarrow> pmm_depth s \<le> pmm_stack_len"

definition pmm_pages :: "pmm \<Rightarrow> u32 list" where
  "pmm_pages s = rev (map (pmm_stack s) [0..<pmm_depth s])"

lemma length_pmm_pages [simp]: "length (pmm_pages s) = pmm_depth s"
  by (simp add: pmm_pages_def)

lemma pmm_stack_len_eq: "pmm_stack_len = 0x20001"
  by (simp add: pmm_stack_len_def PAGE_MAX_SIZE_eq)

lemma pmm_depth_full_iff: "pmm_depth s = pmm_stack_len \<longleftrightarrow> pmm_stack_top s = PAGE_MAX_SIZE"
proof
  assume "pmm_depth s = pmm_stack_len"
  then have "unat (pmm_stack_top s + 1) = unat (0x20001 :: u32)"
    by (simp add: pmm_depth_def pmm_stack_len_eq)
  then have "pmm_stack_top s + 1 = PAGE_MAX_SIZE + 1"
    by (simp add: PAGE_MAX_SIZE_eq word_unat_eq_iff)
  then show "pmm_stack_top s = PAGE_MAX_SIZE" by simp
qed (simp add: pmm_depth_def pmm_stack_len_eq PAGE_MAX_SIZE_eq)

lemma pmm_top_nonempty:
  assumes "pmm_depth s \<noteq> 0"
  shows "unat (pmm_stack_top s) = pmm_depth s - 1"
proof -
  from assms have "pmm_stack_top s + 1 \<noteq> 0" by (auto simp: pmm_depth_def)
  then show ?thesis using unat_pred_word [of "pmm_stack_top s + 1"] by (simp add: pmm_depth_def)
qed

lemma pmm_free_page_ok:
  assumes "pmm_wf s" and "pmm_depth s < pmm_stack_len"
  shows "\<exists>s'. pmm_free_page p s = Inr s' \<and> pmm_wf s' \<and> pmm_pages s' = p # pmm_pages s
    \<and> phy_page_count s' = phy_page_count s"
proof -
  from assms(2) have "pmm_stack_top s \<noteq> PAGE_MAX_SIZE"
    using pmm_depth_full_iff [of s] by auto
  moreover from assms(2) have "unat (pmm_stack_top s + 1 + 1) = Suc (pmm_depth s)"
    unfolding pmm_depth_def by (intro unat_Suc_word) (simp add: pmm_stack_len_eq pmm_depth_def)
  ultimately show ?thesis using assms
    by (auto simp: pmm_free_page_def pmm_wf_def pmm_pages_def pmm_depth_def Let_def)
qed

lemma pmm_free_page_full:
  "pmm_depth s = pmm_stack_len \<Longrightarrow> pmm_free_page p s = Inl (AssertFail ''out of pmm_stack'')"
  by (simp add: pmm_free_page_def pmm_depth_full_iff)

lemma pmm_alloc_page_ok:
  assumes "pmm_wf s" and "2 \<le> pmm_depth s"
  shows "\<exists>p s'. pmm_alloc_page s = Inr (p, s') \<and> pmm_wf s' \<and> pmm_pages s = p # pmm_pages s'"
proof -
  from assms(2) have top: "unat (pmm_stack_top s) = pmm_depth s - 1"
    by (intro pmm_top_nonempty) simp
  with assms(2) have "pmm_stack_top s \<noteq> 0" by auto
  moreover from assms(2) have "[0..<pmm_depth s] = [0..<pmm_depth s - 1] @ [pmm_depth s - 1]"
    by (metis Suc_pred' One_nat_def Suc_le_D numeral_2_eq_2 upt_Suc_append zero_le zero_less_Suc)
  ultimately show ?thesis using assms top
    by (simp add: pmm_alloc_page_def pmm_wf_def pmm_pages_def pmm_depth_def)
qed

lemma pmm_alloc_page_last:
  "pmm_depth s = 1 \<Longrightarrow> pmm_alloc_page s = Inl (AssertFail ''out of memory'')"
  using pmm_top_nonempty [of s] by (simp add: pmm_alloc_page_def unat_eq_zero)

lemma pmm_alloc_page_empty:
  assumes "pmm_depth s = 0"
  shows "pmm_alloc_page s = Inl OutOfBounds"
proof -
  from assms have "pmm_stack_top s = - 1"
    by (simp add: pmm_depth_def unat_eq_zero add_eq_0_iff2)
  then show ?thesis by (simp add: pmm_alloc_page_def pmm_stack_len_eq unsigned_minus_1_eq_mask mask_eq_exp_minus_1)
qed

section \<open>Taking a given page\<close>

lemma pmm_pages_mset: "mset (pmm_pages s) = mset (map (pmm_stack s) [0..<pmm_depth s])"
  by (simp add: pmm_pages_def)

lemma mset_swap_out:
  assumes "i < n"
  shows "mset (map f [0..<n]) = add_mset (f i) (mset (map (f(i := f (n - 1))) [0..<n - 1]))"
proof (cases "i = n - 1")
  case True
  with assms have "[0..<n] = [0..<n - 1] @ [i]" by (cases n) auto
  with True show ?thesis by simp
next
  case False
  with assms have i: "i < n - 1" by simp
  have "[0..<n] = [0..<n - 1] @ [n - 1]" using assms by (cases n) auto
  moreover have "map (f(i := f (n - 1))) [0..<n - 1] = (map f [0..<n - 1])[i := f (n - 1)]"
    using i by (intro nth_equalityI) (auto simp: nth_list_update)
  moreover have "f i \<in># mset (map f [0..<n - 1])" using i by auto
  ultimately show ?thesis using i by (simp add: mset_update)
qed

lemma pmm_alloc_page_loop_spec:
  assumes "pmm_wf s" and "pmm_depth s \<noteq> 0" and "i \<le> pmm_depth s"
    and "\<forall>j<i. pmm_stack s j \<noteq> pma"
  shows "case pmm_alloc_page_loop pma i s of
      Inl e \<Rightarrow> False
    | Inr (p, s') \<Rightarrow>
        if pma \<in> set (pmm_pages s)
        then p = pma \<and> pmm_wf s' \<and> mset (pmm_pages s) = add_mset pma (mset (pmm_pages s'))
        else p = 0 \<and> s' = s"
  using assms
proof (induction pma i s rule: pmm_alloc_page_loop.induct)
  case (1 pma i s)
  note top = pmm_top_nonempty [OF \<open>pmm_depth s \<noteq> 0\<close>]
  consider "i = pmm_depth s" | "i < pmm_depth s" "pmm_stack s i = pma"
    | "i < pmm_depth s" "pmm_stack s i \<noteq> pma"
    using 1 by linarith
  then show ?case
  proof cases
    case 1
    with \<open>\<forall>j<i. pmm_stack s j \<noteq> pma\<close> have "pma \<notin> set (pmm_pages s)"
      by (auto simp: pmm_pages_def)
    with 1 top \<open>pmm_depth s \<noteq> 0\<close> show ?thesis
      by (subst pmm_alloc_page_loop.simps) simp
  next
    case 2
    then have "pma \<in> set (pmm_pages s)" by (force simp: pmm_pages_def)
    moreover have "i < pmm_stack_len" "unat (pmm_stack_top s) < pmm_stack_len"
      using 2 top \<open>pmm_wf s\<close> by (auto simp: pmm_wf_def)
    moreover have "unat (pmm_stack_top s - 1 + 1) = pmm_depth s - 1" using top by simp
    ultimately show ?thesis
      using 2 top \<open>pmm_wf s\<close> mset_swap_out [of i "pmm_depth s" "pmm_stack s"]
      by (subst pmm_alloc_page_loop.simps) (simp add: pmm_wf_def pmm_pages_mset pmm_depth_def)
  next
    case 3
    with "1.prems" have "\<forall>j<i + 1. pmm_stack s j \<noteq> pma" by (simp add: less_Suc_eq)
    moreover have "\<not> pmm_stack_len \<le> i" "\<not> unat (pmm_stack_top s) < i"
      using 3 top \<open>pmm_wf s\<close> by (auto simp: pmm_wf_def)
    ultimately show ?thesis using "1.IH" "1.prems" 3
      by (simp add: pmm_alloc_page_loop.simps [of pma i s])
  qed
qed

section \<open>Filling the stack from the memory map\<close>

definition pages_between :: "nat \<Rightarrow> nat \<Rightarrow> nat" where
  "pages_between a b = (b - a + 0xFFF) div 0x1000"

definition pages_from :: "u32 \<Rightarrow> nat \<Rightarrow> u32 list" where
  "pages_from a n = map (\<lambda>k. a + of_nat k * PMM_PAGE_SIZE) [0..<n]"

lemma pages_from_0 [simp]: "pages_from a 0 = []"
  by (simp add: pages_from_def)

lemma pages_from_Suc: "pages_from a (Suc n) = a # pages_from (a + PMM_PAGE_SIZE) n"
  by (simp add: pages_from_def upt_conv_Cons map_Suc_upt [symmetric] algebra_simps del: upt_Suc)

lemma pages_between_ge [simp]: "b \<le> a \<Longrightarrow> pages_between a b = 0"
  by (simp add: pages_between_def)

lemma pages_between_less: "a < b \<Longrightarrow> pages_between a b = Suc (pages_between (a + 0x1000) b)"
  unfolding pages_between_def by (cases "a + 0x1000 \<le> b") (auto simp: le_div_geq div_if)

definition area_pages :: "u32 \<Rightarrow> u32 \<Rightarrow> nat" where
  "area_pages a len = pages_between (unat a) (min (unat len) (unat PMM_MAX_SIZE + 1))"

lemma unat_add_page: "a \<le> PMM_MAX_SIZE \<Longrightarrow> unat (a + PMM_PAGE_SIZE) = unat a + 0x1000"
  by (simp add: PMM_MAX_SIZE_def PMM_PAGE_SIZE_def word_le_nat_alt unat_word_ariths)

lemma init_pmm_pages_ok:
  assumes "pmm_wf s" and "pmm_depth s + area_pages a len \<le> pmm_stack_len"
  shows "\<exists>s'. init_pmm_pages a len s = Inr s' \<and> pmm_wf s'
    \<and> pmm_pages s' = rev (pages_from a (area_pages a len)) @ pmm_pages s
    \<and> phy_page_count s' = phy_page_count s + of_nat (area_pages a len)"
  using assms
proof (induction a len s rule: init_pmm_pages.induct)
  case (1 a len s)
  show ?case
  proof (cases "a < len \<and> a \<le> PMM_MAX_SIZE")
    case True
    then have "unat a < min (unat len) (unat PMM_MAX_SIZE + 1)"
      by (simp add: word_less_nat_alt word_le_nat_alt)
    then have area: "area_pages a len = Suc (area_pages (a + PMM_PAGE_SIZE) len)"
      using True by (simp add: area_pages_def pages_between_less unat_add_page)
    with "1.prems" obtain t where t: "pmm_free_page a s = Inr t" "pmm_wf t"
      "pmm_pages t = a # pmm_pages s" "phy_page_count t = phy_page_count s"
      using pmm_free_page_ok [of s a] by auto
    let ?t = "t\<lparr>phy_page_count := phy_page_count t + 1\<rparr>"
    have t': "pmm_wf ?t" "pmm_pages ?t = pmm_pages t" "pmm_depth ?t = Suc (pmm_depth s)"
      using t(2) arg_cong [OF t(3), of length] by (simp_all add: pmm_wf_def pmm_pages_def pmm_depth_def)
    obtain s' where "init_pmm_pages (a + PMM_PAGE_SIZE) len ?t = Inr s'" "pmm_wf s'"
      "pmm_pages s' = rev (pages_from (a + PMM_PAGE_SIZE) (area_pages (a + PMM_PAGE_SIZE) len)) @ pmm_pages t"
      "phy_page_count s' = phy_page_count ?t + of_nat (area_pages (a + PMM_PAGE_SIZE) len)"
      using "1.IH" [OF True t(1) t'(1)] "1.prems"(2) area t'(2,3) by auto
    then show ?thesis using True t area
      by (simp add: init_pmm_pages.simps [of a len s] pages_from_Suc)
  next
    case False
    then have "area_pages a len = 0"
      by (auto simp: area_pages_def word_less_nat_alt word_le_nat_alt)
    with False "1.prems" show ?thesis by (auto simp: init_pmm_pages.simps [of a len s])
  qed
qed

lemma pages_between_le: "b \<le> a + 0x1000 * n \<Longrightarrow> pages_between a b \<le> n"
proof -
  assume "b \<le> a + 0x1000 * n"
  then have "b - a + 0xFFF < Suc n * 0x1000" by simp
  then show ?thesis unfolding pages_between_def using less_mult_imp_div_less less_Suc_eq_le by blast
qed

lemma area_pages_le: "area_pages a len \<le> pmm_stack_len"
  unfolding area_pages_def
  by (rule pages_between_le) (simp add: pmm_stack_len_eq PMM_MAX_SIZE_def)

lemma pages_between_less_bound: "k < pages_between a b \<Longrightarrow> a + 0x1000 * k < b"
  unfolding pages_between_def by (simp add: less_eq_div_iff_mult_less_eq Suc_le_eq [symmetric])

lemma unat_area_page:
  assumes "k < area_pages a len"
  shows "unat (a + of_nat k * PMM_PAGE_SIZE) = unat a + 0x1000 * k"
    and "a + of_nat k * PMM_PAGE_SIZE < len"
    and "a + of_nat k * PMM_PAGE_SIZE \<le> PMM_MAX_SIZE"
proof -
  from assms have "unat a + 0x1000 * k < min (unat len) (unat PMM_MAX_SIZE + 1)"
    unfolding area_pages_def by (rule pages_between_less_bound)
  then have bound: "unat a + 0x1000 * k < unat len" "unat a + 0x1000 * k \<le> 0x20000000"
    by (simp_all add: PMM_MAX_SIZE_def)
  then have "k < 2 ^ 32" by simp
  then have "unat (of_nat k * PMM_PAGE_SIZE) = 0x1000 * k"
    using bound by (simp add: PMM_PAGE_SIZE_def unat_word_ariths unat_of_nat)
  then show eq: "unat (a + of_nat k * PMM_PAGE_SIZE) = unat a + 0x1000 * k"
    using bound by (simp add: unat_word_ariths)
  show "a + of_nat k * PMM_PAGE_SIZE < len" "a + of_nat k * PMM_PAGE_SIZE \<le> PMM_MAX_SIZE"
    using bound eq by (simp_all add: word_less_nat_alt word_le_nat_alt PMM_MAX_SIZE_def)
qed

lemma distinct_pages_from_area: "distinct (pages_from a (area_pages a len))"
proof -
  have "inj_on (\<lambda>k. a + of_nat k * PMM_PAGE_SIZE) {0..<area_pages a len}"
    by (rule inj_onI) (metis (no_types, lifting) unat_area_page(1) atLeastLessThan_iff
        add_left_cancel mult_cancel1 zero_neq_numeral)
  then show ?thesis by (simp add: pages_from_def distinct_map)
qed

definition usable :: "mmap_entry_t \<Rightarrow> bool" where
  "usable e \<longleftrightarrow> mm_type e = 1 \<and> base_addr_low e = 0x100000"

lemma init_pmm_entries_filter:
  "init_pmm_entries kern_size es s = init_pmm_entries kern_size (filter usable es) s"
proof (induction es arbitrary: s)
  case (Cons e es)
  then have "init_pmm_entries kern_size es = init_pmm_entries kern_size (filter usable es)" by blast
  then show ?case by (cases "usable e") (auto simp: usable_def [of e])
qed simp

section \<open>The interface to the clients of the page manager\<close>

text \<open>
  What the virtual memory manager relies on: a page that is handed out was free and is free no
  longer, and as long as more than one page is free a request succeeds.
\<close>

locale page_source =
  fixes alloc :: "'s \<Rightarrow> (u32 \<times> 's) result"
    and pages :: "'s \<Rightarrow> u32 list"
    and invar :: "'s \<Rightarrow> bool"
  assumes alloc_takes: "invar s \<Longrightarrow> alloc s = Inr (p, s') \<Longrightarrow> invar s' \<and> pages s = p # pages s'"
    and alloc_succeeds: "invar s \<Longrightarrow> 2 \<le> length (pages s) \<Longrightarrow> \<exists>p s'. alloc s = Inr (p, s')"

locale page_pool = page_source +
  fixes free :: "u32 \<Rightarrow> 's \<Rightarrow> 's result"
    and capacity :: nat
  assumes free_returns: "invar s \<Longrightarrow> length (pages s) < capacity \<Longrightarrow>
    \<exists>s'. free p s = Inr s' \<and> invar s' \<and> pages s' = p # pages s"

fun take_pages :: "('s \<Rightarrow> (u32 \<times> 's) result) \<Rightarrow> nat \<Rightarrow> 's \<Rightarrow> (u32 list \<times> 's) result" where
  "take_pages alloc 0 s = Inr ([], s)"
| "take_pages alloc (Suc n) s =
     rbind (alloc s) (\<lambda>(p, s'). rbind (take_pages alloc n s') (\<lambda>(ps, t). Inr (p # ps, t)))"

context page_source begin

lemma alloc_removes: "invar s \<Longrightarrow> distinct (pages s) \<Longrightarrow> alloc s = Inr (p, s') \<Longrightarrow>
    p \<in> set (pages s) \<and> p \<notin> set (pages s') \<and> distinct (pages s')"
  using alloc_takes by fastforce

lemma take_pages_prefix:
  "invar s \<Longrightarrow> n < length (pages s) \<Longrightarrow>
    \<exists>s'. take_pages alloc n s = Inr (take n (pages s), s') \<and> invar s' \<and> pages s' = drop n (pages s)"
proof (induction n arbitrary: s)
  case (Suc n)
  then obtain p s' where a: "alloc s = Inr (p, s')" using alloc_succeeds [of s] by auto
  with Suc.prems have s': "invar s'" "pages s = p # pages s'" using alloc_takes by blast+
  with Suc obtain t where "take_pages alloc n s' = Inr (take n (pages s'), t)" "invar t"
    "pages t = drop n (pages s')" by fastforce
  with a s' show ?case by simp
qed simp

end

context page_pool begin

lemma free_then_alloc:
  assumes "invar s" and "pages s \<noteq> []" and "length (pages s) < capacity"
  shows "\<exists>s1 s2. free p s = Inr s1 \<and> alloc s1 = Inr (p, s2) \<and> invar s2 \<and> pages s2 = pages s"
proof -
  obtain s1 where s1: "free p s = Inr s1" "invar s1" "pages s1 = p # pages s"
    using free_returns assms by blast
  moreover obtain q s2 where "alloc s1 = Inr (q, s2)"
    using alloc_succeeds [of s1] s1 assms(2) by (cases "pages s") auto
  ultimately show ?thesis using alloc_takes [of s1 q s2] by auto
qed

end

lemma pmm_alloc_page_takes:
  assumes "pmm_wf s" and "pmm_alloc_page s = Inr (p, s')"
  shows "pmm_wf s' \<and> pmm_pages s = p # pmm_pages s'"
proof -
  have "2 \<le> pmm_depth s"
  proof (rule ccontr)
    assume "\<not> 2 \<le> pmm_depth s"
    then consider "pmm_depth s = 0" | "pmm_depth s = 1" by linarith
    then show False using assms(2) pmm_alloc_page_last pmm_alloc_page_empty by cases auto
  qed
  then show ?thesis using pmm_alloc_page_ok [of s] assms by auto
qed

interpretation pmm_pool: page_pool pmm_alloc_page pmm_pages pmm_wf pmm_free_page pmm_stack_len
  by unfold_locales (use pmm_alloc_page_takes pmm_alloc_page_ok pmm_free_page_ok in \<open>fastforce+\<close>)

section \<open>Properties\<close>

text \<open>C4. Successive requests never hand out a page twice: with \<open>n\<close> smaller than the number of
  free pages, \<open>n\<close> calls of \<open>pmm_alloc_page\<close> all succeed, return \<open>n\<close> distinct pages that were
  free, and none of them is free afterwards.\<close>

theorem pmm_alloc_page_distinct:
  assumes "pmm_wf s" and "distinct (pmm_pages s)" and "n < length (pmm_pages s)"
  shows "\<exists>ps s'. take_pages pmm_alloc_page n s = Inr (ps, s') \<and> length ps = n \<and> distinct ps
    \<and> set ps \<subseteq> set (pmm_pages s) \<and> set ps \<inter> set (pmm_pages s') = {}
    \<and> pmm_wf s' \<and> distinct (pmm_pages s')"
proof -
  obtain s' where "take_pages pmm_alloc_page n s = Inr (take n (pmm_pages s), s')" "pmm_wf s'"
    "pmm_pages s' = drop n (pmm_pages s)"
    using pmm_pool.take_pages_prefix assms by blast
  moreover have "set (take n (pmm_pages s)) \<inter> set (drop n (pmm_pages s)) = {}"
    using assms(2) by (rule set_take_disj_set_drop_if_distinct) simp
  ultimately show ?thesis using assms by (auto dest: in_set_takeD)
qed

definition example_pmm :: pmm where
  "example_pmm = \<lparr>pmm_stack = (\<lambda>i. of_nat i * 0x1000), pmm_stack_top = 3, phy_page_count = 4\<rparr>"

lemma example_pmm_facts:
  "pmm_wf example_pmm" "pmm_depth example_pmm = 4"
  "pmm_pages example_pmm = [0x3000, 0x2000, 0x1000, 0]"
  by (simp_all add: example_pmm_def pmm_wf_def pmm_depth_def pmm_stack_len_eq pmm_pages_def
      upt_conv_Cons)

theorem pmm_alloc_page_distinct_witness:
  "\<exists>ps s'. take_pages pmm_alloc_page 3 example_pmm = Inr (ps, s') \<and> length ps = 3 \<and> distinct ps
    \<and> set ps \<subseteq> set (pmm_pages example_pmm) \<and> set ps \<inter> set (pmm_pages s') = {}
    \<and> pmm_wf s' \<and> distinct (pmm_pages s')"
  by (rule pmm_alloc_page_distinct) (simp_all add: example_pmm_facts)

lemma init_pmm_area:
  assumes "filter usable (map mmap [0..<unat mmap_length]) = [e]"
    and "a = 0x100000 + kern_size" and "n = area_pages a (0x100000 + length_low e)"
  shows "\<exists>s'. init_pmm kern_size mmap mmap_length s = Inr s' \<and> pmm_wf s'
    \<and> pmm_pages s' = rev (pages_from a n) \<and> distinct (pmm_pages s')
    \<and> phy_page_count s' = of_nat n
    \<and> (\<forall>p\<in>set (pmm_pages s'). a \<le> p \<and> p < 0x100000 + length_low e \<and> p \<le> PMM_MAX_SIZE)"
proof -
  let ?s = "s\<lparr>pmm_stack_top := - 1, phy_page_count := 0\<rparr>"
  have s: "pmm_wf ?s" "pmm_depth ?s = 0" "pmm_pages ?s = []"
    by (simp_all add: pmm_wf_def pmm_depth_def pmm_pages_def)
  have "e \<in> set (filter usable (map mmap [0..<unat mmap_length]))" unfolding assms(1) by simp
  then have e: "base_addr_low e = 0x100000" "mm_type e = 1" by (simp_all add: usable_def)
  obtain s' where s': "init_pmm_pages a (0x100000 + length_low e) ?s = Inr s'" "pmm_wf s'"
    "pmm_pages s' = rev (pages_from a n)" "phy_page_count s' = of_nat n"
    using init_pmm_pages_ok [of ?s a "0x100000 + length_low e"] s area_pages_le assms(3) by auto
  moreover have "init_pmm kern_size mmap mmap_length s = Inr s'"
    unfolding init_pmm_def using s'(1) e assms
    by (subst init_pmm_entries_filter) simp
  moreover have "a \<le> p \<and> p < 0x100000 + length_low e \<and> p \<le> PMM_MAX_SIZE"
    if "p \<in> set (pages_from a n)" for p
    using that unat_area_page [of _ a "0x100000 + length_low e"] assms(3)
    by (auto simp: pages_from_def word_le_nat_alt)
  ultimately show ?thesis using distinct_pages_from_area assms(3) by auto
qed

text \<open>When one entry of the memory map describes usable memory from 1 MB on, \<open>init_pmm\<close>
  succeeds (the stack never overflows) and the free pages are exactly the addresses from the end
  of the kernel image up to the end of the area or 512 MB, one page apart, each once; the page
  count is their number.\<close>

lemma init_pmm_single_area:
  assumes "filter usable (map mmap [0..<unat mmap_length]) = [e]"
    and "a = 0x100000 + kern_size" and "n = area_pages a (0x100000 + length_low e)"
  shows "\<exists>s'. init_pmm kern_size mmap mmap_length s = Inr s' \<and> pmm_wf s'
    \<and> pmm_pages s' = rev (pages_from a n) \<and> distinct (pmm_pages s')
    \<and> phy_page_count s' = of_nat n
    \<and> (\<forall>p\<in>set (pmm_pages s'). a \<le> p \<and> p < 0x100000 + length_low e \<and> p \<le> PMM_MAX_SIZE)"
  by (rule init_pmm_area [OF assms])

definition example_mmap :: "nat \<Rightarrow> mmap_entry_t" where
  "example_mmap i = (if i = 1
     then \<lparr>mm_size = 20, base_addr_low = 0x100000, base_addr_high = 0,
           length_low = 0x3000, length_high = 0, mm_type = 1\<rparr>
     else \<lparr>mm_size = 20, base_addr_low = 0, base_addr_high = 0,
           length_low = 0x9F000, length_high = 0, mm_type = 1\<rparr>)"

lemma init_pmm_single_area_witness:
  "\<exists>s'. init_pmm 0x1000 example_mmap 3 example_pmm = Inr s' \<and> pmm_wf s'
    \<and> pmm_pages s' = rev (pages_from 0x101000 2) \<and> distinct (pmm_pages s')
    \<and> phy_page_count s' = of_nat 2
    \<and> (\<forall>p\<in>set (pmm_pages s'). 0x101000 \<le> p
         \<and> p < 0x100000 + length_low (example_mmap 1) \<and> p \<le> PMM_MAX_SIZE)"
  by (rule init_pmm_single_area)
    (simp_all add: example_mmap_def usable_def upt_conv_Cons area_pages_def pages_between_def
      PMM_MAX_SIZE_def)

text \<open>Requesting a given page: with at least one free page, \<open>pmm_alloc_page (pma)\<close> takes
  exactly that page out of the free pages (one occurrence) when it is free, and returns 0 and
  changes nothing when it is not.\<close>

lemma pmm_alloc_page_at_takes:
  assumes "pmm_wf s" and "pmm_pages s \<noteq> []"
  shows "if pma \<in> set (pmm_pages s)
    then \<exists>s'. pmm_alloc_page_at pma s = Inr (pma, s') \<and> pmm_wf s'
      \<and> mset (pmm_pages s) = add_mset pma (mset (pmm_pages s'))
    else pmm_alloc_page_at pma s = Inr (0, s)"
proof -
  from assms(2) have "pmm_depth s \<noteq> 0" by (auto simp: pmm_pages_def)
  with pmm_alloc_page_loop_spec [of s 0 pma] assms(1) show ?thesis
    by (auto simp: pmm_alloc_page_at_def split: sum.splits prod.splits if_splits)
qed

lemma pmm_alloc_page_at_takes_witness:
  "if 0x2000 \<in> set (pmm_pages example_pmm)
    then \<exists>s'. pmm_alloc_page_at 0x2000 example_pmm = Inr (0x2000, s') \<and> pmm_wf s'
      \<and> mset (pmm_pages example_pmm) = add_mset 0x2000 (mset (pmm_pages s'))
    else pmm_alloc_page_at 0x2000 example_pmm = Inr (0, example_pmm)"
  by (rule pmm_alloc_page_at_takes) (simp_all add: example_pmm_facts)

text \<open>C37. The guard of \<open>pmm_alloc_page\<close> compares the index of the top with 0: with one free page
  the request stops the kernel with "out of memory", and with none it passes the guard and reads
  the array outside its bounds.\<close>

theorem pmm_alloc_page_exhausted:
  "(length (pmm_pages s) = 1 \<longrightarrow> pmm_alloc_page s = Inl (AssertFail ''out of memory''))
   \<and> (pmm_pages s = [] \<longrightarrow> pmm_alloc_page s = Inl OutOfBounds)"
proof -
  have "pmm_pages s = [] \<longleftrightarrow> pmm_depth s = 0" by (auto simp: pmm_pages_def)
  then show ?thesis by (simp add: pmm_alloc_page_last pmm_alloc_page_empty)
qed

theorem pmm_alloc_page_exhausted_witness:
  "pmm_alloc_page (example_pmm\<lparr>pmm_stack_top := 0\<rparr>) = Inl (AssertFail ''out of memory'')
   \<and> pmm_alloc_page (example_pmm\<lparr>pmm_stack_top := - 1\<rparr>) = Inl OutOfBounds"
  using pmm_alloc_page_exhausted [of "example_pmm\<lparr>pmm_stack_top := 0\<rparr>"]
    pmm_alloc_page_exhausted [of "example_pmm\<lparr>pmm_stack_top := - 1\<rparr>"]
  by (simp add: pmm_depth_def pmm_pages_def)

text \<open>\<open>mmap_length\<close> is the size of the memory map in bytes, but \<open>init_pmm\<close> visits that many
  entries: with a map of one entry (24 bytes) it also reads the 23 entries behind it, and when
  one of them repeats the usable area every page of the area is free twice.\<close>

lemma init_pmm_reads_past_map:
  assumes "usable (mmap 0)" and "mmap 1 = mmap 0" and "\<forall>i. 1 < i \<longrightarrow> \<not> usable (mmap i)"
    and "a = 0x100000 + kern_size" and "n = area_pages a (0x100000 + length_low (mmap 0))"
    and "2 * n \<le> pmm_stack_len"
  shows "\<exists>s'. init_pmm kern_size mmap 24 s = Inr s'
    \<and> mset (pmm_pages s') = mset (pages_from a n) + mset (pages_from a n)"
proof -
  let ?s = "s\<lparr>pmm_stack_top := - 1, phy_page_count := 0\<rparr>" and ?l = "0x100000 + length_low (mmap 0)"
  have "[0..<24] = 0 # 1 # [2..<24]" by (simp add: upt_conv_Cons)
  moreover have "filter usable (map mmap [2..<24]) = []" using assms(3) by (auto simp: filter_empty_conv)
  ultimately have es: "filter usable (map mmap [0..<24]) = [mmap 0, mmap 0]"
    using assms(1,2) by (simp del: upt_rec_numeral)
  have s: "pmm_wf ?s" "pmm_depth ?s = 0" "pmm_pages ?s = []"
    by (simp_all add: pmm_wf_def pmm_depth_def pmm_pages_def)
  obtain t where t: "init_pmm_pages a ?l ?s = Inr t" "pmm_wf t" "pmm_pages t = rev (pages_from a n)"
    using init_pmm_pages_ok [of ?s a ?l] s assms(5,6) by auto
  have "pmm_depth t = n" using arg_cong [OF t(3), of length] by (simp add: pages_from_def)
  then obtain s' where "init_pmm_pages a ?l t = Inr s'" "pmm_pages s' = rev (pages_from a n) @ pmm_pages t"
    using init_pmm_pages_ok [of t a ?l] t assms(5,6) by auto
  with t show ?thesis unfolding init_pmm_def using assms(1,4) es
    by (subst init_pmm_entries_filter) (simp add: usable_def)
qed

lemma init_pmm_reads_past_map_witness:
  "\<exists>s'. init_pmm 0x1000 (\<lambda>i. if i \<le> 1 then example_mmap 1 else example_mmap 0) 24 example_pmm = Inr s'
    \<and> mset (pmm_pages s') = mset (pages_from 0x101000 2) + mset (pages_from 0x101000 2)"
  by (rule init_pmm_reads_past_map)
    (simp_all add: example_mmap_def usable_def area_pages_def pages_between_def
      PMM_MAX_SIZE_def pmm_stack_len_eq)

end
