(* ===== verification/Sprite_Descriptors.thy ===== *)
theory Sprite_Descriptors
  imports Sprite_Prelude
begin

text \<open>
  The descriptor tables of the processor: the global descriptor table of \<open>lib/gdt.cc\<close> and the
  interrupt descriptor table of \<open>lib/idt.cc\<close> with the table of registered handlers. The
  addresses of the assembly stubs \<open>isr0\<close> to \<open>isr31\<close> and \<open>irq0\<close> to \<open>irq15\<close> and of the tables
  themselves are parameters, fixed by the linker. Writes to ports are recorded in order.
\<close>

section \<open>The global descriptor table\<close>

record gdt_entry_t =
  limit_low :: u16
  base_low :: u16
  base_middle :: u8
  access :: u8
  granularity :: u8
  base_high :: u8

record gdt_ptr_t =
  gdt_limit :: u16
  gdt_base :: u32

definition GDT_LENGTH :: nat where
  "GDT_LENGTH = 5"

definition gdt_set_gate ::
  "nat \<Rightarrow> u32 \<Rightarrow> u32 \<Rightarrow> u8 \<Rightarrow> u8 \<Rightarrow> (nat \<Rightarrow> gdt_entry_t) \<Rightarrow> (nat \<Rightarrow> gdt_entry_t) result" where
  "gdt_set_gate num base limit acc gran entries =
     arr_set GDT_LENGTH entries num
       \<lparr>limit_low = ucast (limit AND 0xFFFF),
        base_low = ucast (base AND 0xFFFF),
        base_middle = ucast (drop_bit 16 base AND 0xFF),
        access = acc,
        granularity = ucast (drop_bit 16 limit AND 0x0F) OR (gran AND 0xF0),
        base_high = ucast (drop_bit 24 base AND 0xFF)\<rparr>"

text \<open>\<open>gdt_flush\<close> loads the pointer that \<open>init_gdt\<close> has filled; the model returns it.\<close>

definition init_gdt ::
  "u32 \<Rightarrow> (nat \<Rightarrow> gdt_entry_t) \<Rightarrow> ((nat \<Rightarrow> gdt_entry_t) \<times> gdt_ptr_t) result" where
  "init_gdt entries_addr entries =
     rbind (gdt_set_gate 0 0 0 0 0 entries) (\<lambda>e0.
     rbind (gdt_set_gate 1 0 0xFFFFFFFF 0x9A 0xCF e0) (\<lambda>e1.
     rbind (gdt_set_gate 2 0 0xFFFFFFFF 0x92 0xCF e1) (\<lambda>e2.
     rbind (gdt_set_gate 3 0 0xFFFFFFFF 0xFA 0xCF e2) (\<lambda>e3.
     rbind (gdt_set_gate 4 0 0xFFFFFFFF 0xF2 0xCF e3) (\<lambda>e4.
     Inr (e4, \<lparr>gdt_limit = 8 * of_nat GDT_LENGTH - 1, gdt_base = entries_addr\<rparr>))))))"

text \<open>How the processor reads a descriptor (Intel manual, segment descriptors).\<close>

definition desc_base :: "gdt_entry_t \<Rightarrow> u32" where
  "desc_base e = ucast (base_low e) OR push_bit 16 (ucast (base_middle e))
     OR push_bit 24 (ucast (base_high e))"

definition desc_limit :: "gdt_entry_t \<Rightarrow> u32" where
  "desc_limit e = ucast (limit_low e) OR push_bit 16 (ucast (granularity e AND 0x0F))"

definition desc_flags :: "gdt_entry_t \<Rightarrow> u8" where
  "desc_flags e = granularity e AND 0xF0"

lemma masks:
  "(0xFF :: u32) = mask 8" "(0xFFFF :: u32) = mask 16" "(0x0F :: u32) = mask 4"
  "(0xFFFFF :: u32) = mask 20" "(0x0F :: u8) = mask 4" "(0xF0 :: u8) = NOT (mask 4)"
  by (simp_all add: mask_eq_exp_minus_1)

lemma split_word32:
  "(ucast (ucast (x AND 0xFFFF) :: u16) OR push_bit 16 (ucast (ucast (drop_bit 16 x AND 0xFF) :: u8))
     OR push_bit 24 (ucast (ucast (drop_bit 24 x AND 0xFF) :: u8)) :: u32) = x"
proof (rule bit_eqI)
  fix n
  show "bit (ucast (ucast (x AND 0xFFFF) :: u16) OR push_bit 16 (ucast (ucast (drop_bit 16 x AND 0xFF) :: u8))
     OR push_bit 24 (ucast (ucast (drop_bit 24 x AND 0xFF) :: u8)) :: u32) n = bit x n"
    unfolding masks by (cases "n < 24") (auto simp: bit_simps dest: bit_imp_le_length)
qed

lemma split_limit:
  "(ucast (ucast (x AND 0xFFFF) :: u16)
     OR push_bit 16 (ucast ((ucast (drop_bit 16 x AND 0x0F) OR (g AND 0xF0)) AND 0x0F :: u8)) :: u32)
   = x AND 0xFFFFF"
  unfolding masks by (rule bit_eqI) (auto simp: bit_simps)

lemma split_flags: "(ucast (drop_bit 16 (x :: u32) AND 0x0F) OR (g AND 0xF0)) AND 0xF0 = g AND (0xF0 :: u8)"
  unfolding masks by (rule bit_eqI) (auto simp: bit_simps)

lemma gdt_set_gate_decodes:
  assumes "num < GDT_LENGTH"
  shows "\<exists>entries'. gdt_set_gate num base limit acc gran entries = Inr entries'
    \<and> desc_base (entries' num) = base \<and> desc_limit (entries' num) = limit AND 0xFFFFF
    \<and> desc_flags (entries' num) = gran AND 0xF0 \<and> access (entries' num) = acc
    \<and> (\<forall>i. i \<noteq> num \<longrightarrow> entries' i = entries i)"
  using assms
  by (simp add: gdt_set_gate_def desc_base_def desc_limit_def desc_flags_def
      split_word32 split_limit split_flags)

section \<open>The interrupt descriptor table\<close>

record idt_entry_t =
  base_lo :: u16
  sel :: u16
  always0 :: u8
  idt_flags :: u8
  base_hi :: u16

record idt_ptr_t =
  idt_limit :: u16
  idt_base :: u32

record pt_regs =
  ds :: u32
  edi :: u32
  esi :: u32
  ebp :: u32
  esp :: u32
  ebx :: u32
  edx :: u32
  ecx :: u32
  eax :: u32
  int_no :: u32
  err_code :: u32
  eip :: u32
  cs :: u32
  eflags :: u32
  useresp :: u32
  ss :: u32

text \<open>
  A handler is a function pointer; the kernel registers three functions, which the model names.
\<close>

datatype handler = page_fault_handler | timer_callback | keyboard_isr

record idt =
  idt_entries :: "nat \<Rightarrow> idt_entry_t"
  idt_ptr :: idt_ptr_t
  interrupt_handlers :: "nat \<Rightarrow> handler option"

definition INTERRUPT_NUM :: nat where
  "INTERRUPT_NUM = 256"

text \<open>The index is a \<open>uint8_t\<close>, so it is below \<open>INTERRUPT_NUM\<close>.\<close>

definition register_isr :: "u8 \<Rightarrow> handler \<Rightarrow> idt \<Rightarrow> idt" where
  "register_isr isr_num h t =
     t\<lparr>interrupt_handlers := (interrupt_handlers t)(unat isr_num := Some h)\<rparr>"

definition idt_set_gate :: "u8 \<Rightarrow> u32 \<Rightarrow> u16 \<Rightarrow> u8 \<Rightarrow> idt \<Rightarrow> idt" where
  "idt_set_gate num base selector flgs t =
     t\<lparr>idt_entries := (idt_entries t)(unat num :=
       \<lparr>base_lo = ucast (base AND 0xFFFF), sel = selector, always0 = 0, idt_flags = flgs,
        base_hi = ucast (drop_bit 16 base AND 0xFFFF)\<rparr>)\<rparr>"

definition zero_gate :: idt_entry_t where
  "zero_gate = \<lparr>base_lo = 0, sel = 0, always0 = 0, idt_flags = 0, base_hi = 0\<rparr>"

text \<open>The programming of the two interrupt controllers, in order.\<close>

definition init_pic :: "port_write list" where
  "init_pic =
     [(0x20, 0x11), (0xA0, 0x11), (0x21, 0x20), (0xA1, 0x28), (0x21, 0x04), (0xA1, 0x02),
      (0x21, 0x01), (0xA1, 0x01), (0x21, 0x0), (0xA1, 0x0)]"

text \<open>
  \<open>stub i\<close> is the address of \<open>isr\<close>\<open>i\<close> for \<open>i < 32\<close> and of \<open>irq\<close>\<open>(i - 32)\<close> for
  \<open>32 \<le> i < 48\<close>: the 48 calls of \<open>idt_set_gate\<close> differ in nothing else. \<open>idt_flush\<close> loads the
  pointer and enables interrupts.
\<close>

definition init_idt :: "(nat \<Rightarrow> u32) \<Rightarrow> u32 \<Rightarrow> idt \<Rightarrow> idt \<times> port_write list" where
  "init_idt stub entries_addr t =
     (let t1 = t\<lparr>interrupt_handlers := (\<lambda>_. None),
                idt_ptr := \<lparr>idt_limit = 8 * of_nat INTERRUPT_NUM - 1, idt_base = entries_addr\<rparr>,
                idt_entries := (\<lambda>_. zero_gate)\<rparr>
      in (fold (\<lambda>i. idt_set_gate (of_nat i) (stub i) 0x08 0x8E) [0..<48] t1, init_pic))"

text \<open>How the processor reads a gate.\<close>

definition gate_base :: "idt_entry_t \<Rightarrow> u32" where
  "gate_base e = ucast (base_lo e) OR push_bit 16 (ucast (base_hi e))"

definition gate_present :: "idt_entry_t \<Rightarrow> bool" where
  "gate_present e \<longleftrightarrow> bit (idt_flags e) 7"

lemma split_gate:
  "(ucast (ucast (x AND 0xFFFF) :: u16)
     OR push_bit 16 (ucast (ucast (drop_bit 16 x AND 0xFFFF) :: u16)) :: u32) = x"
  unfolding masks by (rule bit_eqI) (auto simp: bit_simps dest: bit_imp_le_length)

lemma idt_set_gates_frame:
  "interrupt_handlers (fold (\<lambda>i. idt_set_gate (of_nat i) (stub i) sl fl) is t) = interrupt_handlers t"
  "idt_ptr (fold (\<lambda>i. idt_set_gate (of_nat i) (stub i) sl fl) is t) = idt_ptr t"
  by (induction "is" arbitrary: t) (simp_all add: idt_set_gate_def)

lemma idt_set_gates_entries:
  assumes "distinct is" and "\<forall>i\<in>set is. i < 256"
  shows "idt_entries (fold (\<lambda>i. idt_set_gate (of_nat i) (stub i) sl fl) is t) n =
    (if n \<in> set is
     then \<lparr>base_lo = ucast (stub n AND 0xFFFF), sel = sl, always0 = 0, idt_flags = fl,
           base_hi = ucast (drop_bit 16 (stub n) AND 0xFFFF)\<rparr>
     else idt_entries t n)"
  using assms by (induction "is" arbitrary: t) (auto simp: idt_set_gate_def unat_of_nat)

section \<open>Properties\<close>

text \<open>\<open>init_gdt\<close> builds the flat model: descriptor 0 is all zero, descriptors 1 to 4 cover
  base 0 and the maximal limit in 4 KB units with the access bytes of kernel code, kernel data,
  user code and user data, and the loaded limit is the size of the table less one.\<close>

lemma init_gdt_flat:
  "\<exists>e p. init_gdt addr entries = Inr (e, p) \<and> gdt_base p = addr \<and> unat (gdt_limit p) + 1 = 8 * GDT_LENGTH
    \<and> e 0 = \<lparr>limit_low = 0, base_low = 0, base_middle = 0, access = 0, granularity = 0, base_high = 0\<rparr>
    \<and> map (\<lambda>i. (desc_base (e i), desc_limit (e i), desc_flags (e i))) [1, 2, 3, 4]
      = [(0, 0xFFFFF, 0xC0), (0, 0xFFFFF, 0xC0), (0, 0xFFFFF, 0xC0), (0, 0xFFFFF, 0xC0)]
    \<and> map (\<lambda>i. access (e i)) [1, 2, 3, 4] = [0x9A, 0x92, 0xFA, 0xF2]"
  by (simp add: init_gdt_def gdt_set_gate_def GDT_LENGTH_def desc_base_def desc_limit_def
      desc_flags_def)

text \<open>After \<open>init_idt\<close> each of the vectors 0 to 47 has a present gate in segment 8 whose
  address is exactly that of its stub, every other vector is not present, and no handler is
  registered; a later \<open>register_isr\<close> installs one handler and leaves the others.\<close>

lemma init_idt_gates:
  "let t' = fst (init_idt stub addr t) in
     (\<forall>n<256. if n < 48
        then gate_base (idt_entries t' n) = stub n \<and> sel (idt_entries t' n) = 8
          \<and> gate_present (idt_entries t' n)
        else \<not> gate_present (idt_entries t' n))
   \<and> (\<forall>n. interrupt_handlers t' n = None)
   \<and> idt_ptr t' = \<lparr>idt_limit = 2047, idt_base = addr\<rparr>
   \<and> (\<forall>k h n. interrupt_handlers (register_isr k h t') n = (if n = unat k then Some h else None))"
proof -
  have "\<forall>i\<in>set [0..<48]. i < (256 :: nat)" by simp
  from idt_set_gates_entries [OF distinct_upt this] show ?thesis
    by (simp add: init_idt_def Let_def idt_set_gates_frame gate_base_def gate_present_def
        split_gate zero_gate_def register_isr_def INTERRUPT_NUM_def del: upt_rec_numeral)
qed

text \<open>The gates of the first 48 vectors lead to their stubs.\<close>

definition gates_installed :: "(nat \<Rightarrow> u32) \<Rightarrow> idt \<Rightarrow> bool" where
  "gates_installed stub t \<longleftrightarrow> list_all (\<lambda>n. gate_present (idt_entries t n) \<and> gate_base (idt_entries t n) = stub n \<and> sel (idt_entries t n) = 8) [0..<48]"

lemma init_idt_installs: "gates_installed stub (fst (init_idt stub addr t))"
  using init_idt_gates [of stub addr t] by (simp add: gates_installed_def Let_def list_all_iff del: upt_rec_numeral)

lemma register_isr_gates [simp]: "gates_installed stub (register_isr k h t) = gates_installed stub t"
  by (simp add: gates_installed_def register_isr_def)

lemma gates_installedD:
  "gates_installed stub t \<Longrightarrow> n < 48 \<Longrightarrow> gate_present (idt_entries t n) \<and> gate_base (idt_entries t n) = stub n \<and> sel (idt_entries t n) = 8"
  by (simp add: gates_installed_def list_all_iff del: upt_rec_numeral)

definition example_idt :: idt where
  "example_idt = \<lparr>idt_entries = (\<lambda>_. zero_gate), idt_ptr = \<lparr>idt_limit = 0, idt_base = 0\<rparr>,
     interrupt_handlers = (\<lambda>_. None)\<rparr>"

lemma init_idt_gates_witness:
  "gate_base (idt_entries (fst (init_idt (\<lambda>i. 0xC0100000 + of_nat i * 16) 0xC0200000 example_idt)) 33)
     = 0xC0100210"
  using init_idt_gates [where stub = "\<lambda>i. 0xC0100000 + of_nat i * 16"
      and addr = "0xC0200000" and t = example_idt]
  by (auto simp: Let_def)

end
