(* ===== verification/Sprite_Vmm.thy ===== *)
theory Sprite_Vmm
  imports Sprite_Pmm Sprite_Descriptors
begin

text \<open>
  The virtual memory manager of \<open>include/vmm.h\<close> and \<open>lib/vmm.cc\<close>: page tables, the page
  dictionary with its reserve of page tables, the page fault handler and \<open>init_vmm\<close>. The
  virtual address of the global \<open>page_dictionary\<close>, fixed by the linker and aligned to a page, is
  the parameter \<open>base\<close> of the operations that turn a page table into an address and back.
\<close>

section \<open>Constants\<close>

definition PAGE_OFFSET :: u32 where
  "PAGE_OFFSET = 0xC0000000"

definition PMA :: "u32 \<Rightarrow> u32" where
  "PMA x = x - PAGE_OFFSET"

definition VMA :: "u32 \<Rightarrow> u32" where
  "VMA x = x + PAGE_OFFSET"

definition PAGE_PRESENT :: u32 where
  "PAGE_PRESENT = 1"

definition PAGE_WRITE :: u32 where
  "PAGE_WRITE = 2"

definition ENTRY_ADDR :: u32 where
  "ENTRY_ADDR = 0xFFFFF000"

definition TABLE_RESERVE :: nat where
  "TABLE_RESERVE = 128"

section \<open>Page tables\<close>

record page_table =
  pt_entries :: "nat \<Rightarrow> u32"

definition table_index :: "u32 \<Rightarrow> nat" where
  "table_index addr = unat (drop_bit 12 addr AND 0x3FF)"

definition page_offset :: "u32 \<Rightarrow> u32" where
  "page_offset addr = addr AND 0xFFF"

definition PageTable_at :: "page_table \<Rightarrow> u32 \<Rightarrow> u32" where
  "PageTable_at t vma =
     (let pte = pt_entries t (table_index vma) in
      if pte AND PAGE_PRESENT = 0 then 0 else (pte AND ENTRY_ADDR) OR page_offset vma)"

definition PageTable_index :: "page_table \<Rightarrow> u32 \<Rightarrow> pmm \<Rightarrow> (u32 \<times> page_table \<times> pmm) result" where
  "PageTable_index t vma m =
     rbind (if pt_entries t (table_index vma) AND PAGE_PRESENT = 0 then
              rbind (pmm_alloc_page m) (\<lambda>(p, m').
              Inr (t\<lparr>pt_entries := (pt_entries t)(table_index vma := p OR PAGE_PRESENT OR PAGE_WRITE)\<rparr>, m'))
            else Inr (t, m)) (\<lambda>(t', m').
     Inr ((pt_entries t' (table_index vma) AND ENTRY_ADDR) OR page_offset vma, t', m'))"

definition PageTable_insert :: "page_table \<Rightarrow> u32 \<Rightarrow> u32 \<Rightarrow> page_table" where
  "PageTable_insert t vma pma =
     t\<lparr>pt_entries := (pt_entries t)
        (table_index vma := (pma AND ENTRY_ADDR) OR PAGE_PRESENT OR PAGE_WRITE)\<rparr>"

section \<open>The page dictionary\<close>

record page_dictionary =
  pd_entries :: "nat \<Rightarrow> u32"
  reserve :: "nat \<Rightarrow> page_table"
  table_count :: u32

definition dict_index :: "u32 \<Rightarrow> nat" where
  "dict_index addr = unat (drop_bit 22 addr AND 0x3FF)"

text \<open>
  \<open>reserve\<close> follows the 1024 entries, so \<open>reserve[i]\<close> lies \<open>i + 1\<close> pages behind \<open>base\<close>;
  \<open>table_of\<close> is the table a pointer designates, if it points to the start of one of them.
\<close>

definition reserve_addr :: "u32 \<Rightarrow> nat \<Rightarrow> u32" where
  "reserve_addr base i = base + 0x1000 + of_nat i * 0x1000"

definition table_of :: "u32 \<Rightarrow> u32 \<Rightarrow> nat result" where
  "table_of base addr =
     (let off = addr - (base + 0x1000) in
      if off AND 0xFFF = 0 \<and> unat off div 0x1000 < TABLE_RESERVE
      then Inr (unat off div 0x1000) else Inl OutOfBounds)"

definition set_pde :: "u32 \<Rightarrow> u32" where
  "set_pde raw = PMA (raw AND ENTRY_ADDR) OR PAGE_PRESENT OR PAGE_WRITE"

definition real_page_table :: "u32 \<Rightarrow> u32" where
  "real_page_table pde = VMA (ENTRY_ADDR AND pde)"

definition alloc_table :: "u32 \<Rightarrow> page_dictionary \<Rightarrow> (u32 \<times> page_dictionary) result" where
  "alloc_table base d =
     rbind (assert_that (unat (table_count d) < TABLE_RESERVE) ''no page table available'') (\<lambda>_.
     Inr (reserve_addr base (unat (table_count d)), d\<lparr>table_count := table_count d + 1\<rparr>))"

text \<open>The common start of \<open>operator[]\<close> and \<open>insert\<close>: the page table of an address, allocated
  and entered into the dictionary when there is none.\<close>

definition retrieve_table :: "u32 \<Rightarrow> u32 \<Rightarrow> page_dictionary \<Rightarrow> (nat \<times> page_dictionary) result" where
  "retrieve_table base vma d =
     rbind (if pd_entries d (dict_index vma) AND PAGE_PRESENT = 0 then
              rbind (alloc_table base d) (\<lambda>(raw, d').
              Inr (d'\<lparr>pd_entries := (pd_entries d')(dict_index vma := set_pde raw)\<rparr>))
            else Inr d) (\<lambda>d'.
     rbind (table_of base (real_page_table (pd_entries d' (dict_index vma)))) (\<lambda>i. Inr (i, d')))"

definition PageDictionary_at :: "u32 \<Rightarrow> page_dictionary \<Rightarrow> u32 \<Rightarrow> u32 result" where
  "PageDictionary_at base d vma =
     (let pde = pd_entries d (dict_index vma) in
      if pde AND PAGE_PRESENT = 0 then Inr 0
      else rbind (table_of base (real_page_table pde)) (\<lambda>i. Inr (PageTable_at (reserve d i) vma)))"

definition PageDictionary_index ::
  "u32 \<Rightarrow> u32 \<Rightarrow> page_dictionary \<times> pmm \<Rightarrow> (u32 \<times> page_dictionary \<times> pmm) result" where
  "PageDictionary_index base vma s =
     rbind (retrieve_table base vma (fst s)) (\<lambda>(i, d).
     rbind (PageTable_index (reserve d i) vma (snd s)) (\<lambda>(pa, t, m).
     Inr (pa, d\<lparr>reserve := (reserve d)(i := t)\<rparr>, m)))"

definition PageDictionary_insert ::
  "u32 \<Rightarrow> u32 \<Rightarrow> u32 \<Rightarrow> page_dictionary \<Rightarrow> page_dictionary result" where
  "PageDictionary_insert base vma pma d =
     rbind (retrieve_table base vma d) (\<lambda>(i, d').
     Inr (d'\<lparr>reserve := (reserve d')(i := PageTable_insert (reserve d' i) vma pma)\<rparr>))"

text \<open>The value that \<open>register_dictionary\<close> loads into \<open>cr3\<close>.\<close>

definition register_dictionary :: "u32 \<Rightarrow> u32" where
  "register_dictionary base = PMA base"

section \<open>Page faults and initialisation\<close>

definition handle_page_fault ::
  "u32 \<Rightarrow> u32 \<Rightarrow> pt_regs \<Rightarrow> page_dictionary \<times> pmm \<Rightarrow> (page_dictionary \<times> pmm) result" where
  "handle_page_fault base cr2 regs s =
     (if err_code regs AND PAGE_PRESENT = 0
      then rbind (PageDictionary_index base cr2 s) (\<lambda>(_, s'). Inr s')
      else Inr s)"

fun init_vmm_map :: "u32 \<Rightarrow> nat list \<Rightarrow> page_dictionary \<Rightarrow> page_dictionary result" where
  "init_vmm_map base [] d = Inr d"
| "init_vmm_map base (i # is) d =
     rbind (PageDictionary_insert base (VMA (push_bit 12 (of_nat i))) (push_bit 12 (of_nat i)) d)
       (init_vmm_map base is)"

text \<open>The result: the dictionary, the table of handlers and the value of \<open>cr3\<close>.\<close>

definition init_vmm :: "u32 \<Rightarrow> page_dictionary \<Rightarrow> idt \<Rightarrow> (page_dictionary \<times> idt \<times> u32) result" where
  "init_vmm base d t =
     rbind (init_vmm_map base [0..<4 * 1024 div 4] d) (\<lambda>d'.
     Inr (d', register_isr 14 page_fault_handler t, register_dictionary base))"

section \<open>Pages and offsets\<close>

definition page_aligned :: "u32 \<Rightarrow> bool" where
  "page_aligned a \<longleftrightarrow> a AND 0xFFF = 0"

lemma vmm_masks:
  "(0xFFF :: u32) = mask 12" "(0x3FF :: u32) = mask 10" "ENTRY_ADDR = NOT (mask 12)"
  by (simp_all add: mask_eq_exp_minus_1 ENTRY_ADDR_def)

lemma page_aligned_iff: "page_aligned a \<longleftrightarrow> take_bit 12 a = 0"
  by (simp add: page_aligned_def vmm_masks take_bit_eq_mask)

lemma page_aligned_mult [simp]: "page_aligned (a * 0x1000)"
proof -
  have "a * 0x1000 = push_bit 12 a" by (simp add: push_bit_eq_mult)
  then show ?thesis by (simp add: page_aligned_iff take_bit_push_bit)
qed

lemma page_aligned_multE:
  assumes "page_aligned a"
  obtains k where "a = k * 0x1000"
proof -
  have "a = push_bit 12 (drop_bit 12 a)"
    using assms bits_ident [of 12 a] by (simp add: page_aligned_iff)
  then show ?thesis using that [of "drop_bit 12 a"] by (simp add: push_bit_eq_mult)
qed

lemma page_aligned_diff: "page_aligned a \<Longrightarrow> page_aligned b \<Longrightarrow> page_aligned (a - b)"
  by (metis page_aligned_multE page_aligned_mult left_diff_distrib)

lemma page_aligned_add: "page_aligned a \<Longrightarrow> page_aligned b \<Longrightarrow> page_aligned (a + b)"
  by (metis page_aligned_multE page_aligned_mult distrib_right)

lemma page_aligned_entry [simp]: "page_aligned (a AND ENTRY_ADDR)"
  unfolding page_aligned_def vmm_masks by (rule bit_eqI) (auto simp: bit_simps)

lemma page_aligned_bit: "page_aligned a \<Longrightarrow> bit a n \<Longrightarrow> 12 \<le> n"
  unfolding page_aligned_iff by (metis bit_take_bit_iff bit_0_eq bot_fun_def bot_bool_def not_le)

lemma aligned_and_entry [simp]: "page_aligned a \<Longrightarrow> a AND ENTRY_ADDR = a"
  unfolding vmm_masks by (rule bit_eqI) (auto simp: bit_simps dest: page_aligned_bit bit_imp_le_length)

lemma aligned_flags_and_entry:
  "page_aligned a \<Longrightarrow> ENTRY_ADDR AND (a OR PAGE_PRESENT OR PAGE_WRITE) = a"
  "page_aligned a \<Longrightarrow> (a OR PAGE_PRESENT OR PAGE_WRITE) AND ENTRY_ADDR = a"
proof -
  have "PAGE_PRESENT OR PAGE_WRITE = mask 2"
    by (simp add: PAGE_PRESENT_def PAGE_WRITE_def mask_eq_exp_minus_1)
  then show "page_aligned a \<Longrightarrow> ENTRY_ADDR AND (a OR PAGE_PRESENT OR PAGE_WRITE) = a"
    unfolding vmm_masks
    by (intro bit_eqI) (auto simp: bit_simps dest: page_aligned_bit bit_imp_le_length)
  then show "page_aligned a \<Longrightarrow> (a OR PAGE_PRESENT OR PAGE_WRITE) AND ENTRY_ADDR = a"
    by (simp add: and.commute)
qed

lemma flags_present [simp]: "(a OR PAGE_PRESENT OR PAGE_WRITE) AND PAGE_PRESENT \<noteq> 0"
proof -
  have "bit ((a OR PAGE_PRESENT OR PAGE_WRITE) AND PAGE_PRESENT) 0"
    by (simp add: bit_simps PAGE_PRESENT_def)
  then show ?thesis by (metis bit_0_eq bot_fun_def bot_bool_def)
qed

definition page_of :: "u32 \<Rightarrow> u32" where
  "page_of a = a AND ENTRY_ADDR"

lemma index_eq_iff_bits:
  "unat (drop_bit k (a :: u32) AND 0x3FF) = unat (drop_bit k (b :: u32) AND 0x3FF)
     \<longleftrightarrow> (\<forall>n. k \<le> n \<and> n < k + 10 \<longrightarrow> bit a n = bit b n)"
proof -
  have "unat (drop_bit k a AND 0x3FF) = unat (drop_bit k b AND 0x3FF)
     \<longleftrightarrow> (\<forall>n. bit (drop_bit k a AND mask 10) n = bit (drop_bit k b AND mask 10) n)"
    unfolding word_unat_eq_iff [symmetric, where 'a = 32] vmm_masks
    by (rule iffI) (simp, rule bit_eqI, blast)
  also have "\<dots> \<longleftrightarrow> (\<forall>n. n < 10 \<longrightarrow> bit a (k + n) = bit b (k + n))"
  proof -
    have "bit (drop_bit k x AND mask 10) n \<longleftrightarrow> bit x (k + n) \<and> n < 10" for x :: u32 and n
      by (auto simp: bit_simps)
    then show ?thesis by blast
  qed
  also have "\<dots> \<longleftrightarrow> (\<forall>n. k \<le> n \<and> n < k + 10 \<longrightarrow> bit a n = bit b n)"
    by (metis add_less_cancel_left le_add1 le_iff_add)
  finally show ?thesis .
qed

lemma page_of_eq_iff:
  "page_of a = page_of b \<longleftrightarrow> dict_index a = dict_index b \<and> table_index a = table_index b"
proof -
  have "page_of a = page_of b \<longleftrightarrow> (\<forall>n. 12 \<le> n \<and> n < 32 \<longrightarrow> bit a n = bit b n)"
    unfolding page_of_def vmm_masks bit_eq_iff
    by (auto simp: bit_simps dest: bit_imp_le_length)
  also have "\<dots> \<longleftrightarrow> (\<forall>n. 22 \<le> n \<and> n < 32 \<longrightarrow> bit a n = bit b n)
      \<and> (\<forall>n. 12 \<le> n \<and> n < 22 \<longrightarrow> bit a n = bit b n)"
  proof -
    have "12 \<le> n \<and> n < 32 \<longleftrightarrow> (22 \<le> n \<and> n < 32) \<or> (12 \<le> n \<and> n < 22)" for n :: nat
      by auto
    then show ?thesis by blast
  qed
  finally show ?thesis
    unfolding dict_index_def table_index_def index_eq_iff_bits by simp
qed

section \<open>Well-formed dictionaries\<close>

abbreviation present :: "u32 \<Rightarrow> bool" where
  "present e \<equiv> e AND PAGE_PRESENT \<noteq> 0"

definition pd_wf :: "u32 \<Rightarrow> page_dictionary \<Rightarrow> bool" where
  "pd_wf base d \<longleftrightarrow> page_aligned base \<and> unat (table_count d) \<le> TABLE_RESERVE
     \<and> (\<forall>k. present (pd_entries d k) \<longrightarrow>
          (\<exists>i<unat (table_count d). pd_entries d k = set_pde (reserve_addr base i)))
     \<and> (\<forall>k l. present (pd_entries d k) \<and> pd_entries d k = pd_entries d l \<longrightarrow> k = l)
     \<and> (\<forall>i\<ge>unat (table_count d). \<forall>j. \<not> present (pt_entries (reserve d i) j))"

definition empty_dictionary :: page_dictionary where
  "empty_dictionary = \<lparr>pd_entries = (\<lambda>_. 0), reserve = (\<lambda>_. \<lparr>pt_entries = (\<lambda>_. 0)\<rparr>), table_count = 0\<rparr>"

lemma pd_wf_aligned: "pd_wf base d \<Longrightarrow> page_aligned base"
  by (simp add: pd_wf_def)

lemma pd_wf_empty: "page_aligned base \<Longrightarrow> pd_wf base empty_dictionary"
  by (simp add: pd_wf_def empty_dictionary_def)

lemma page_aligned_reserve: "page_aligned base \<Longrightarrow> page_aligned (reserve_addr base i)"
  unfolding reserve_addr_def
  by (intro page_aligned_add page_aligned_mult) (simp_all add: page_aligned_def)

lemma set_pde_present [simp]: "present (set_pde raw)"
  by (simp add: set_pde_def)

lemma real_page_table_set_pde:
  assumes "page_aligned raw"
  shows "real_page_table (set_pde raw) = raw"
proof -
  have "page_aligned PAGE_OFFSET" by (simp add: page_aligned_def PAGE_OFFSET_def)
  with assms have "page_aligned (PMA raw)" unfolding PMA_def by (intro page_aligned_diff)
  with assms show ?thesis
    by (simp add: real_page_table_def set_pde_def aligned_flags_and_entry VMA_def PMA_def)
qed

lemma table_of_reserve:
  assumes "i < TABLE_RESERVE"
  shows "table_of base (reserve_addr base i) = Inr i"
proof -
  have "(of_nat i * 0x1000 :: u32) AND 0xFFF = 0"
    using page_aligned_mult [of "of_nat i"] by (simp add: page_aligned_def)
  moreover have "unat (of_nat i * 0x1000 :: u32) = i * 0x1000"
    using assms by (simp add: TABLE_RESERVE_def unat_word_ariths unat_of_nat)
  ultimately show ?thesis using assms by (simp add: table_of_def reserve_addr_def)
qed

lemma table_of_pde [simp]:
  "page_aligned base \<Longrightarrow> i < TABLE_RESERVE \<Longrightarrow>
     table_of base (real_page_table (set_pde (reserve_addr base i))) = Inr i"
  by (simp add: real_page_table_set_pde page_aligned_reserve table_of_reserve)

lemma set_pde_reserve_inject:
  "page_aligned base \<Longrightarrow> i < TABLE_RESERVE \<Longrightarrow> j < TABLE_RESERVE \<Longrightarrow>
     set_pde (reserve_addr base i) = set_pde (reserve_addr base j) \<Longrightarrow> i = j"
  using table_of_pde by (metis sum.inject(2))

lemma pd_at_entry:
  assumes "pd_wf base d" and "pd_entries d (dict_index v) = set_pde (reserve_addr base i)"
    and "i < TABLE_RESERVE"
  shows "PageDictionary_at base d v = Inr (PageTable_at (reserve d i) v)"
  using assms by (simp add: PageDictionary_at_def pd_wf_def)

lemma pd_at_absent:
  "\<not> present (pd_entries d (dict_index v)) \<Longrightarrow> PageDictionary_at base d v = Inr 0"
  by (simp add: PageDictionary_at_def)

lemma pd_wf_entry:
  assumes "pd_wf base d" and "present (pd_entries d k)"
  shows "\<exists>i. i < unat (table_count d) \<and> i < TABLE_RESERVE \<and> pd_entries d k = set_pde (reserve_addr base i)"
  using assms unfolding pd_wf_def by (meson order_less_le_trans)

lemma pd_at_total: "pd_wf base d \<Longrightarrow> \<exists>pa. PageDictionary_at base d v = Inr pa"
  using pd_at_absent pd_at_entry pd_wf_entry by (metis (no_types))

lemma alloc_table_wf:
  assumes wf: "pd_wf base d" and absent: "\<not> present (pd_entries d k)"
    and room: "unat (table_count d) < TABLE_RESERVE"
  defines "d' \<equiv> d\<lparr>table_count := table_count d + 1,
    pd_entries := (pd_entries d)(k := set_pde (reserve_addr base (unat (table_count d))))\<rparr>"
  shows "pd_wf base d'" and "unat (table_count d') = Suc (unat (table_count d))"
proof -
  from room show n: "unat (table_count d') = Suc (unat (table_count d))"
    unfolding d'_def by (simp add: TABLE_RESERVE_def unat_Suc_word)
  have new: "pd_entries d l \<noteq> set_pde (reserve_addr base (unat (table_count d)))" for l
    using wf room set_pde_reserve_inject [of base]
    unfolding pd_wf_def by (metis order_less_irrefl order_less_trans set_pde_present)
  show "pd_wf base d'"
    unfolding pd_wf_def n
  proof (intro conjI allI impI)
    fix l assume "present (pd_entries d' l)"
    then show "\<exists>i<Suc (unat (table_count d)). pd_entries d' l = set_pde (reserve_addr base i)"
      using pd_wf_entry [OF wf, of l] unfolding d'_def by (cases "l = k") (auto intro: less_SucI)
  next
    fix l m assume "present (pd_entries d' l) \<and> pd_entries d' l = pd_entries d' m"
    then show "l = m" using wf new new [symmetric] unfolding d'_def pd_wf_def
      by (auto split: if_splits)
  qed (use wf room in \<open>auto simp: d'_def pd_wf_def\<close>)
qed

lemma alloc_table_keeps_at:
  assumes wf: "pd_wf base d" and absent: "\<not> present (pd_entries d k)"
    and room: "unat (table_count d) < TABLE_RESERVE"
  shows "PageDictionary_at base (d\<lparr>table_count := table_count d + 1,
    pd_entries := (pd_entries d)(k := set_pde (reserve_addr base (unat (table_count d))))\<rparr>) v
    = PageDictionary_at base d v"
proof (cases "dict_index v = k")
  case True
  have "PageTable_at (reserve d (unat (table_count d))) v = 0"
    using wf by (simp add: PageTable_at_def pd_wf_def)
  with True wf room absent show ?thesis by (simp add: PageDictionary_at_def pd_wf_def)
qed (simp add: PageDictionary_at_def Let_def)

lemma retrieve_table_spec:
  assumes wf: "pd_wf base d"
    and ok: "present (pd_entries d (dict_index vma)) \<or> unat (table_count d) < TABLE_RESERVE"
  shows "\<exists>i d'. retrieve_table base vma d = Inr (i, d') \<and> pd_wf base d'
    \<and> i < unat (table_count d') \<and> i < TABLE_RESERVE
    \<and> pd_entries d' (dict_index vma) = set_pde (reserve_addr base i)
    \<and> reserve d' = reserve d \<and> (\<forall>v. PageDictionary_at base d' v = PageDictionary_at base d v)"
proof (cases "present (pd_entries d (dict_index vma))")
  case True
  with pd_wf_entry [OF wf] obtain i where
    "i < unat (table_count d)" "i < TABLE_RESERVE"
    "pd_entries d (dict_index vma) = set_pde (reserve_addr base i)" by blast
  then show ?thesis using wf pd_wf_aligned [OF wf] by (simp add: retrieve_table_def)
next
  case False
  with ok have room: "unat (table_count d) < TABLE_RESERVE" by simp
  show ?thesis
    using alloc_table_wf [OF wf False room] alloc_table_keeps_at [OF wf False room] False room
      pd_wf_aligned [OF wf]
    by (simp add: retrieve_table_def alloc_table_def)
qed

lemma retrieve_table_full:
  "\<not> present (pd_entries d (dict_index vma)) \<Longrightarrow> TABLE_RESERVE \<le> unat (table_count d) \<Longrightarrow>
     retrieve_table base vma d = Inl (AssertFail ''no page table available'')"
  by (simp add: retrieve_table_def alloc_table_def not_less [symmetric])

lemma update_table_wf:
  assumes "pd_wf base d" and "i < unat (table_count d)"
  shows "pd_wf base (d\<lparr>reserve := (reserve d)(i := t)\<rparr>)"
  using assms by (auto simp: pd_wf_def)

lemma update_table_at:
  assumes wf: "pd_wf base d" and i: "i < TABLE_RESERVE"
    and e: "pd_entries d k = set_pde (reserve_addr base i)"
  shows "PageDictionary_at base (d\<lparr>reserve := (reserve d)(i := t)\<rparr>) v =
    (if dict_index v = k then Inr (PageTable_at t v) else PageDictionary_at base d v)"
proof (cases "dict_index v = k")
  case False
  have "pd_entries d (dict_index v) = pd_entries d k \<longrightarrow> \<not> present (pd_entries d k)"
    using wf False unfolding pd_wf_def by metis
  with e have "pd_entries d (dict_index v) \<noteq> set_pde (reserve_addr base i)" by auto
  with False show ?thesis using pd_wf_entry [OF wf, of "dict_index v"] pd_wf_aligned [OF wf]
    by (auto simp: PageDictionary_at_def Let_def)
qed (use wf i e in \<open>simp add: PageDictionary_at_def pd_wf_def\<close>)

section \<open>The interface of an address space\<close>

text \<open>
  What a client of the dictionary relies on: entering one page changes the translation of that
  page only. \<open>dir\<close> is the part of an address that selects the page table, \<open>has_room\<close> says that a
  table for an address exists or can still be allocated.
\<close>

locale address_space =
  fixes translate :: "'d \<Rightarrow> u32 \<Rightarrow> u32 result"
    and map_page :: "u32 \<Rightarrow> u32 \<Rightarrow> 'd \<Rightarrow> 'd result"
    and invar :: "'d \<Rightarrow> bool"
    and has_room :: "'d \<Rightarrow> nat \<Rightarrow> bool"
  assumes map_page_ok: "invar d \<Longrightarrow> has_room d (dict_index vma) \<Longrightarrow>
    \<exists>d'. map_page vma pma d = Inr d' \<and> invar d' \<and> has_room d' (dict_index vma)
      \<and> (\<forall>v. translate d' v =
            (if page_of v = page_of vma then Inr (page_of pma OR page_offset v) else translate d v))"

fun map_pages :: "(u32 \<Rightarrow> u32 \<Rightarrow> 'd \<Rightarrow> 'd result) \<Rightarrow> (u32 \<times> u32) list \<Rightarrow> 'd \<Rightarrow> 'd result" where
  "map_pages f [] d = Inr d"
| "map_pages f ((vma, pma) # ps) d = rbind (f vma pma d) (map_pages f ps)"

context address_space begin

lemma map_pages_ok:
  assumes "invar d" and "has_room d k" and "\<forall>(vma, pma)\<in>set ps. dict_index vma = k"
    and "distinct (map (page_of \<circ> fst) ps)"
  shows "\<exists>d'. map_pages map_page ps d = Inr d' \<and> invar d'
    \<and> (\<forall>(vma, pma)\<in>set ps. \<forall>v. page_of v = page_of vma \<longrightarrow>
          translate d' v = Inr (page_of pma OR page_offset v))
    \<and> (\<forall>v. page_of v \<notin> (page_of \<circ> fst) ` set ps \<longrightarrow> translate d' v = translate d v)"
  using assms
proof (induction ps arbitrary: d)
  case (Cons p ps)
  obtain vma pma where p: "p = (vma, pma)" by (cases p)
  with Cons.prems obtain d1 where d1: "map_page vma pma d = Inr d1" "invar d1" "has_room d1 k"
    "\<forall>v. translate d1 v =
       (if page_of v = page_of vma then Inr (page_of pma OR page_offset v) else translate d v)"
    using map_page_ok [of d vma pma] by auto
  with Cons.IH [of d1] Cons.prems obtain d' where d': "map_pages map_page ps d1 = Inr d'" "invar d'"
    "\<forall>(vma, pma)\<in>set ps. \<forall>v. page_of v = page_of vma \<longrightarrow>
       translate d' v = Inr (page_of pma OR page_offset v)"
    "\<forall>v. page_of v \<notin> (page_of \<circ> fst) ` set ps \<longrightarrow> translate d' v = translate d1 v"
    by auto
  have "page_of vma \<notin> (page_of \<circ> fst) ` set ps" using Cons.prems(4) p by auto
  with d1 d' p show ?case by auto
qed simp

end

section \<open>The dictionary is an address space\<close>

definition pd_has_room :: "page_dictionary \<Rightarrow> nat \<Rightarrow> bool" where
  "pd_has_room d k \<longleftrightarrow> present (pd_entries d k) \<or> unat (table_count d) < TABLE_RESERVE"

lemma pd_has_room_empty: "pd_has_room empty_dictionary k"
  by (simp add: pd_has_room_def empty_dictionary_def TABLE_RESERVE_def)

lemma PageTable_at_insert:
  "PageTable_at (PageTable_insert t vma pma) v =
     (if table_index v = table_index vma then page_of pma OR page_offset v else PageTable_at t v)"
  by (simp add: PageTable_at_def PageTable_insert_def aligned_flags_and_entry page_of_def)

lemma PageDictionary_insert_ok:
  assumes wf: "pd_wf base d" and room: "pd_has_room d (dict_index vma)"
  shows "\<exists>d'. PageDictionary_insert base vma pma d = Inr d' \<and> pd_wf base d'
    \<and> pd_has_room d' (dict_index vma)
    \<and> (\<forall>v. PageDictionary_at base d' v = (if page_of v = page_of vma
          then Inr (page_of pma OR page_offset v) else PageDictionary_at base d v))"
proof -
  obtain i d1 where d1: "retrieve_table base vma d = Inr (i, d1)" "pd_wf base d1"
    "i < unat (table_count d1)" "i < TABLE_RESERVE"
    "pd_entries d1 (dict_index vma) = set_pde (reserve_addr base i)"
    "\<forall>v. PageDictionary_at base d1 v = PageDictionary_at base d v"
    using retrieve_table_spec [OF wf] room unfolding pd_has_room_def by blast
  let ?d' = "d1\<lparr>reserve := (reserve d1)(i := PageTable_insert (reserve d1 i) vma pma)\<rparr>"
  have "PageDictionary_at base ?d' v = (if page_of v = page_of vma
      then Inr (page_of pma OR page_offset v) else PageDictionary_at base d v)" for v
  proof (cases "dict_index v = dict_index vma")
    case True
    with d1 have "PageDictionary_at base d v = Inr (PageTable_at (reserve d1 i) v)"
      using pd_at_entry [of base d1 v i] by simp
    with True d1 show ?thesis
      by (simp add: update_table_at PageTable_at_insert page_of_eq_iff)
  qed (use d1 in \<open>simp add: update_table_at page_of_eq_iff\<close>)
  moreover have "pd_has_room ?d' (dict_index vma)" using d1 by (simp add: pd_has_room_def)
  ultimately show ?thesis using d1 by (simp add: PageDictionary_insert_def update_table_wf)
qed

interpretation pd_space: address_space "PageDictionary_at base" "PageDictionary_insert base"
    "pd_wf base" pd_has_room for base
  by unfold_locales (rule PageDictionary_insert_ok)

lemma PageTable_index_present:
  "present (pt_entries t (table_index vma)) \<Longrightarrow>
     PageTable_index t vma m = Inr (PageTable_at t vma, t, m)"
  by (simp add: PageTable_index_def PageTable_at_def Let_def)

lemma PageTable_index_absent:
  assumes "\<not> present (pt_entries t (table_index vma))" and "pmm_alloc_page m = Inr (p, m')"
    and "page_aligned p"
  shows "PageTable_index t vma m = Inr (p OR page_offset vma, PageTable_insert t vma p, m')"
  using assms by (simp add: PageTable_index_def PageTable_insert_def aligned_flags_and_entry)

section \<open>Allocation on demand\<close>

definition pd_mapped :: "u32 \<Rightarrow> page_dictionary \<Rightarrow> u32 \<Rightarrow> bool" where
  "pd_mapped base d v \<longleftrightarrow>
     (let pde = pd_entries d (dict_index v) in
      present pde \<and> (case table_of base (real_page_table pde) of
        Inl _ \<Rightarrow> False
      | Inr i \<Rightarrow> present (pt_entries (reserve d i) (table_index v))))"

lemma pd_mapped_entry:
  assumes "pd_wf base d" and "pd_entries d (dict_index v) = set_pde (reserve_addr base i)"
    and "i < TABLE_RESERVE"
  shows "pd_mapped base d v \<longleftrightarrow> present (pt_entries (reserve d i) (table_index v))"
  using assms pd_wf_aligned [OF assms(1)] by (simp add: pd_mapped_def)

lemma retrieve_table_mapped:
  assumes wf: "pd_wf base d" and m: "pd_mapped base d vma"
  shows "\<exists>i. retrieve_table base vma d = Inr (i, d) \<and> i < TABLE_RESERVE
    \<and> pd_entries d (dict_index vma) = set_pde (reserve_addr base i)
    \<and> present (pt_entries (reserve d i) (table_index vma))"
proof -
  from m have pde: "present (pd_entries d (dict_index vma))" by (simp add: pd_mapped_def Let_def)
  then obtain i where i: "i < TABLE_RESERVE" "pd_entries d (dict_index vma) = set_pde (reserve_addr base i)"
    using pd_wf_entry [OF wf] by blast
  with m pd_mapped_entry [OF wf] pd_wf_aligned [OF wf] show ?thesis by (simp add: retrieve_table_def)
qed

lemma retrieve_table_unmapped:
  assumes wf: "pd_wf base d" and m: "\<not> pd_mapped base d vma"
    and r: "retrieve_table base vma d = Inr (i, d')"
  shows "\<not> present (pt_entries (reserve d' i) (table_index vma))"
proof (cases "present (pd_entries d (dict_index vma))")
  case True
  with r have "d' = d" "table_of base (real_page_table (pd_entries d (dict_index vma))) = Inr i"
    by (auto simp: retrieve_table_def result_simps split: if_splits)
  with True m show ?thesis by (simp add: pd_mapped_def)
next
  case False
  with r have "d' = d\<lparr>table_count := table_count d + 1, pd_entries :=
      (pd_entries d)(dict_index vma := set_pde (reserve_addr base (unat (table_count d))))\<rparr>"
    "unat (table_count d) < TABLE_RESERVE" "table_of base (real_page_table (set_pde (reserve_addr base (unat (table_count d))))) = Inr i"
    by (auto simp: retrieve_table_def alloc_table_def assert_that_def result_simps split: if_splits)
  with wf show ?thesis using pd_wf_aligned [OF wf] by (auto simp: pd_wf_def)
qed

lemma PageDictionary_index_mapped:
  assumes wf: "pd_wf base d" and m: "pd_mapped base d vma"
  shows "\<exists>pa. PageDictionary_index base vma (d, pm) = Inr (pa, d, pm) \<and> PageDictionary_at base d vma = Inr pa"
proof -
  obtain i where "retrieve_table base vma d = Inr (i, d)" "i < TABLE_RESERVE"
    "pd_entries d (dict_index vma) = set_pde (reserve_addr base i)"
    "present (pt_entries (reserve d i) (table_index vma))"
    using retrieve_table_mapped [OF wf m] by blast
  then show ?thesis using pd_at_entry [OF wf]
    by (simp add: PageDictionary_index_def PageTable_index_present)
qed

lemma PageDictionary_index_unmapped:
  assumes wf: "pd_wf base d" and m: "\<not> pd_mapped base d vma" and room: "pd_has_room d (dict_index vma)"
    and a: "pmm_alloc_page pm = Inr (p, pm')" "page_aligned p"
  shows "\<exists>d'. PageDictionary_index base vma (d, pm) = Inr (p OR page_offset vma, d', pm')
    \<and> pd_wf base d' \<and> pd_mapped base d' vma
    \<and> (\<forall>v. PageDictionary_at base d' v = (if page_of v = page_of vma
          then Inr (p OR page_offset v) else PageDictionary_at base d v))"
proof -
  obtain i d1 where d1: "retrieve_table base vma d = Inr (i, d1)" "pd_wf base d1"
    "i < unat (table_count d1)" "i < TABLE_RESERVE"
    "pd_entries d1 (dict_index vma) = set_pde (reserve_addr base i)"
    using retrieve_table_spec [OF wf] room unfolding pd_has_room_def by blast
  let ?d' = "d1\<lparr>reserve := (reserve d1)(i := PageTable_insert (reserve d1 i) vma p)\<rparr>"
  have ins: "PageDictionary_insert base vma p d = Inr ?d'"
    using d1 by (simp add: PageDictionary_insert_def)
  have "PageDictionary_index base vma (d, pm) = Inr (p OR page_offset vma, ?d', pm')"
    using d1 retrieve_table_unmapped [OF wf m d1(1)] a
    by (simp add: PageDictionary_index_def PageTable_index_absent)
  moreover have "pd_mapped base ?d' vma"
    using d1 pd_wf_aligned [OF wf] by (simp add: pd_mapped_def PageTable_insert_def)
  moreover have "page_of p = p" using a(2) by (simp add: page_of_def)
  ultimately show ?thesis
    using PageDictionary_insert_ok [OF wf room, of p] ins by auto
qed

section \<open>The kernel mapping\<close>

lemma page_of_eq_iff_div: "page_of a = page_of b \<longleftrightarrow> unat a div 0x1000 = unat b div 0x1000"
proof -
  have shift: "page_of x = push_bit 12 (drop_bit 12 x)" "drop_bit 12 (page_of x) = drop_bit 12 x" for x
    unfolding page_of_def vmm_masks
    by (rule bit_eqI; auto simp: bit_simps dest: bit_imp_le_length)+
  then have "page_of a = page_of b \<longleftrightarrow> drop_bit 12 a = drop_bit 12 b" by metis
  also have "\<dots> \<longleftrightarrow> unat (drop_bit 12 a) = unat (drop_bit 12 b)" by (rule word_unat_eq_iff)
  finally show ?thesis by (simp add: drop_bit_eq_div unat_div_distrib)
qed

lemma unat_page_offset: "unat (page_offset a) = unat a mod 0x1000"
  unfolding page_offset_def vmm_masks
  by (simp add: unsigned_take_bit_eq take_bit_eq_mod unat_mod_distrib flip: take_bit_eq_mask)

lemma dict_index_div: "dict_index a = unat a div 0x400000"
proof -
  have "unat a div 0x400000 < 1024"
    using unsigned_less [of a, where 'a = nat] by (simp add: div_less_iff_less_mult)
  then show ?thesis unfolding dict_index_def vmm_masks
    by (simp add: unat_mod_distrib unat_div_distrib drop_bit_eq_div take_bit_eq_mod flip: take_bit_eq_mask)
qed

lemma page_of_or_offset [simp]: "page_of a OR page_offset a = a"
  unfolding page_of_def page_offset_def vmm_masks by (rule bit_eqI) (auto simp: bit_simps dest: bit_imp_le_length)

lemma unat_VMA: "unat x < 0x400000 \<Longrightarrow> unat (VMA x) = unat x + 0xC0000000"
  by (simp add: VMA_def PAGE_OFFSET_def unat_word_ariths)

lemma unat_kernel_page: "i < 1024 \<Longrightarrow> unat (push_bit 12 (of_nat i) :: u32) = i * 0x1000"
  by (simp add: push_bit_eq_mult unat_word_ariths unat_of_nat)

lemma init_vmm_map_eq:
  "init_vmm_map base is = map_pages (PageDictionary_insert base)
     (map (\<lambda>i. (VMA (push_bit 12 (of_nat i)), push_bit 12 (of_nat i))) is)"
proof (induction "is")
  case (Cons i "is")
  show ?case by (rule ext) (simp add: Cons.IH)
qed (rule ext, simp)

lemma init_vmm_map_ok:
  assumes "pd_wf base d" and "pd_has_room d 768"
  shows "\<exists>d'. init_vmm_map base [0..<1024] d = Inr d' \<and> pd_wf base d'
    \<and> (\<forall>x. unat x < 0x400000 \<longrightarrow> PageDictionary_at base d' (VMA x) = Inr x)
    \<and> (\<forall>v. unat v div 0x400000 \<noteq> 768 \<longrightarrow> PageDictionary_at base d' v = PageDictionary_at base d v)"
proof -
  let ?k = "\<lambda>i. push_bit 12 (of_nat i) :: u32"
  let ?ps = "map (\<lambda>i. (VMA (?k i), ?k i)) [0..<1024]"
  have page: "unat (VMA (?k i)) = i * 0x1000 + 0xC0000000" if "i < 1024" for i
    using that unat_VMA [of "?k i"] unat_kernel_page [OF that] by simp
  then have dir: "\<forall>(vma, pma)\<in>set ?ps. dict_index vma = 768"
    by (auto simp: dict_index_div)
  have "inj_on (\<lambda>i. page_of (VMA (?k i))) {0..<1024}"
    by (rule inj_onI) (simp add: page_of_eq_iff_div page)
  then have dist: "distinct (map (page_of \<circ> fst) ?ps)" by (simp add: distinct_map comp_def)
  obtain d' where d': "map_pages (PageDictionary_insert base) ?ps d = Inr d'" "pd_wf base d'"
    "\<forall>(vma, pma)\<in>set ?ps. \<forall>v. page_of v = page_of vma \<longrightarrow>
       PageDictionary_at base d' v = Inr (page_of pma OR page_offset v)"
    "\<forall>v. page_of v \<notin> (page_of \<circ> fst) ` set ?ps \<longrightarrow> PageDictionary_at base d' v = PageDictionary_at base d v"
    using pd_space.map_pages_ok [OF assms dir dist] by blast
  have "PageDictionary_at base d' (VMA x) = Inr x" if x: "unat x < 0x400000" for x
  proof -
    let ?i = "unat x div 0x1000"
    have i: "?i < 1024" using x by (simp add: div_less_iff_less_mult)
    have "page_of (VMA x) = page_of (VMA (?k ?i))"
      by (simp add: page_of_eq_iff_div page [OF i] unat_VMA [OF x])
    moreover have "page_of (?k ?i) = page_of x"
      by (simp add: page_of_eq_iff_div unat_kernel_page [OF i])
    moreover have "(n + 0xC0000000) mod 0x1000 = n mod 0x1000" for n :: nat
      using mod_mult_self1 [of n 786432 "0x1000"] by simp
    then have "page_offset (VMA x) = page_offset x"
      by (simp add: word_unat_eq_iff [of "page_offset (VMA x)"] unat_page_offset unat_VMA [OF x])
    ultimately show ?thesis using d'(3) i by force
  qed
  moreover have "PageDictionary_at base d' v = PageDictionary_at base d v" if "unat v div 0x400000 \<noteq> 768" for v
  proof -
    have "page_of v \<noteq> page_of (VMA (?k i))" if "i < 1024" for i
    proof
      assume "page_of v = page_of (VMA (?k i))"
      then have "dict_index v = dict_index (VMA (?k i))" by (simp add: page_of_eq_iff)
      with \<open>unat v div 0x400000 \<noteq> 768\<close> page [OF that] that show False by (simp add: dict_index_div)
    qed
    then have "page_of v \<notin> (page_of \<circ> fst) ` set ?ps" by fastforce
    then show ?thesis using d'(4) by blast
  qed
  ultimately show ?thesis using d'(1,2) by (auto simp: init_vmm_map_eq simp del: upt_rec_numeral)
qed

section \<open>Properties\<close>

text \<open>C1. Mapping a page with \<open>PageDictionary::insert\<close> succeeds when a page table for the address
  exists or is left in the reserve, keeps the dictionary well formed, makes the addresses of that
  page translate to the given frame with their offset, and changes no other translation.\<close>

theorem PageDictionary_insert_translates:
  assumes "pd_wf base d" and "pd_has_room d (dict_index vma)"
  shows "\<exists>d'. PageDictionary_insert base vma pma d = Inr d' \<and> pd_wf base d'
    \<and> (\<forall>v. PageDictionary_at base d' v = (if page_of v = page_of vma
          then Inr (page_of pma OR page_offset v) else PageDictionary_at base d v))"
  using PageDictionary_insert_ok [OF assms] by blast

theorem PageDictionary_insert_translates_witness:
  "\<exists>d'. PageDictionary_insert 0xC0108000 0xD0001234 0x5678000 empty_dictionary = Inr d'
    \<and> pd_wf 0xC0108000 d'
    \<and> (\<forall>v. PageDictionary_at 0xC0108000 d' v = (if page_of v = page_of 0xD0001234
          then Inr (page_of 0x5678000 OR page_offset v)
          else PageDictionary_at 0xC0108000 empty_dictionary v))"
  by (rule PageDictionary_insert_translates)
    (simp_all add: pd_wf_empty page_aligned_def pd_has_room_empty)

text \<open>\<open>PageDictionary::operator[]\<close> allocates on demand: a mapped address keeps its translation
  and nothing changes; for an unmapped one the page handed out by the page manager leaves the
  free pages, becomes the frame of exactly that page, and the address is mapped afterwards.\<close>

lemma PageDictionary_index_on_demand:
  assumes "pd_wf base d" and "pd_has_room d (dict_index vma)" and "pmm_wf m"
    and "2 \<le> length (pmm_pages m)" and "\<forall>p\<in>set (pmm_pages m). page_aligned p"
  shows "if pd_mapped base d vma
    then \<exists>pa. PageDictionary_index base vma (d, m) = Inr (pa, d, m) \<and> PageDictionary_at base d vma = Inr pa
    else \<exists>p d' m'. PageDictionary_index base vma (d, m) = Inr (p OR page_offset vma, d', m')
      \<and> pmm_pages m = p # pmm_pages m' \<and> pmm_wf m' \<and> pd_wf base d' \<and> pd_mapped base d' vma
      \<and> (\<forall>v. PageDictionary_at base d' v = (if page_of v = page_of vma
            then Inr (p OR page_offset v) else PageDictionary_at base d v))"
proof (cases "pd_mapped base d vma")
  case True
  with PageDictionary_index_mapped [OF assms(1)] show ?thesis by simp
next
  case False
  obtain p m' where a: "pmm_alloc_page m = Inr (p, m')" "pmm_wf m'" "pmm_pages m = p # pmm_pages m'"
    using pmm_pool.alloc_succeeds [of m] pmm_pool.alloc_takes assms(3,4) by blast
  with assms(5) have "page_aligned p" by simp
  with PageDictionary_index_unmapped [OF assms(1) False assms(2) a(1)] a False show ?thesis by auto
qed

lemma PageDictionary_index_on_demand_witness:
  "if pd_mapped 0xC0108000 empty_dictionary 0x10002004
    then \<exists>pa. PageDictionary_index 0xC0108000 0x10002004 (empty_dictionary, example_pmm)
          = Inr (pa, empty_dictionary, example_pmm)
        \<and> PageDictionary_at 0xC0108000 empty_dictionary 0x10002004 = Inr pa
    else \<exists>p d' m'. PageDictionary_index 0xC0108000 0x10002004 (empty_dictionary, example_pmm)
          = Inr (p OR page_offset 0x10002004, d', m')
      \<and> pmm_pages example_pmm = p # pmm_pages m' \<and> pmm_wf m' \<and> pd_wf 0xC0108000 d'
      \<and> pd_mapped 0xC0108000 d' 0x10002004
      \<and> (\<forall>v. PageDictionary_at 0xC0108000 d' v = (if page_of v = page_of 0x10002004
            then Inr (p OR page_offset v) else PageDictionary_at 0xC0108000 empty_dictionary v))"
  by (rule PageDictionary_index_on_demand)
    (simp_all add: pd_wf_empty page_aligned_def pd_has_room_empty example_pmm_facts)

text \<open>C6. \<open>init_vmm\<close>, from the empty dictionary, maps the first 4 MB of physical memory at
  \<open>0xC0000000\<close> (every physical address \<open>x\<close> below 4 MB is the translation of \<open>VMA(x)\<close>), maps
  nothing else, installs the page fault handler at vector 14 and loads \<open>cr3\<close> with the physical
  address of the dictionary.\<close>

theorem init_vmm_kernel_mapping:
  assumes "page_aligned base"
  shows "\<exists>d' t' cr3. init_vmm base empty_dictionary t = Inr (d', t', cr3) \<and> pd_wf base d'
    \<and> (\<forall>x. unat x < 0x400000 \<longrightarrow> PageDictionary_at base d' (VMA x) = Inr x)
    \<and> (\<forall>v. unat v div 0x400000 \<noteq> 768 \<longrightarrow> PageDictionary_at base d' v = Inr 0)
    \<and> interrupt_handlers t' = (interrupt_handlers t)(14 := Some page_fault_handler)
    \<and> VMA cr3 = base"
proof -
  from init_vmm_map_ok [OF pd_wf_empty [OF assms] pd_has_room_empty] obtain d' where
    "init_vmm_map base [0..<1024] empty_dictionary = Inr d'" "pd_wf base d'"
    "\<forall>x. unat x < 0x400000 \<longrightarrow> PageDictionary_at base d' (VMA x) = Inr x"
    "\<forall>v. unat v div 0x400000 \<noteq> 768 \<longrightarrow>
       PageDictionary_at base d' v = PageDictionary_at base empty_dictionary v"
    by blast
  moreover have "PageDictionary_at base empty_dictionary v = Inr 0" for v
    by (simp add: PageDictionary_at_def empty_dictionary_def)
  ultimately show ?thesis
    by (simp add: init_vmm_def register_isr_def register_dictionary_def VMA_def PMA_def del: upt_rec_numeral)
qed

theorem init_vmm_kernel_mapping_witness:
  "\<exists>d' t' cr3. init_vmm 0xC0108000 empty_dictionary example_idt = Inr (d', t', cr3) \<and> pd_wf 0xC0108000 d'
    \<and> PageDictionary_at 0xC0108000 d' 0xC0101234 = Inr 0x101234
    \<and> PageDictionary_at 0xC0108000 d' 0x10002000 = Inr 0
    \<and> interrupt_handlers t' 14 = Some page_fault_handler"
proof -
  obtain d' t' cr3 where r: "init_vmm 0xC0108000 empty_dictionary example_idt = Inr (d', t', cr3)"
    "pd_wf 0xC0108000 d'" "\<forall>x. unat x < 0x400000 \<longrightarrow> PageDictionary_at 0xC0108000 d' (VMA x) = Inr x"
    "\<forall>v. unat v div 0x400000 \<noteq> 768 \<longrightarrow> PageDictionary_at 0xC0108000 d' v = Inr 0"
    "interrupt_handlers t' = (interrupt_handlers example_idt)(14 := Some page_fault_handler)"
    using init_vmm_kernel_mapping [of "0xC0108000" example_idt] by (auto simp: page_aligned_def)
  from r(3) [THEN spec, of "0x101234"] r(4) [THEN spec, of "0x10002000"] r show ?thesis
    by (auto simp: VMA_def PAGE_OFFSET_def)
qed

text \<open>When the reserve of 128 page tables is used up, an access or a mapping that needs a new
  one stops the kernel with "no page table available".\<close>

lemma PageDictionary_reserve_exhausted:
  assumes "unat (table_count d) = TABLE_RESERVE" and "\<not> present (pd_entries d (dict_index vma))"
  shows "PageDictionary_insert base vma pma d = Inl (AssertFail ''no page table available'')
    \<and> PageDictionary_index base vma (d, m) = Inl (AssertFail ''no page table available'')"
  using assms by (simp add: PageDictionary_insert_def PageDictionary_index_def retrieve_table_full)

lemma PageDictionary_reserve_exhausted_witness:
  "PageDictionary_insert 0xC0108000 0x1000 0x2000 (empty_dictionary\<lparr>table_count := 128\<rparr>)
     = Inl (AssertFail ''no page table available'')
   \<and> PageDictionary_index 0xC0108000 0x1000 (empty_dictionary\<lparr>table_count := 128\<rparr>, example_pmm)
     = Inl (AssertFail ''no page table available'')"
  by (rule PageDictionary_reserve_exhausted) (simp_all add: TABLE_RESERVE_def empty_dictionary_def)

end
