(* ===== verification/Sprite_Debug.thy ===== *)
theory Sprite_Debug
  imports Sprite_Vmm Sprite_Printk
begin

text \<open>
  The boot information of \<open>include/multiboot.h\<close>, the symbol table of \<open>lib/elf.cc\<close> and the reports of
  \<open>lib/debug.cc\<close>. The structures lie in byte memory; their fields are read through the layouts of
  the packed structures. A local that the code leaves uninitialised is an argument.
\<close>

section \<open>Structures\<close>

definition multiboot_t :: layout where
  "multiboot_t = [(''flags'', 4), (''mem_lower'', 4), (''mem_upper'', 4), (''boot_device'', 4), (''cmdline'', 4),
     (''mods_count'', 4), (''mods_addr'', 4), (''num'', 4), (''size'', 4), (''addr'', 4), (''shndx'', 4),
     (''mmap_length'', 4), (''mmap_addr'', 4), (''drives_length'', 4), (''drives_addr'', 4), (''config_table'', 4),
     (''boot_loader_name'', 4), (''apm_table'', 4), (''vbe_control_info'', 4), (''vbe_mode_info'', 4), (''vbe_mode'', 4),
     (''vbe_interface_seg'', 4), (''vbe_interface_off'', 4), (''vbe_interface_len'', 4)]"

definition mmap_layout :: layout where
  "mmap_layout = [(''size'', 4), (''base_addr_low'', 4), (''base_addr_high'', 4), (''length_low'', 4), (''length_high'', 4),
     (''type'', 4)]"

definition elf_section_header_t :: layout where
  "elf_section_header_t = [(''name'', 4), (''type'', 4), (''flags'', 4), (''addr'', 4), (''offset'', 4), (''size'', 4),
     (''link'', 4), (''info'', 4), (''addralign'', 4), (''entsize'', 4)]"

definition elf_symbol_t :: layout where
  "elf_symbol_t = [(''name'', 4), (''value'', 4), (''size'', 4), (''info'', 1), (''other'', 1), (''shndx'', 2)]"

record elf_t =
  symtab :: u32
  symtabsz :: u32
  strtab :: u32
  strtabsz :: u32

definition field32 :: "layout \<Rightarrow> string \<Rightarrow> mem \<Rightarrow> u32 \<Rightarrow> u32" where
  "field32 l f m p = read32 m (p + field_offset l f)"

text \<open>Element \<open>i\<close> of an array of structures.\<close>

definition elem :: "layout \<Rightarrow> u32 \<Rightarrow> u32 \<Rightarrow> u32" where
  "elem l p i = p + layout_size l * i"

definition mmap_entry :: "mem \<Rightarrow> u32 \<Rightarrow> nat \<Rightarrow> mmap_entry_t" where
  "mmap_entry m p i = (let e = elem mmap_layout p (of_nat i); f = (\<lambda>n. field32 mmap_layout n m e) in
     \<lparr>mm_size = f ''size'', base_addr_low = f ''base_addr_low'', base_addr_high = f ''base_addr_high'',
      length_low = f ''length_low'', length_high = f ''length_high'', mm_type = f ''type''\<rparr>)"

section \<open>Symbols\<close>

definition ELF32_ST_TYPE :: "u8 \<Rightarrow> u8" where
  "ELF32_ST_TYPE i = i AND 0xF"

text \<open>The loop of \<open>elf_from_multiboot\<close> over the remaining section numbers; \<open>lit\<close> gives the address of a
  string literal.\<close>

fun section_loop :: "mem \<Rightarrow> (string \<Rightarrow> u32) \<Rightarrow> u32 \<Rightarrow> u32 \<Rightarrow> nat list \<Rightarrow> elf_t \<Rightarrow> elf_t option" where
  "section_loop m lit sh shstrtab [] elf = Some elf"
| "section_loop m lit sh shstrtab (i # is) elf =
     (let hdr = elem elf_section_header_t sh (of_nat i);
          f = (\<lambda>n. field32 elf_section_header_t n m hdr);
          name = VMA (shstrtab + f ''name'')
      in Option.bind (strcmp m name (lit ''.strtab'')) (\<lambda>r1.
         let elf = (if r1 = 0 then elf\<lparr>strtab := f ''addr'', strtabsz := f ''size''\<rparr> else elf) in
         Option.bind (strcmp m name (lit ''.symtab'')) (\<lambda>r2.
         let elf = (if r2 = 0 then elf\<lparr>symtab := f ''addr'', symtabsz := f ''size''\<rparr> else elf) in
         section_loop m lit sh shstrtab is elf)))"

definition elf_from_multiboot :: "mem \<Rightarrow> (string \<Rightarrow> u32) \<Rightarrow> u32 \<Rightarrow> elf_t \<Rightarrow> elf_t option" where
  "elf_from_multiboot m lit mb elf =
     (let sh = field32 multiboot_t ''addr'' m mb;
          shstrtab = field32 elf_section_header_t ''addr'' m (elem elf_section_header_t sh (field32 multiboot_t ''shndx'' m mb))
      in section_loop m lit sh shstrtab [0..<unat (field32 multiboot_t ''num'' m mb)] elf)"

fun lookup_loop :: "mem \<Rightarrow> u32 \<Rightarrow> elf_t \<Rightarrow> nat list \<Rightarrow> u32" where
  "lookup_loop m addr elf [] = 0"
| "lookup_loop m addr elf (i # is) =
     (let symbol = elem elf_symbol_t (symtab elf) (of_nat i);
          f = (\<lambda>n. field32 elf_symbol_t n m symbol)
      in if ELF32_ST_TYPE (m (symbol + field_offset elf_symbol_t ''info'')) \<noteq> 0x2 then lookup_loop m addr elf is
         else if f ''value'' \<le> addr \<and> addr < f ''value'' + f ''size'' then strtab elf + f ''name''
         else lookup_loop m addr elf is)"

definition elf_lookup_symbol :: "mem \<Rightarrow> u32 \<Rightarrow> elf_t \<Rightarrow> u32" where
  "elf_lookup_symbol m addr elf = lookup_loop m addr elf [0..<unat (symtabsz elf div layout_size elf_symbol_t)]"

section \<open>Reports\<close>

text \<open>\<open>init_debug\<close> assigns the static \<open>kernel_elf\<close>.\<close>

definition init_debug :: "mem \<Rightarrow> (string \<Rightarrow> u32) \<Rightarrow> u32 \<Rightarrow> elf_t \<Rightarrow> elf_t option" where
  "init_debug m lit glb_mboot_ptr elf = elf_from_multiboot m lit glb_mboot_ptr elf"

text \<open>The segment registers of \<open>print_cur_status\<close> are inputs, \<open>round\<close> is its static counter.\<close>

definition print_cur_status ::
    "mem \<Rightarrow> (string \<Rightarrow> u32) \<Rightarrow> u16 \<times> u16 \<times> u16 \<times> u16 \<Rightarrow> u32 \<times> console \<Rightarrow> (u32 \<times> console) option" where
  "print_cur_status m lit regs s =
     (let (reg1, reg2, reg3, reg4) = regs; (round, con) = s;
          line = (\<lambda>fmt v con. printk m (lit (fmt @ [CHR 0x0A])) [ArgNum round, ArgNum v] con)
      in Option.bind (line ''%d: @ring %d'' (ucast reg1 AND 3) con) (\<lambda>con.
         Option.bind (line ''%d:  cs = %x'' (ucast reg1) con) (\<lambda>con.
         Option.bind (line ''%d:  ds = %x'' (ucast reg2) con) (\<lambda>con.
         Option.bind (line ''%d:  es = %x'' (ucast reg3) con) (\<lambda>con.
         Option.bind (line ''%d:  ss = %x'' (ucast reg4) con) (\<lambda>con.
         Some (round + 1, con)))))))"

partial_function (option) print_stack_trace ::
    "mem \<Rightarrow> (string \<Rightarrow> u32) \<Rightarrow> elf_t \<Rightarrow> u32 \<Rightarrow> console \<Rightarrow> console option" where
  "print_stack_trace m lit kernel_elf fp s =
     (if fp = 0 then Some s
      else let ret = read32 m (fp + 4) in
           Option.bind (printk m (lit (''    [%x] %s'' @ [CHR 0x0A])) [ArgNum ret, ArgStr (elf_lookup_symbol m ret kernel_elf)] s)
             (print_stack_trace m lit kernel_elf (read32 m fp)))"

text \<open>\<open>panic\<close> never returns: the result is the console in front of its endless loop.\<close>

definition panic :: "mem \<Rightarrow> (string \<Rightarrow> u32) \<Rightarrow> elf_t \<Rightarrow> u32 \<Rightarrow> u32 \<Rightarrow> console \<Rightarrow> console option" where
  "panic m lit kernel_elf fp msg s =
     Option.bind (printk m (lit (''*** System panic: %s'' @ [CHR 0x0A])) [ArgStr msg] s) (\<lambda>s.
     Option.bind (print_stack_trace m lit kernel_elf fp s) (\<lambda>s.
     printk m (lit (''***'' @ [CHR 0x0A])) [] s))"

section \<open>Lookup by address\<close>

lemma layout_sizes_debug:
  "layout_size multiboot_t = 96" "layout_size mmap_layout = 24" "layout_size elf_section_header_t = 40" "layout_size elf_symbol_t = 16"
  by (simp_all add: layout_size_def multiboot_t_def mmap_layout_def elf_section_header_t_def elf_symbol_t_def)

definition symbol_at :: "mem \<Rightarrow> elf_t \<Rightarrow> nat \<Rightarrow> u32" where
  "symbol_at m elf i = elem elf_symbol_t (symtab elf) (of_nat i)"

text \<open>A function symbol that covers an address, read without wrap-around of its end.\<close>

definition covers :: "mem \<Rightarrow> elf_t \<Rightarrow> u32 \<Rightarrow> nat \<Rightarrow> bool" where
  "covers m elf addr i \<longleftrightarrow> m (symbol_at m elf i + 12) AND 0xF = 2
     \<and> (let v = unat (read32 m (symbol_at m elf i + 4)); n = unat (read32 m (symbol_at m elf i + 8))
        in v \<le> unat addr \<and> unat addr < v + n)"

lemma lookup_loop_find:
  assumes "\<forall>i\<in>set is. unat (read32 m (symbol_at m elf i + 4)) + unat (read32 m (symbol_at m elf i + 8)) < 2 ^ 32"
  shows "lookup_loop m addr elf is = (case find (covers m elf addr) is of None \<Rightarrow> 0
    | Some i \<Rightarrow> strtab elf + read32 m (symbol_at m elf i))"
  using assms
proof (induction "is")
  case (Cons i "is")
  let ?p = "symbol_at m elf i"
  have "unat (read32 m (?p + 4)) + unat (read32 m (?p + 8)) < 2 ^ 32" using Cons.prems by simp
  then have "unat (read32 m (?p + 4) + read32 m (?p + 8)) = unat (read32 m (?p + 4)) + unat (read32 m (?p + 8))"
    by (simp add: unat_word_ariths)
  then show ?case using Cons
    by (simp add: covers_def symbol_at_def Let_def field32_def ELF32_ST_TYPE_def elf_symbol_t_def word_le_nat_alt word_less_nat_alt)
qed simp

text \<open>A stack trace of a chain of frames: one line for each return address.\<close>

fun frames :: "mem \<Rightarrow> u32 \<Rightarrow> u32 list \<Rightarrow> bool" where
  "frames m fp [] \<longleftrightarrow> fp = 0"
| "frames m fp (ret # es) \<longleftrightarrow> fp \<noteq> 0 \<and> read32 m (fp + 4) = ret \<and> frames m (read32 m fp) es"

definition trace_line :: "(u32 \<Rightarrow> u8 list) \<Rightarrow> mem \<Rightarrow> elf_t \<Rightarrow> u32 \<Rightarrow> u8 list" where
  "trace_line str m elf ret = [0x20, 0x20, 0x20, 0x20, 0x5B] @ hex_digits ret @ [0x5D, 0x20] @ str (elf_lookup_symbol m ret elf) @ [0x0A]"

definition trace_format :: "u8 list" where
  "trace_format = [0x20, 0x20, 0x20, 0x20, 0x5B, 0x25, 0x78, 0x5D, 0x20, 0x25, 0x73, 0x0A]"

lemma print_stack_trace_lines:
  assumes "cstr m (lit (''    [%x] %s'' @ [CHR 0x0A])) trace_format"
  shows "frames m fp rets \<Longrightarrow> \<forall>r\<in>set rets. cstr m (elf_lookup_symbol m r elf) (str (elf_lookup_symbol m r elf)) \<Longrightarrow>
    print_stack_trace m lit elf fp s = Some (put_text (concat (map (trace_line str m elf) rets)) s)"
proof (induction rets arbitrary: fp s)
  case Nil
  then show ?case by (subst print_stack_trace.simps) simp
next
  case (Cons r rets)
  let ?args = "[ArgNum r, ArgStr (elf_lookup_symbol m r elf)]"
  have "printk m (lit (''    [%x] %s'' @ [CHR 0x0A])) ?args s = Some (put_text (trace_line str m elf r) s)"
    using printk_prints [OF assms, of str ?args s] Cons.prems(2)
    by (simp add: trace_format_def trace_line_def arg_ok_def directive_text_def arg_text_def)
  then show ?case using Cons by (subst print_stack_trace.simps) (simp add: Let_def del: printk.simps)
qed

text \<open>\<open>elf_lookup_symbol\<close> names the function that contains an address: it returns the name of the first
  function symbol of the table whose range covers the address, and null when there is none.\<close>

lemma elf_lookup_symbol_first:
  assumes "\<forall>i<unat (symtabsz elf) div 16.
      unat (read32 m (symbol_at m elf i + 4)) + unat (read32 m (symbol_at m elf i + 8)) < 2 ^ 32"
  shows "elf_lookup_symbol m addr elf =
    (case find (covers m elf addr) [0..<unat (symtabsz elf) div 16] of None \<Rightarrow> 0
     | Some i \<Rightarrow> strtab elf + read32 m (symbol_at m elf i))"
  using lookup_loop_find [of "[0..<unat (symtabsz elf) div 16]" m elf addr] assms
  by (simp add: elf_lookup_symbol_def layout_sizes_debug unat_div)

definition example_symbols :: mem where
  "example_symbols = write32 (write32 ((write32 (write32 (\<lambda>_. 0) 0x1014 0x500) 0x1018 0x100)(0x101C := 0x12)) 0x1010 7) 0x1004 0x500"

lemma elf_lookup_symbol_first_witness:
  "elf_lookup_symbol example_symbols 0x580 \<lparr>symtab = 0x1000, symtabsz = 32, strtab = 0x2000, strtabsz = 16\<rparr> = 0x2007"
proof -
  let ?elf = "\<lparr>symtab = 0x1000, symtabsz = 32, strtab = 0x2000, strtabsz = 16\<rparr>"
  have s: "symbol_at example_symbols ?elf 0 = 0x1000" "symbol_at example_symbols ?elf 1 = 0x1010"
    by (simp_all add: symbol_at_def elem_def layout_sizes_debug)
  have v: "read32 example_symbols 0x1004 = 0x500" "read32 example_symbols 0x1008 = 0" "read32 example_symbols 0x1014 = 0x500"
    "read32 example_symbols 0x1018 = 0x100" "read32 example_symbols 0x1010 = 7" "example_symbols 0x101C = 0x12"
    "example_symbols 0x100C = 0"
    by (simp_all add: example_symbols_def read32_def write32_def)
  have two: "unat (32 :: u32) div 16 = Suc (Suc 0)" by simp
  show ?thesis using elf_lookup_symbol_first [of ?elf example_symbols "0x580"] unfolding elf_t.simps two
    by (simp add: s s(2) [simplified] v covers_def less_Suc_eq)
qed

section \<open>Memory maps\<close>

definition newline :: string where "newline = [CHR 0x0A]"

definition show_kern_mmap :: "mem \<Rightarrow> (string \<Rightarrow> u32) \<Rightarrow> u32 \<Rightarrow> u32 \<Rightarrow> console \<Rightarrow> console option" where
  "show_kern_mmap m lit start fin s =
     Option.bind (printk m (lit (''kernel in memory start: 0x%x'' @ newline)) [ArgNum start] s) (\<lambda>s.
     Option.bind (printk m (lit (''kernel in memory end: 0x%x'' @ newline)) [ArgNum fin] s) (\<lambda>s.
     printk m (lit (''kernel size: 0x%x bytes'' @ newline)) [ArgNum (fin - start)] s))"

text \<open>The loop compares addresses, so it need not end for a map at the top of memory.\<close>

partial_function (option) show_mmap_loop :: "mem \<Rightarrow> (string \<Rightarrow> u32) \<Rightarrow> u32 \<Rightarrow> u32 \<Rightarrow> console \<Rightarrow> console option" where
  "show_mmap_loop m lit fin mmap s =
     (if mmap < fin
      then let f = (\<lambda>n. ArgNum (field32 mmap_layout n m mmap)) in
           Option.bind (printk m (lit (''base_addr= 0x%x%x, length = %x%x, type = %x'' @ newline))
             [f ''base_addr_high'', f ''base_addr_low'', f ''length_high'', f ''length_low'', f ''type''] s)
             (show_mmap_loop m lit fin (mmap + layout_size mmap_layout))
      else Some s)"

definition show_mmap :: "mem \<Rightarrow> (string \<Rightarrow> u32) \<Rightarrow> u32 \<Rightarrow> console \<Rightarrow> console option" where
  "show_mmap m lit glb_mboot_ptr s =
     (let mmap_addr = field32 multiboot_t ''mmap_addr'' m glb_mboot_ptr;
          mmap_length = field32 multiboot_t ''mmap_length'' m glb_mboot_ptr
      in Option.bind (printk m (lit (''Memory map:'' @ newline)) [] s)
           (show_mmap_loop m lit (mmap_addr + mmap_length) mmap_addr))"

text \<open>One line of \<open>show_mmap\<close>.\<close>

definition mmap_format :: "u8 list" where
  "mmap_format = [0x62, 0x61, 0x73, 0x65, 0x5F, 0x61, 0x64, 0x64, 0x72, 0x3D, 0x20, 0x30, 0x78, 0x25, 0x78, 0x25, 0x78,
     0x2C, 0x20, 0x6C, 0x65, 0x6E, 0x67, 0x74, 0x68, 0x20, 0x3D, 0x20, 0x25, 0x78, 0x25, 0x78, 0x2C, 0x20, 0x74, 0x79, 0x70,
     0x65, 0x20, 0x3D, 0x20, 0x25, 0x78, 0x0A]"

definition mmap_line :: "mem \<Rightarrow> u32 \<Rightarrow> u8 list" where
  "mmap_line m e = (let f = (\<lambda>n. ArgNum (field32 mmap_layout n m e)) in
     printk_text (\<lambda>_. []) mmap_format [f ''base_addr_high'', f ''base_addr_low'', f ''length_high'', f ''length_low'', f ''type''])"

text \<open>The map is listed entry by entry: \<open>show_mmap\<close> prints the entries of a map of \<open>n\<close> entries and stops.\<close>

lemma show_mmap_loop_lines:
  assumes lit: "cstr m (lit (''base_addr= 0x%x%x, length = %x%x, type = %x'' @ newline)) mmap_format"
  shows "unat a + 24 * n < 2 ^ 32 \<Longrightarrow>
    show_mmap_loop m lit (a + of_nat (24 * n)) a s = Some (put_text (concat (map (\<lambda>i. mmap_line m (elem mmap_layout a (of_nat i))) [0..<n])) s)"
proof (induction n arbitrary: a s)
  case 0
  then show ?case by (subst show_mmap_loop.simps) simp
next
  case (Suc n)
  have a: "unat (a + 24) = unat a + 24" using Suc.prems by (simp add: unat_word_ariths)
  have fin: "a + of_nat (24 * Suc n) = a + 24 + of_nat (24 * n)" by simp
  have "unat (a + of_nat (24 * Suc n)) = unat a + 24 * Suc n" using Suc.prems by (simp add: unat_word_ariths unat_of_nat del: of_nat_mult)
  then have lt: "a < a + of_nat (24 * Suc n)" by (simp add: word_less_nat_alt)
  have len: "length mmap_format < 2 ^ 32" by (simp add: mmap_format_def)
  let ?f = "\<lambda>n. ArgNum (field32 mmap_layout n m a)"
  have p: "printk m (lit (''base_addr= 0x%x%x, length = %x%x, type = %x'' @ newline))
      [?f ''base_addr_high'', ?f ''base_addr_low'', ?f ''length_high'', ?f ''length_low'', ?f ''type''] s = Some (put_text (mmap_line m a) s)"
    unfolding mmap_line_def Let_def by (rule printk_prints [OF lit len]) (simp add: arg_ok_def)
  have IH: "show_mmap_loop m lit (a + 24 + of_nat (24 * n)) (a + 24) s' =
      Some (put_text (concat (map (\<lambda>i. mmap_line m (elem mmap_layout (a + 24) (of_nat i))) [0..<n])) s')" for s'
    by (rule Suc.IH) (use a Suc.prems in simp)
  have e: "elem mmap_layout (a + 24) (of_nat i) = elem mmap_layout a (of_nat (Suc i))" "elem mmap_layout a 0 = a" for i
    by (simp_all add: elem_def layout_sizes_debug algebra_simps)
  have st: "show_mmap_loop m lit (a + of_nat (24 * Suc n)) a s = show_mmap_loop m lit (a + of_nat (24 * Suc n)) (a + 24) (put_text (mmap_line m a) s)"
    by (subst show_mmap_loop.simps) (simp only: lt if_True Let_def p Option.bind.simps layout_sizes_debug)
  show ?case unfolding st unfolding fin IH upt_conv_Cons [of 0 "Suc n", OF zero_less_Suc] map_Suc_upt [symmetric]
    by (simp add: e o_def del: of_nat_Suc)
qed

end
