(* ===== verification/Sprite_Scheduler.thy ===== *)
theory Sprite_Scheduler
  imports Sprite_Heap
begin

text \<open>
  Kernel threads: \<open>include/task.h\<close>, \<open>include/scheduler.h\<close>, \<open>lib/kthread.cc\<close> and the context switch of
  \<open>lib/switch_to.s\<close>. Task structures form a circular list through their \<open>next\<close> pointers and are
  kept in a store that maps addresses to structures, the words of the kernel stacks in a store of
  words; the addresses come from the kernel heap, whose blocks do not overlap. A null pointer is
  address 0. A walk over the list need not end when the list is broken, so it is a partial function.
\<close>

section \<open>Tasks\<close>

datatype TaskState = kTaskUninit | kTaskSleeping | kTaskRunnable | kTaskZombie

record task_context =
  ctx_esp :: u32
  ctx_ebp :: u32
  ctx_ebx :: u32
  ctx_esi :: u32
  ctx_edi :: u32
  ctx_eflags :: u32

record task_struct =
  task_state :: TaskState
  task_pid :: u32
  task_kstack :: u32
  task_ctx :: task_context
  task_next :: u32

record scheduler =
  runnable_tasks :: u32
  running :: u32
  waiting_tasks :: u32
  pid_cnt :: u32
  sched_heap :: il_allocator
  tasks :: "u32 \<Rightarrow> task_struct"
  stack_words :: "u32 \<Rightarrow> u32"
  cpu :: task_context
  exit_messages :: "u32 list"

definition STACK_SIZE :: u32 where
  "STACK_SIZE = 0x1000"

definition zero_context :: task_context where
  "zero_context = \<lparr>ctx_esp = 0, ctx_ebp = 0, ctx_ebx = 0, ctx_esi = 0, ctx_edi = 0, ctx_eflags = 0\<rparr>"

text \<open>A task structure after \<open>bzero\<close>.\<close>

definition zero_task :: task_struct where
  "zero_task = \<lparr>task_state = kTaskUninit, task_pid = 0, task_kstack = 0, task_ctx = zero_context, task_next = 0\<rparr>"

definition upd_task :: "u32 \<Rightarrow> (task_struct \<Rightarrow> task_struct) \<Rightarrow> scheduler \<Rightarrow> scheduler" where
  "upd_task a f s = s\<lparr>tasks := (tasks s)(a := f (tasks s a))\<rparr>"

section \<open>The scheduler\<close>

text \<open>The constructor; \<open>kern_stack\<close> is the address of the boot stack, where the first task lives.\<close>

definition TaskScheduler :: "u32 \<Rightarrow> scheduler \<Rightarrow> scheduler" where
  "TaskScheduler kern_stack s =
     (let s = s\<lparr>pid_cnt := 0, runnable_tasks := 0, waiting_tasks := 0, running := kern_stack\<rparr>;
          s = upd_task (running s) (\<lambda>t. t\<lparr>task_state := kTaskRunnable, task_pid := pid_cnt s,
                task_kstack := running s, task_next := running s\<rparr>) s
      in s\<lparr>pid_cnt := pid_cnt s + 1, runnable_tasks := running s\<rparr>)"

text \<open>The loop \<open>while (cur->next != runnable_tasks_) cur = cur->next\<close> of \<open>submit\<close>.\<close>

partial_function (option) last_task :: "(u32 \<Rightarrow> task_struct) \<Rightarrow> u32 \<Rightarrow> u32 \<Rightarrow> u32 result option" where
  "last_task m head cur =
     (if cur = 0 then Some (Inl NullDeref)
      else if task_next (m cur) \<noteq> head then last_task m head (task_next (m cur))
      else Some (Inr cur))"

text \<open>\<open>submit\<close>; \<open>kthread_exit\<close> is the address of that function.\<close>

definition new_task :: "u32 \<Rightarrow> scheduler \<Rightarrow> task_struct" where
  "new_task p s = zero_task\<lparr>task_state := kTaskRunnable, task_kstack := running s, task_pid := pid_cnt s,
     task_ctx := zero_context\<lparr>ctx_esp := p + STACK_SIZE - 16, ctx_eflags := 0x200\<rparr>,
     task_next := runnable_tasks s\<rparr>"

definition submit :: "u32 \<Rightarrow> u32 \<Rightarrow> scheduler \<Rightarrow> (u32 \<times> scheduler) result option" where
  "submit kthread_exit fn s =
     Option.bind (kmalloc STACK_SIZE (sched_heap s)) (\<lambda>(p, h).
     if p = 0 then Some (Inl (AssertFail ''Scheduler submit error''))
     else
       let top = p + STACK_SIZE;
           s' = s\<lparr>sched_heap := h, tasks := (tasks s)(p := new_task p s), pid_cnt := pid_cnt s + 1,
                  stack_words := (stack_words s)(top - 4 := pid_cnt s, top - 8 := 0,
                    top - 12 := kthread_exit, top - 16 := fn)\<rparr>
       in Option.bind (last_task (tasks s') (runnable_tasks s') (runnable_tasks s')) (\<lambda>r.
          Some (rbind r (\<lambda>cur.
            Inr (task_pid (tasks s' p), upd_task cur (\<lambda>t. t\<lparr>task_next := p\<rparr>) s')))))"

text \<open>\<open>switch_to\<close> stores the registers of the processor in the first context and loads the second.\<close>

definition switch_to :: "u32 \<Rightarrow> u32 \<Rightarrow> scheduler \<Rightarrow> scheduler" where
  "switch_to prev target s =
     (let s = upd_task prev (\<lambda>t. t\<lparr>task_ctx := cpu s\<rparr>) s in s\<lparr>cpu := task_ctx (tasks s target)\<rparr>)"

definition change_task_to :: "u32 \<Rightarrow> scheduler \<Rightarrow> scheduler result" where
  "change_task_to target s =
     (if running s \<noteq> target
      then if target = 0 then Inl NullDeref
           else Inr (switch_to (running s) target (s\<lparr>running := target\<rparr>))
      else Inr s)"

definition schedule :: "scheduler \<Rightarrow> scheduler result" where
  "schedule s = (if running s \<noteq> 0 then change_task_to (task_next (tasks s (running s))) s else Inr s)"

partial_function (option) find_task :: "(u32 \<Rightarrow> task_struct) \<Rightarrow> u32 \<Rightarrow> u32 \<Rightarrow> u32 \<Rightarrow> u32 result option" where
  "find_task m head p res =
     (if res = 0 then Some (Inl NullDeref)
      else if task_pid (m res) = p then Some (Inr res)
      else let res = task_next (m res) in
           if res = 0 then Some (Inl NullDeref)
           else if task_next (m res) \<noteq> head then find_task m head p res
           else Some (Inr 0))"

text \<open>The loop of \<open>exit\<close> that looks for the task and its predecessor.\<close>

partial_function (option) find_prev :: "(u32 \<Rightarrow> task_struct) \<Rightarrow> u32 \<Rightarrow> u32 \<Rightarrow> u32 \<Rightarrow> (u32 \<times> u32) result option" where
  "find_prev m task prev cur =
     (if cur = task then Some (Inr (prev, cur))
      else if cur = 0 \<or> prev = 0 then Some (Inl NullDeref)
      else find_prev m task (task_next (m prev)) (task_next (m cur)))"

definition exit_task :: "u32 \<Rightarrow> scheduler \<Rightarrow> scheduler result option" where
  "exit_task task s =
     (if task = 0 \<or> runnable_tasks s = 0 then Some (Inl NullDeref)
      else
        let pid = task_pid (tasks s task); head = runnable_tasks s;
            finish = (\<lambda>s. Inr (s\<lparr>sched_heap := kfree task (sched_heap s), exit_messages := exit_messages s @ [pid]\<rparr>))
        in if task_next (tasks s head) = head
           then Some (finish ((upd_task head (\<lambda>t. t\<lparr>task_next := 0\<rparr>) s)\<lparr>running := 0\<rparr>))
           else map_option (\<lambda>r. rbind r (\<lambda>(prev, cur).
                  finish (upd_task prev (\<lambda>t. t\<lparr>task_next := task_next (tasks s cur)\<rparr>) s)))
                  (find_prev (tasks s) task head (task_next (tasks s head))))"

definition kill :: "u32 \<Rightarrow> scheduler \<Rightarrow> scheduler result option" where
  "kill p s =
     Option.bind (find_task (tasks s) (runnable_tasks s) p (runnable_tasks s)) (\<lambda>r.
     case r of Inl e \<Rightarrow> Some (Inl e) | Inr t \<Rightarrow> exit_task t s)"

section \<open>Kernel threads\<close>

definition init_kthread :: "u32 \<Rightarrow> scheduler \<Rightarrow> scheduler" where
  "init_kthread kern_stack s = TaskScheduler kern_stack s"

definition kthread :: "u32 \<Rightarrow> u32 \<Rightarrow> scheduler \<Rightarrow> (u32 \<times> scheduler) result option" where
  "kthread kthread_exit fn s = submit kthread_exit fn s"

definition kthread_schedule :: "scheduler \<Rightarrow> scheduler result" where
  "kthread_schedule s = schedule s"

definition kthread_exit :: "u32 \<Rightarrow> scheduler \<Rightarrow> scheduler result option" where
  "kthread_exit p s = kill p s"

definition test_kthread :: "u32 \<Rightarrow> u32 \<Rightarrow> u32 \<Rightarrow> scheduler \<Rightarrow> scheduler result option" where
  "test_kthread exit_addr thread1 thread2 s =
     Option.bind (kthread exit_addr thread1 s) (\<lambda>r. case r of Inl e \<Rightarrow> Some (Inl e)
     | Inr (_, s) \<Rightarrow> map_option (\<lambda>r. rbind r (\<lambda>(_, s). Inr s)) (kthread exit_addr thread2 s))"

section \<open>The circular list\<close>

definition linked :: "(u32 \<Rightarrow> task_struct) \<Rightarrow> u32 list \<Rightarrow> bool" where
  "linked m ts = successively (\<lambda>a b. task_next (m a) = b) ts"

definition ring :: "(u32 \<Rightarrow> task_struct) \<Rightarrow> u32 list \<Rightarrow> bool" where
  "ring m ts \<longleftrightarrow> ts \<noteq> [] \<and> distinct ts \<and> 0 \<notin> set ts \<and> linked m (ts @ [hd ts])"

lemma linked_simps [simp]:
  "linked m []" "linked m [a]" "linked m (a # b # ts) \<longleftrightarrow> task_next (m a) = b \<and> linked m (b # ts)"
  by (simp_all add: linked_def)

lemma linked_append:
  "linked m (xs @ a # ys) \<longleftrightarrow> linked m (xs @ [a]) \<and> linked m (a # ys)"
  by (induction xs rule: induct_list012) (auto simp: linked_def)

lemma linked_upd: "a \<notin> set (butlast ts) \<Longrightarrow> linked (m(a := t)) ts \<longleftrightarrow> linked m ts"
  by (induction ts rule: induct_list012) auto

lemma last_task_path:
  "linked m (a # ys @ [h]) \<Longrightarrow> h \<notin> set ys \<Longrightarrow> 0 \<notin> set (a # ys) \<Longrightarrow>
     last_task m h a = Some (Inr (last (a # ys)))"
  by (induction ys arbitrary: a) (subst last_task.simps; auto)+

lemma find_task_path:
  "linked m (a # ys @ [h]) \<Longrightarrow> ys \<noteq> [] \<Longrightarrow> h \<notin> set ys \<Longrightarrow> 0 \<notin> set (a # ys) \<Longrightarrow>
     find_task m h p a =
       Some (Inr (case find (\<lambda>t. task_pid (m t) = p) (a # butlast ys) of None \<Rightarrow> 0 | Some t \<Rightarrow> t))"
proof (induction ys arbitrary: a)
  case (Cons b ys)
  then show ?case by (cases ys) (subst find_task.simps; auto)+
qed simp

lemma find_prev_path:
  "linked m (prev # xs @ [t]) \<Longrightarrow> t \<notin> set xs \<Longrightarrow> 0 \<notin> set (prev # xs) \<Longrightarrow>
     find_prev m t prev (hd (xs @ [t])) = Some (Inr (last (prev # xs), t))"
proof (induction xs arbitrary: prev)
  case (Cons x xs)
  moreover have "task_next (m x) = hd (xs @ [t])" using Cons.prems by (cases xs) auto
  ultimately show ?case by (subst find_prev.simps) auto
qed (subst find_prev.simps, simp)

lemma ring_append:
  assumes "ring m ts" and "p \<notin> set ts" and "p \<noteq> 0" and "task_next n = hd ts"
  shows "ring ((m(p := n))(last ts := (m (last ts))\<lparr>task_next := p\<rparr>)) (ts @ [p])"
proof -
  obtain us l where ts: "ts = us @ [l]" using assms(1) by (cases ts rule: rev_exhaust) (auto simp: ring_def)
  let ?m = "(m(p := n))(l := (m l)\<lparr>task_next := p\<rparr>)"
  have d: "l \<noteq> p" "l \<notin> set us" "p \<notin> set us" using assms(1,2) by (auto simp: ring_def ts)
  have "linked m (us @ l # [hd ts])" using assms(1) by (simp add: ring_def ts)
  then have "linked m (us @ [l])" using linked_append [of m us l] by blast
  then have "linked ?m (us @ [l])" using d by (simp add: linked_upd)
  then have "linked ?m (us @ l # [p, hd ts])" using assms(4) d by (subst linked_append) simp
  then have "linked ?m ((ts @ [p]) @ [hd (ts @ [p])])" by (cases us) (simp_all add: ts)
  then show ?thesis using assms d by (auto simp: ring_def ts)
qed

lemma ring_remove:
  assumes "ring m (xs @ q # t # ys)"
  shows "ring (m(q := (m q)\<lparr>task_next := task_next (m t)\<rparr>)) (xs @ q # ys)"
proof -
  define h where "h = hd (xs @ [q])"
  let ?m = "m(q := (m q)\<lparr>task_next := task_next (m t)\<rparr>)"
  have hd: "hd (xs @ q # zs) = h" for zs by (cases xs) (auto simp: h_def)
  have "linked m (xs @ q # t # ys @ [h])" using assms by (simp add: ring_def hd)
  then have l: "linked m (xs @ [q])" "linked m (t # ys @ [h])"
    using linked_append [of m xs q "t # ys @ [h]"] by simp_all
  have d: "q \<notin> set xs" "q \<notin> set ys" using assms by (auto simp: ring_def)
  have "linked ?m (xs @ [q])" using l(1) d by (simp add: linked_upd)
  moreover have "task_next (m t) = hd (ys @ [h])" "linked m (ys @ [h])" using l(2) by (cases ys; simp)+
  then have "linked ?m (q # ys @ [h])" using d by (cases ys) (auto simp: linked_upd)
  ultimately have "linked ?m (xs @ q # ys @ [h])" by (subst linked_append) simp
  then show ?thesis using assms by (simp add: ring_def hd)
qed

lemma ring_nth:
  assumes "ring m ts" and "i < length ts"
  shows "task_next (m (ts ! i)) = ts ! (Suc i mod length ts)"
proof -
  have "task_next (m ((ts @ [hd ts]) ! i)) = (ts @ [hd ts]) ! Suc i"
    using assms unfolding ring_def linked_def successively_conv_nth by auto
  then show ?thesis using assms by (cases "Suc i = length ts") (auto simp: nth_append ring_def hd_conv_nth)
qed

lemma ring_cong:
  "ring m ts \<Longrightarrow> (\<And>t. t \<in> set ts \<Longrightarrow> task_next (m' t) = task_next (m t)) \<Longrightarrow> ring m' ts"
  unfolding ring_def linked_def successively_conv_nth by (auto simp: nth_append)

section \<open>The invariant\<close>

text \<open>The tasks of the circular list, the boot task first: every later one is the start of a live
  block of the heap, the boot task lies outside of it, and process numbers are distinct and below
  the counter.\<close>

definition task_list :: "u32 \<Rightarrow> scheduler \<Rightarrow> u32 list \<Rightarrow> bool" where
  "task_list kern s ts \<longleftrightarrow> ring (tasks s) ts \<and> runnable_tasks s = kern \<and> hd ts = kern
     \<and> il_invar (sched_heap s) \<and> 0 < mstart (sched_heap s)
     \<and> (kern < mstart (sched_heap s) \<or> mend (sched_heap s) \<le> kern)
     \<and> (\<forall>t\<in>set (tl ts). \<exists>len>0. (unat t, len) \<in> il_regions (sched_heap s))
     \<and> distinct (map (\<lambda>t. task_pid (tasks s t)) ts)
     \<and> (\<forall>t\<in>set ts. task_pid (tasks s t) < pid_cnt s)"

lemma task_list_Cons: "task_list kern s ts \<Longrightarrow> ts = kern # tl ts"
  by (cases ts) (auto simp: task_list_def ring_def)

lemma word_less_succ: "x + 1 \<noteq> 0 \<Longrightarrow> y \<le> x \<Longrightarrow> y < (x :: u32) + 1"
proof -
  assume "x + 1 \<noteq> 0" "y \<le> x"
  then have "unat (x + 1) = Suc (unat x)" using unatSuc [of x] by (simp add: add.commute)
  with \<open>y \<le> x\<close> show ?thesis by (simp add: word_less_nat_alt word_le_nat_alt)
qed

lemma pids_snoc:
  assumes "distinct (map f ts)" and "\<forall>t\<in>set ts. f t < c" and "c + 1 \<noteq> (0 :: u32)"
    and "\<And>t. t \<in> set ts \<Longrightarrow> g t = f t" and "g p = c"
  shows "distinct (map g (ts @ [p])) \<and> (\<forall>t\<in>set (ts @ [p]). g t < c + 1)"
proof -
  have "map g ts = map f ts" using assms(4) by (intro map_cong) auto
  then have "distinct (map g ts)" using assms(1) by (simp only:)
  moreover have "c \<notin> f ` set ts" using assms(2) by auto
  moreover have "\<forall>t\<in>set ts. g t < c + 1" using assms(2,4) word_less_succ [OF assms(3)] by (auto intro: less_imp_le)
  ultimately show ?thesis using assms(4,5) word_less_succ [OF assms(3), of c] by auto
qed

lemma fresh_task:
  assumes tl: "task_list kern s ts" and len: "0 < len"
    and ov: "\<forall>r\<in>il_regions (sched_heap s). \<not> overlap (unat p, len) r"
    and lo: "unat (mstart (sched_heap s)) \<le> unat p" and hi: "unat p + len \<le> unat (mend (sched_heap s))"
  shows "p \<notin> set ts" and "p \<noteq> 0"
proof -
  have "p \<noteq> kern" using tl lo hi len by (auto simp: task_list_def word_less_nat_alt word_le_nat_alt)
  moreover have "p \<notin> set (tl ts)"
  proof
    assume "p \<in> set (tl ts)"
    then obtain k where "0 < k" "(unat p, k) \<in> il_regions (sched_heap s)" using tl by (auto simp: task_list_def)
    with ov len show False by (fastforce simp: overlap_def)
  qed
  ultimately show "p \<notin> set ts" using task_list_Cons [OF tl] by (metis set_ConsD)
  show "p \<noteq> 0" using tl lo by (auto simp: task_list_def word_less_nat_alt)
qed

lemma ring_path:
  assumes "ring m ts"
  shows "linked m (hd ts # tl ts @ [hd ts])" and "hd ts \<notin> set (tl ts)" and "0 \<notin> set (hd ts # tl ts)"
  using assms by (cases ts; auto simp: ring_def)+

lemma submit_runs:
  assumes tl: "task_list kern s ts" and g: "il_grants STACK_SIZE (sched_heap s)"
    and pid: "pid_cnt s + 1 \<noteq> 0" and s': "s1 = s\<lparr>pid_cnt := pid_cnt s + 1\<rparr>"
  shows "\<exists>p h. kmalloc STACK_SIZE (sched_heap s) = Some (p, h) \<and> p \<notin> set ts \<and> p \<noteq> 0
    \<and> submit ex fn s = Some (Inr (pid_cnt s,
        s1\<lparr>sched_heap := h,
           tasks := ((tasks s)(p := new_task p s))(last ts := (tasks s (last ts))\<lparr>task_next := p\<rparr>),
           stack_words := (stack_words s)(p + STACK_SIZE - 4 := pid_cnt s, p + STACK_SIZE - 8 := 0,
             p + STACK_SIZE - 12 := ex, p + STACK_SIZE - 16 := fn)\<rparr>))
    \<and> task_list kern (s1\<lparr>sched_heap := h,
           tasks := ((tasks s)(p := new_task p s))(last ts := (tasks s (last ts))\<lparr>task_next := p\<rparr>)\<rparr>) (ts @ [p])"
proof -
  have inv: "il_invar (sched_heap s)" and ring: "ring (tasks s) ts" and hd: "runnable_tasks s = hd ts" "hd ts = kern"
    using tl by (auto simp: task_list_def)
  obtain p len h where h: "kmalloc STACK_SIZE (sched_heap s) = Some (p, h)" "il_invar h" "unat STACK_SIZE \<le> len"
    "il_regions h = insert (unat p, len) (il_regions (sched_heap s))"
    "\<forall>r\<in>il_regions (sched_heap s). \<not> overlap (unat p, len) r"
    "unat (mstart (sched_heap s)) \<le> unat p" "unat p + len \<le> unat (mend (sched_heap s))"
    using il_alloc_fresh [OF inv g] by (auto simp: kmalloc_def)
  have "0 < len" using h(3) by (simp add: STACK_SIZE_def)
  note fresh = fresh_task [OF tl this h(5,6,7)]
  let ?m = "(tasks s)(p := new_task p s)"
  let ?m' = "?m(last ts := (tasks s (last ts))\<lparr>task_next := p\<rparr>)"
  have "ring ?m ts" using ring fresh(1) by (auto intro: ring_cong)
  from ring_path [OF this] have "last_task ?m (hd ts) (hd ts) = Some (Inr (last (hd ts # tl ts)))"
    by (rule last_task_path)
  moreover have ts: "hd ts # tl ts = ts" "last ts \<in> set ts" "last ts \<noteq> p" using ring fresh(1) by (auto simp: ring_def)
  ultimately have sub: "submit ex fn s = Some (Inr (pid_cnt s, s1\<lparr>sched_heap := h, tasks := ?m',
      stack_words := (stack_words s)(p + STACK_SIZE - 4 := pid_cnt s, p + STACK_SIZE - 8 := 0,
             p + STACK_SIZE - 12 := ex, p + STACK_SIZE - 16 := fn)\<rparr>))"
    using h(1) fresh(2) hd(1) by (simp add: submit_def Let_def upd_task_def new_task_def s')
  have "ring ?m' (ts @ [p])"
    using ring_append [OF ring fresh, of "new_task p s"] hd by (simp add: new_task_def)
  have pids: "distinct (map (\<lambda>t. task_pid (?m' t)) (ts @ [p]))
    \<and> (\<forall>t\<in>set (ts @ [p]). task_pid (?m' t) < pid_cnt s + 1)"
    using tl fresh(1) ts(3) pid
    by (intro pids_snoc [of "\<lambda>t. task_pid (tasks s t)"]) (auto simp: task_list_def new_task_def)
  have "\<forall>t\<in>set (tl (ts @ [p])). \<exists>len>0. (unat t, len) \<in> il_regions h"
    using tl h(4) \<open>0 < len\<close> ring by (auto simp: task_list_def ring_def tl_append2)
  then have "task_list kern (s1\<lparr>sched_heap := h, tasks := ?m'\<rparr>) (ts @ [p])"
    using pids \<open>ring ?m' (ts @ [p])\<close> tl h(2) hd kmalloc_bounds [OF h(1)] ring
    by (simp add: task_list_def s' ring_def)
  with sub show ?thesis using h(1) fresh by blast
qed

lemma task_list_cong:
  assumes "task_list kern s ts"
    and "\<And>t. t \<in> set ts \<Longrightarrow> task_next (tasks s' t) = task_next (tasks s t) \<and> task_pid (tasks s' t) = task_pid (tasks s t)"
    and "runnable_tasks s' = runnable_tasks s" "sched_heap s' = sched_heap s" "pid_cnt s' = pid_cnt s"
  shows "task_list kern s' ts"
proof -
  have "map (\<lambda>t. task_pid (tasks s' t)) ts = map (\<lambda>t. task_pid (tasks s t)) ts"
    using assms(2) by (intro map_cong) auto
  then have "distinct (map (\<lambda>t. task_pid (tasks s' t)) ts)"
    using assms(1) by (simp only: task_list_def)
  moreover have "ring (tasks s') ts" using assms(1,2) by (auto simp: task_list_def intro: ring_cong)
  ultimately show ?thesis using assms unfolding task_list_def by auto
qed

lemma schedule_step:
  assumes tl: "task_list kern s ts" and i: "i < length ts" "running s = ts ! i"
  shows "\<exists>s'. schedule s = Inr s' \<and> task_list kern s' ts \<and> running s' = ts ! (Suc i mod length ts)
    \<and> (if length ts = 1 then s' = s
       else task_ctx (tasks s' (running s)) = cpu s \<and> cpu s' = task_ctx (tasks s (running s'))
         \<and> (\<forall>t. t \<noteq> running s \<longrightarrow> tasks s' t = tasks s t))"
proof -
  let ?b = "ts ! (Suc i mod length ts)"
  have ring: "ring (tasks s) ts" using tl by (simp add: task_list_def)
  have nz: "running s \<noteq> 0" "?b \<noteq> 0" using ring i by (auto simp: ring_def in_set_conv_nth)
  have nx: "task_next (tasks s (running s)) = ?b" using ring_nth [OF ring i(1)] i(2) by simp
  show ?thesis
  proof (cases "length ts = 1")
    case True
    then show ?thesis using tl i nz nx by (simp add: schedule_def change_task_to_def)
  next
    case False
    have "Suc i mod length ts \<noteq> i"
      using False i(1) by (cases "Suc i = length ts") auto
    moreover have "Suc i mod length ts < length ts" by (rule mod_less_divisor) (use i(1) in auto)
    ultimately have "?b \<noteq> running s" using ring i by (simp add: ring_def nth_eq_iff_index_eq)
    moreover let ?s' = "switch_to (running s) ?b (s\<lparr>running := ?b\<rparr>)"
    have "task_list kern ?s' ts"
      by (rule task_list_cong [OF tl]) (simp_all add: switch_to_def upd_task_def Let_def)
    ultimately show ?thesis using False nz nx
      by (simp add: schedule_def change_task_to_def switch_to_def upd_task_def Let_def)
  qed
qed

fun run_schedule :: "nat \<Rightarrow> scheduler \<Rightarrow> scheduler result" where
  "run_schedule 0 s = Inr s"
| "run_schedule (Suc k) s = rbind (kthread_schedule s) (run_schedule k)"

lemma run_schedule_position:
  "task_list kern s ts \<Longrightarrow> i < length ts \<Longrightarrow> running s = ts ! i \<Longrightarrow>
     \<exists>s'. run_schedule k s = Inr s' \<and> task_list kern s' ts \<and> running s' = ts ! ((i + k) mod length ts)"
proof (induction k arbitrary: s i)
  case (Suc k)
  from schedule_step [OF Suc.prems] obtain s1 where
    s1: "schedule s = Inr s1" "task_list kern s1 ts" "running s1 = ts ! (Suc i mod length ts)" by blast
  moreover have "Suc i mod length ts < length ts" by (rule mod_less_divisor) (use Suc.prems(2) in auto)
  moreover have "(Suc i mod length ts + k) mod length ts = (i + Suc k) mod length ts" by (simp add: mod_add_left_eq)
  ultimately show ?case using Suc.IH [of s1 "Suc i mod length ts"] by (simp add: kthread_schedule_def)
qed simp

lemma find_distinct:
  "distinct (map f xs) \<Longrightarrow> t \<in> set xs \<Longrightarrow> find (\<lambda>x. f x = f t) xs = Some t"
  by (induction xs) (auto simp: rev_image_eqI)

lemma kill_finds:
  assumes tl: "task_list kern s (kern # us @ t # ys)" and ys: "ys \<noteq> []"
  shows "kill (task_pid (tasks s t)) s = exit_task t s"
proof -
  let ?ts = "kern # us @ t # ys"
  have ring: "ring (tasks s) ?ts" and hd: "runnable_tasks s = kern"
    and pids: "distinct (map (\<lambda>t. task_pid (tasks s t)) ?ts)" using tl by (simp_all only: task_list_def)
  have bl: "kern # butlast (us @ t # ys) = kern # us @ t # butlast ys" using ys by (simp add: butlast_append)
  have "?ts = (kern # us @ t # butlast ys) @ [last ys]" using ys by simp
  then have "distinct (map (\<lambda>t. task_pid (tasks s t)) (kern # us @ t # butlast ys))"
    using pids by (metis distinct_append map_append)
  from find_distinct [OF this, of t] have "find_task (tasks s) kern (task_pid (tasks s t)) kern = Some (Inr t)"
    using find_task_path [of "tasks s" kern "us @ t # ys" kern] ring_path [OF ring] unfolding bl by simp
  then show ?thesis by (simp add: kill_def hd)
qed

lemma exit_unlinks:
  assumes tl: "task_list kern s (kern # us @ t # ys)" and q: "q = last (kern # us)"
  shows "exit_task t s = Some (Inr (s\<lparr>tasks := (tasks s)(q := (tasks s q)\<lparr>task_next := task_next (tasks s t)\<rparr>),
    sched_heap := kfree t (sched_heap s), exit_messages := exit_messages s @ [task_pid (tasks s t)]\<rparr>))"
proof -
  have ring: "ring (tasks s) (kern # us @ t # ys)" and hd: "runnable_tasks s = kern"
    using tl by (auto simp: task_list_def)
  have nz: "t \<noteq> 0" "kern \<noteq> 0" "0 \<notin> set us" and d: "t \<notin> set us" "kern \<notin> set us" "t \<noteq> kern"
    using ring by (auto simp: ring_def)
  have "linked (tasks s) ((kern # us) @ t # ys @ [kern])" using ring by (simp add: ring_def)
  then have l: "linked (tasks s) (kern # us @ [t])"
    using linked_append [of "tasks s" "kern # us" t "ys @ [kern]"] by simp
  then have nx: "task_next (tasks s kern) = hd (us @ [t])" by (cases us) auto
  moreover have "hd (us @ [t]) \<noteq> kern" using d by (cases us) auto
  moreover have "find_prev (tasks s) t kern (hd (us @ [t])) = Some (Inr (q, t))"
    using find_prev_path [OF l d(1)] nz q by simp
  ultimately show ?thesis using nz hd by (simp add: exit_task_def Let_def upd_task_def)
qed

lemma kill_unlinks:
  assumes tl: "task_list kern s (kern # us @ t # ys)" and rel: "il_releasable (unat t, len) (sched_heap s)"
    and q: "q = last (kern # us)"
    and s': "s' = s\<lparr>tasks := (tasks s)(q := (tasks s q)\<lparr>task_next := task_next (tasks s t)\<rparr>),
      sched_heap := kfree t (sched_heap s), exit_messages := exit_messages s @ [task_pid (tasks s t)]\<rparr>"
  shows "task_list kern s' (kern # us @ ys)"
proof -
  let ?h = "sched_heap s" and ?m = "(tasks s)(q := (tasks s q)\<lparr>task_next := task_next (tasks s t)\<rparr>)"
  have split: "kern # us = butlast (kern # us) @ [q]" using q by simp
  then have e: "kern # us @ zs = butlast (kern # us) @ q # zs" for zs
    by (metis append_Cons append_Nil append_assoc)
  have ring: "ring (tasks s) (kern # us @ t # ys)" and inv: "il_invar ?h" using tl by (auto simp: task_list_def)
  have "ring ?m (kern # us @ ys)" using ring_remove [OF ring [unfolded e]] unfolding e .
  moreover have pids: "task_pid (?m u) = task_pid (tasks s u)" for u by simp
  moreover have "t \<notin> set us" "t \<notin> set ys" using ring by (auto simp: ring_def)
  moreover have free: "il_invar (kfree t ?h)" "il_regions (kfree t ?h) = il_regions ?h - {(unat t, len)}"
    using il_free_removes [OF inv rel] by (simp_all add: kfree_def)
  moreover have "\<exists>k>0. (unat u, k) \<in> il_regions (kfree t ?h)" if "u \<in> set (us @ ys)" for u
  proof -
    have "u \<noteq> t" using that ring by (auto simp: ring_def)
    then have "unat u \<noteq> unat t" by (simp add: word_unat_eq_iff)
    with that tl free(2) show ?thesis by (auto simp: task_list_def)
  qed
  moreover have "distinct (map (\<lambda>u. task_pid (?m u)) (kern # us @ ys))" unfolding pids
    using tl by (auto simp: task_list_def)
  ultimately show ?thesis using tl by (simp add: task_list_def s' kfree_bounds)
qed

section \<open>Properties\<close>

lemma kthread_appends:
  assumes "task_list kern s ts" and "il_grants STACK_SIZE (sched_heap s)" and "pid_cnt s + 1 \<noteq> 0"
  shows "\<exists>p s'. kthread ex fn s = Some (Inr (pid_cnt s, s')) \<and> task_list kern s' (ts @ [p])
    \<and> running s' = running s \<and> task_state (tasks s' p) = kTaskRunnable \<and> task_pid (tasks s' p) = pid_cnt s
    \<and> (\<exists>esp. ctx_esp (task_ctx (tasks s' p)) = esp \<and> stack_words s' esp = fn \<and> stack_words s' (esp + 4) = ex
        \<and> stack_words s' (esp + 8) = 0 \<and> stack_words s' (esp + 12) = pid_cnt s)"
proof -
  obtain p h where r: "p \<notin> set ts" "submit ex fn s = Some (Inr (pid_cnt s,
      s\<lparr>pid_cnt := pid_cnt s + 1, sched_heap := h,
        tasks := ((tasks s)(p := new_task p s))(last ts := (tasks s (last ts))\<lparr>task_next := p\<rparr>),
        stack_words := (stack_words s)(p + STACK_SIZE - 4 := pid_cnt s, p + STACK_SIZE - 8 := 0,
          p + STACK_SIZE - 12 := ex, p + STACK_SIZE - 16 := fn)\<rparr>))"
      "task_list kern (s\<lparr>pid_cnt := pid_cnt s + 1, sched_heap := h,
        tasks := ((tasks s)(p := new_task p s))(last ts := (tasks s (last ts))\<lparr>task_next := p\<rparr>)\<rparr>) (ts @ [p])"
    using submit_runs [OF assms refl] by blast
  let ?s' = "s\<lparr>pid_cnt := pid_cnt s + 1, sched_heap := h,
        tasks := ((tasks s)(p := new_task p s))(last ts := (tasks s (last ts))\<lparr>task_next := p\<rparr>),
        stack_words := (stack_words s)(p + STACK_SIZE - 4 := pid_cnt s, p + STACK_SIZE - 8 := 0,
          p + STACK_SIZE - 12 := ex, p + STACK_SIZE - 16 := fn)\<rparr>"
  have "last ts \<noteq> p" using assms(1) r(1) by (auto simp: task_list_def ring_def)
  moreover have "task_list kern ?s' (ts @ [p])" using r(3) by (simp add: task_list_def)
  ultimately show ?thesis using r(2)
    by (intro exI [of _ p] exI [of _ ?s']) (simp add: kthread_def new_task_def zero_task_def)
qed

text \<open>C7. Creating a kernel thread appends it to the circular list of tasks: the call returns its new
  process number, the list keeps its order and gains one runnable task in a fresh heap block, and
  on that task's stack lie the entry point, the address of \<open>kthread_exit\<close> as its return address,
  a zero and the process number as the argument of \<open>kthread_exit\<close>.\<close>

theorem kthread_appends_task:
  assumes "task_list kern s ts" and "il_grants STACK_SIZE (sched_heap s)" and "pid_cnt s + 1 \<noteq> 0"
  shows "\<exists>p s'. kthread ex fn s = Some (Inr (pid_cnt s, s')) \<and> task_list kern s' (ts @ [p])
    \<and> running s' = running s \<and> task_state (tasks s' p) = kTaskRunnable \<and> task_pid (tasks s' p) = pid_cnt s
    \<and> (\<exists>esp. ctx_esp (task_ctx (tasks s' p)) = esp \<and> stack_words s' esp = fn \<and> stack_words s' (esp + 4) = ex
        \<and> stack_words s' (esp + 8) = 0 \<and> stack_words s' (esp + 12) = pid_cnt s)"
  by (rule kthread_appends [OF assms])

definition boot_scheduler :: scheduler where
  "boot_scheduler = init_kthread 0xC0104000 \<lparr>runnable_tasks = 0, running = 0, waiting_tasks = 0, pid_cnt = 0,
     sched_heap = init_heap (\<lambda>_. 0), tasks = (\<lambda>_. zero_task), stack_words = (\<lambda>_. 0), cpu = zero_context,
     exit_messages = []\<rparr>"

lemma init_kthread_list:
  assumes "il_invar (sched_heap s)" and "0 < mstart (sched_heap s)" and "kern \<noteq> 0"
    and "kern < mstart (sched_heap s) \<or> mend (sched_heap s) \<le> kern"
  shows "task_list kern (init_kthread kern s) [kern]"
  using assms by (simp add: task_list_def init_kthread_def TaskScheduler_def upd_task_def Let_def ring_def)

lemma boot_scheduler_list: "task_list 0xC0104000 boot_scheduler [0xC0104000]"
  unfolding boot_scheduler_def
  by (rule init_kthread_list) (simp_all add: init_heap_facts, simp_all add: init_heap_def ImplicitListAllocator_def kHeapStart_def)

theorem kthread_appends_task_witness:
  "\<exists>p s'. kthread 0xC0102000 0xC0103000 boot_scheduler = Some (Inr (pid_cnt boot_scheduler, s'))
    \<and> task_list 0xC0104000 s' [0xC0104000, p] \<and> task_state (tasks s' p) = kTaskRunnable"
proof -
  have "il_grants STACK_SIZE (sched_heap boot_scheduler)" "pid_cnt boot_scheduler + 1 \<noteq> 0"
    by (simp_all add: boot_scheduler_def init_kthread_def TaskScheduler_def upd_task_def Let_def STACK_SIZE_def
        init_heap_facts il_grants_def fits_def align2_def)
  from kthread_appends_task [OF boot_scheduler_list this, of "0xC0102000" "0xC0103000"] show ?thesis by auto
qed

text \<open>C8. Scheduling is round robin: from the task at position \<open>i\<close> of the circular list, \<open>k\<close> timer
  ticks always succeed and lead to the task at position \<open>i + k\<close> (modulo the number of tasks), so
  every task is reached within one round, and the list itself does not change.\<close>

theorem kthread_schedule_round_robin:
  assumes "task_list kern s ts" and "i < length ts" and "running s = ts ! i"
  shows "(\<exists>s'. run_schedule k s = Inr s' \<and> task_list kern s' ts \<and> running s' = ts ! ((i + k) mod length ts))
    \<and> (\<forall>t\<in>set ts. \<exists>n<length ts. \<exists>s'. run_schedule n s = Inr s' \<and> running s' = t)"
proof -
  have "\<exists>n<length ts. \<exists>s'. run_schedule n s = Inr s' \<and> running s' = t" if t: "t \<in> set ts" for t
  proof -
    obtain j where j: "j < length ts" "t = ts ! j" using t by (auto simp: in_set_conv_nth)
    let ?n = "(j + length ts - i) mod length ts"
    have "(i + ?n) mod length ts = (i + (j + length ts - i)) mod length ts" by (rule mod_add_right_eq)
    also have "\<dots> = j" using j(1) assms(2) by simp
    finally have "(i + ?n) mod length ts = j" .
    moreover have "?n < length ts" by (rule mod_less_divisor) (use j(1) in auto)
    ultimately show ?thesis using run_schedule_position [OF assms, of ?n] j(2) by metis
  qed
  then show ?thesis using run_schedule_position [OF assms] by blast
qed

definition example_task :: "u32 \<Rightarrow> u32 \<Rightarrow> u32 \<Rightarrow> task_struct" where
  "example_task pid esp nxt = zero_task\<lparr>task_state := kTaskRunnable, task_pid := pid,
     task_ctx := zero_context\<lparr>ctx_esp := esp\<rparr>, task_next := nxt\<rparr>"

definition example_task_heap :: il_allocator where
  "example_task_heap = \<lparr>mstart = 0x1000, mend = 0x1080,
     il_mem = write32 (write32 (write32 (\<lambda>_. 0) 0x1000 (40 OR 1)) 0x102C (40 OR 1)) 0x1058 36\<rparr>"

lemma example_task_heap_wf: "il_wf example_task_heap [(40, True), (40, True), (36, False)]"
  by (simp add: il_wf_def example_task_heap_def read32_def write32_def)

lemma example_task_heap_facts:
  "il_invar example_task_heap" "il_regions example_task_heap = {(0x1004, 40), (0x1030, 40)}"
  using il_wf_invar [OF example_task_heap_wf] il_wf_blocks [OF example_task_heap_wf]
  by (simp_all add: il_regions_def example_task_heap_def insert_commute)

text \<open>Three tasks: the boot task and two threads, the second of them running.\<close>

definition example_scheduler :: scheduler where
  "example_scheduler = \<lparr>runnable_tasks = 0xC0104000, running = 0x1004, waiting_tasks = 0, pid_cnt = 3,
     sched_heap = example_task_heap,
     tasks = (\<lambda>_. zero_task)(0xC0104000 := example_task 0 0xC0104F00 0x1004, 0x1004 := example_task 1 0x1FF0 0x1030,
       0x1030 := example_task 2 0x2FF0 0xC0104000),
     stack_words = (\<lambda>_. 0), cpu = zero_context\<lparr>ctx_esp := 0x1F00\<rparr>, exit_messages = []\<rparr>"

lemma example_scheduler_list: "task_list 0xC0104000 example_scheduler [0xC0104000, 0x1004, 0x1030]"
  by (simp add: task_list_def ring_def example_scheduler_def example_task_def zero_task_def example_task_heap_facts)
    (simp add: example_task_heap_def)

theorem kthread_schedule_round_robin_witness:
  "\<exists>s'. run_schedule 5 example_scheduler = Inr s' \<and> running s' = 0xC0104000"
  using kthread_schedule_round_robin [OF example_scheduler_list, of 1 5] by (auto simp: example_scheduler_def)

text \<open>A context switch loses no registers: with more than one task, a tick stores the processor's
  registers in the structure of the task that ran, loads those stored for its successor, and
  leaves the structures of all other tasks alone; with a single task nothing happens.\<close>

lemma kthread_schedule_switches:
  assumes "task_list kern s ts" and "i < length ts" and "running s = ts ! i"
  shows "\<exists>s'. kthread_schedule s = Inr s' \<and> running s' = ts ! (Suc i mod length ts)
    \<and> (if length ts = 1 then s' = s
       else task_ctx (tasks s' (running s)) = cpu s \<and> cpu s' = task_ctx (tasks s (running s'))
         \<and> (\<forall>t. t \<noteq> running s \<longrightarrow> tasks s' t = tasks s t))"
  using schedule_step [OF assms] unfolding kthread_schedule_def by blast

lemma kthread_schedule_switches_witness:
  "\<exists>s'. kthread_schedule example_scheduler = Inr s' \<and> running s' = 0x1030
    \<and> ctx_esp (task_ctx (tasks s' 0x1004)) = 0x1F00 \<and> ctx_esp (cpu s') = 0x2FF0"
  using kthread_schedule_switches [OF example_scheduler_list, of 1]
  by (auto simp: example_scheduler_def example_task_def)

text \<open>C9. The exit of a task that is neither first nor last in the list removes exactly this task from
  the list, frees its block and reports it; when the task is the running one, the next tick still
  goes on to its successor in the list.\<close>

theorem kthread_exit_removes_task:
  assumes "task_list kern s (kern # us @ t # y # ys)" and "il_releasable (unat t, len) (sched_heap s)"
  shows "\<exists>s'. kthread_exit (task_pid (tasks s t)) s = Some (Inr s')
    \<and> task_list kern s' (kern # us @ y # ys) \<and> running s' = running s
    \<and> il_regions (sched_heap s') = il_regions (sched_heap s) - {(unat t, len)}
    \<and> exit_messages s' = exit_messages s @ [task_pid (tasks s t)]
    \<and> (running s = t \<longrightarrow> (\<exists>s''. kthread_schedule s' = Inr s'' \<and> running s'' = y))"
proof -
  let ?q = "last (kern # us)"
  let ?s = "s\<lparr>tasks := (tasks s)(?q := (tasks s ?q)\<lparr>task_next := task_next (tasks s t)\<rparr>),
    sched_heap := kfree t (sched_heap s), exit_messages := exit_messages s @ [task_pid (tasks s t)]\<rparr>"
  have ring: "ring (tasks s) (kern # us @ t # y # ys)" and inv: "il_invar (sched_heap s)"
    using assms(1) by (auto simp: task_list_def)
  have "kthread_exit (task_pid (tasks s t)) s = Some (Inr ?s)"
    using kill_finds [OF assms(1)] exit_unlinks [OF assms(1) refl] by (simp add: kthread_exit_def)
  moreover have "task_list kern ?s (kern # us @ y # ys)" by (rule kill_unlinks [OF assms refl refl])
  moreover have "il_regions (kfree t (sched_heap s)) = il_regions (sched_heap s) - {(unat t, len)}"
    using il_free_removes [OF inv assms(2)] by (simp add: kfree_def)
  moreover have "\<exists>s''. kthread_schedule ?s = Inr s'' \<and> running s'' = y" if "running s = t"
  proof -
    have "t \<noteq> ?q" "t \<noteq> 0" "y \<noteq> 0" "t \<noteq> y" using ring by (auto simp: ring_def split: if_splits)
    moreover have "linked (tasks s) ((kern # us) @ t # y # ys @ [kern])" using ring by (simp add: ring_def)
    then have "task_next (tasks s t) = y" using linked_append [of "tasks s" "kern # us" t "y # ys @ [kern]"] by simp
    ultimately show ?thesis using that
      by (simp add: kthread_schedule_def schedule_def change_task_to_def switch_to_def upd_task_def Let_def)
  qed
  ultimately show ?thesis by (intro exI [of _ ?s]) simp
qed

theorem kthread_exit_removes_task_witness:
  "\<exists>s'. kthread_exit 1 example_scheduler = Some (Inr s') \<and> task_list 0xC0104000 s' [0xC0104000, 0x1030]
    \<and> il_regions (sched_heap s') = {(0x1030, 40)}
    \<and> (\<exists>s''. kthread_schedule s' = Inr s'' \<and> running s'' = 0x1030)"
proof -
  have "il_releasable (unat (0x1004 :: u32), 40) (sched_heap example_scheduler)"
    by (simp add: example_scheduler_def il_releasable_def example_task_heap_facts)
      (simp add: example_task_heap_def)
  moreover have "task_list 0xC0104000 example_scheduler (0xC0104000 # [] @ 0x1004 # 0x1030 # [])"
    using example_scheduler_list by simp
  moreover have "task_pid (tasks example_scheduler 0x1004) = 1" "running example_scheduler = 0x1004"
    "il_regions (sched_heap example_scheduler) - {(0x1004, 40)} = {(0x1030, 40)}"
    by (simp_all add: example_scheduler_def example_task_def example_task_heap_facts)
  ultimately show ?thesis using kthread_exit_removes_task [of "0xC0104000" example_scheduler "[]" "0x1004" "0x1030" "[]" 40]
    by fastforce
qed

text \<open>C39. The search for a task by its number stops before the last task of the list: the exit of the
  most recently created thread, like that of an unknown number, follows a null pointer.\<close>

theorem kthread_exit_last_task:
  assumes "task_list kern s (kern # us @ [t])"
    and "p = task_pid (tasks s t) \<or> (\<forall>u\<in>set (kern # us @ [t]). task_pid (tasks s u) \<noteq> p)"
  shows "kthread_exit p s = Some (Inl NullDeref)"
proof -
  have ring: "ring (tasks s) (kern # us @ [t])" and hd: "runnable_tasks s = kern"
    and pids: "distinct (map (\<lambda>u. task_pid (tasks s u)) (kern # us @ [t]))" using assms(1) by (simp_all only: task_list_def)
  have "find (\<lambda>u. task_pid (tasks s u) = p) (kern # us) = None"
    using assms(2) pids by (fastforce simp: find_None_iff image_iff)
  then have "find_task (tasks s) kern p kern = Some (Inr 0)"
    using find_task_path [of "tasks s" kern "us @ [t]" kern p] ring_path [OF ring] by (simp del: find.simps)
  then show ?thesis by (simp add: kthread_exit_def kill_def hd exit_task_def)
qed

theorem kthread_exit_last_task_witness:
  "kthread_exit 2 example_scheduler = Some (Inl NullDeref)"
proof (rule kthread_exit_last_task)
  show "task_list 0xC0104000 example_scheduler (0xC0104000 # [0x1004] @ [0x1030])"
    using example_scheduler_list by simp
qed (simp add: example_scheduler_def example_task_def)

end
