(* ===== verification/Sprite_Keyboard.thy ===== *)
theory Sprite_Keyboard
  imports Sprite_Printk Sprite_Descriptors
begin

text \<open>
  The keyboard driver of \<open>lib/keyboard.cc\<close>: the table of characters, the state of the modifier
  keys and the handler of scan codes. The scan code is what \<open>inb(0x60)\<close> returned, an input of the
  model. Characters are signed bytes and their arithmetic wraps.
\<close>

section \<open>State\<close>

definition keyboard_table :: "u8 list" where
  "keyboard_table =
     [0, 27, 0x31, 0x32, 0x33, 0x34, 0x35, 0x36, 0x37, 0x38, 0x39, 0x30,
      0x2D, 0x3D, 8, 9,
      0x71, 0x77, 0x65, 0x72, 0x74, 0x79, 0x75, 0x69, 0x6F, 0x70, 0x5B, 0x5D, 10,
      0, 0x61, 0x73, 0x64, 0x66, 0x67, 0x68, 0x6A, 0x6B, 0x6C, 0x3B, 0x27,
      0x60, 0,
      0x5C, 0x7A, 0x78, 0x63, 0x76, 0x62, 0x6E, 0x6D, 0x2C, 0x2E, 0x2F, 0, 0x2A,
      0,
      0x20]"

text \<open>The array has 128 elements; those without an initialiser are zero.\<close>

definition keyboard :: "nat \<Rightarrow> u8" where
  "keyboard k = (if k < length keyboard_table then keyboard_table ! k else 0)"

record KeyBoard =
  is_shifting :: bool
  is_ctrling :: bool
  is_capslock :: bool

section \<open>Operations\<close>

definition IsRelease :: "u8 \<Rightarrow> bool" where
  "IsRelease k \<longleftrightarrow> k AND 0x80 \<noteq> 0"

definition IsPress :: "u8 \<Rightarrow> bool" where
  "IsPress k \<longleftrightarrow> \<not> IsRelease k"

definition IsShift :: "u8 \<Rightarrow> bool" where
  "IsShift k \<longleftrightarrow> k AND 0x7F = 42 \<or> k AND 0x7F = 54"

definition IsCtrl :: "u8 \<Rightarrow> bool" where
  "IsCtrl k \<longleftrightarrow> k AND 0x7F = 29"

definition IsCapslock :: "u8 \<Rightarrow> bool" where
  "IsCapslock k \<longleftrightarrow> k AND 0x7F = 58"

text \<open>The character of a key press: the arithmetic on \<open>res\<close>, with \<open>'A' - 'a'\<close> as written.\<close>

definition adjust_char :: "bool \<Rightarrow> bool \<Rightarrow> u8 \<Rightarrow> u8" where
  "adjust_char capslock shifting res =
     (let res = (if capslock then res + (0x41 - 0x61) else res)
      in if shifting
         then if sint (0x61 :: u8) \<le> sint res \<and> sint res \<le> sint (0x7A :: u8)
              then res + (0x41 - 0x61) else res - (0x41 - 0x61)
         else res)"

definition typed_char :: "KeyBoard \<Rightarrow> u8 \<Rightarrow> u8" where
  "typed_char kb k = adjust_char (is_capslock kb) (is_shifting kb) (keyboard (unat k))"

definition TypeIn :: "u8 \<Rightarrow> KeyBoard \<Rightarrow> u8 \<times> KeyBoard" where
  "TypeIn k kb =
     (if IsShift k then (0, kb\<lparr>is_shifting := (if IsRelease k then False else True)\<rparr>)
      else if IsCtrl k then (0, kb\<lparr>is_ctrling := (if IsRelease k then False else True)\<rparr>)
      else if IsCapslock k
      then (0, if IsPress k then kb\<lparr>is_capslock := (if is_capslock kb then False else True)\<rparr> else kb)
      else if IsRelease k then (0, kb)
      else (typed_char kb k, kb))"

text \<open>The interrupt handler; \<open>fmt\<close> is the address of its format literal in memory \<open>m\<close>.\<close>

definition run_keyboard_isr ::
    "mem \<Rightarrow> u32 \<Rightarrow> u8 \<Rightarrow> KeyBoard \<times> console \<Rightarrow> (KeyBoard \<times> console) option" where
  "run_keyboard_isr m fmt k st =
     (let (ch, kb) = TypeIn k (fst st) in
      if ch \<noteq> 0 then map_option (\<lambda>c. (kb, c)) (printk m fmt [ArgChar ch] (snd st))
      else Some (kb, snd st))"

definition init_keyboard :: "idt \<Rightarrow> idt" where
  "init_keyboard t = register_isr 33 keyboard_isr t"

section \<open>Modifier keys over a run of scan codes\<close>

definition key_run :: "u8 list \<Rightarrow> KeyBoard \<Rightarrow> KeyBoard" where
  "key_run ks kb = fold (\<lambda>k kb. snd (TypeIn k kb)) ks kb"

lemma key_run_simps [simp]:
  "key_run [] kb = kb" "key_run (ks @ [k]) kb = snd (TypeIn k (key_run ks kb))"
  by (simp_all add: key_run_def)

definition last_event :: "(u8 \<Rightarrow> bool) \<Rightarrow> u8 list \<Rightarrow> bool \<Rightarrow> bool" where
  "last_event P ks v = (if filter P ks = [] then v else IsPress (last (filter P ks)))"

lemma last_event_snoc [simp]:
  "last_event P [] v = v" "last_event P (ks @ [k]) v = (if P k then IsPress k else last_event P ks v)"
  by (simp_all add: last_event_def)

lemma TypeIn_state:
  "is_shifting (snd (TypeIn k kb)) = (if IsShift k then IsPress k else is_shifting kb)"
  "is_ctrling (snd (TypeIn k kb)) = (if IsCtrl k then IsPress k else is_ctrling kb)"
  "is_capslock (snd (TypeIn k kb)) = (is_capslock kb \<noteq> (IsCapslock k \<and> IsPress k))"
  by (auto simp: TypeIn_def IsPress_def IsShift_def IsCtrl_def IsCapslock_def)

lemma key_run_flags:
  "is_shifting (key_run ks kb) = last_event IsShift ks (is_shifting kb)"
  "is_ctrling (key_run ks kb) = last_event IsCtrl ks (is_ctrling kb)"
  "is_capslock (key_run ks kb) = (is_capslock kb \<noteq> odd (length (filter (\<lambda>k. IsCapslock k \<and> IsPress k) ks)))"
  by (induction ks rule: rev_induct) (auto simp: TypeIn_state)

section \<open>Typed characters\<close>

definition lower :: "u8 \<Rightarrow> bool" where
  "lower c \<longleftrightarrow> 0x61 \<le> c \<and> c \<le> 0x7A"

definition case_char :: "bool \<Rightarrow> bool \<Rightarrow> u8 \<Rightarrow> u8" where
  "case_char capslock shifting c =
     (if lower c then if shifting \<noteq> capslock then c - 0x20 else c
      else c - (if capslock then 0x20 else 0) + (if shifting then 0x20 else 0))"

lemma table_chars: "list_all (\<lambda>c. adjust_char capslock shifting c = case_char capslock shifting c) (0 # keyboard_table)"
  unfolding keyboard_table_def
  by (cases capslock; cases shifting) (simp_all add: adjust_char_def case_char_def lower_def)

lemma typed_char_cases: "typed_char kb k = case_char (is_capslock kb) (is_shifting kb) (keyboard (unat k))"
proof -
  have "keyboard (unat k) \<in> set (0 # keyboard_table)" by (simp add: keyboard_def)
  with table_chars [of "is_capslock kb" "is_shifting kb"] show ?thesis
    by (simp only: typed_char_def list_all_iff)
qed

section \<open>Properties\<close>

text \<open>The modifier flags follow the keys: after any sequence of scan codes, shift (and control)
  is on exactly when the last event of such a key was a press, and caps lock is toggled by every
  press of its key.\<close>

lemma keyboard_modifiers:
  "is_shifting (key_run ks kb) = last_event IsShift ks (is_shifting kb)
   \<and> is_ctrling (key_run ks kb) = last_event IsCtrl ks (is_ctrling kb)
   \<and> is_capslock (key_run ks kb) =
       (is_capslock kb \<noteq> odd (length (filter (\<lambda>k. IsCapslock k \<and> IsPress k) ks)))"
  using key_run_flags by simp

text \<open>C34. A key that is no modifier types its character when it is pressed and nothing when it is
  released. A letter is upper case exactly when one of shift and caps lock is on. Every other
  character is moved by caps lock and shift as well: shift adds 32 to its code (shift and \<open>1\<close> type
  \<open>Q\<close>), caps lock subtracts 32. The handler prints what was typed.\<close>

theorem keyboard_types:
  assumes "\<not> IsShift k" and "\<not> IsCtrl k" and "\<not> IsCapslock k" and "cstr m fmt [0x25, 0x63]"
    and ch: "ch = (if IsRelease k then 0
      else case_char (is_capslock kb) (is_shifting kb) (keyboard (unat k)))"
  shows "TypeIn k kb = (ch, kb)
    \<and> run_keyboard_isr m fmt k (kb, c) =
        Some (kb, if ch = 0 then c else console_putc rc_black rc_white ch c)"
proof -
  have "TypeIn k kb = (ch, kb)"
    using assms typed_char_cases [of kb k] by (simp add: TypeIn_def)
  moreover have "printk m fmt [ArgChar ch] c = Some (console_putc rc_black rc_white ch c)"
    using printk_prints [OF assms(4), of "\<lambda>_. []" "[ArgChar ch]" c]
    by (simp add: arg_ok_def directive_text_def arg_text_def)
  ultimately show ?thesis by (simp add: run_keyboard_isr_def)
qed

theorem keyboard_types_witness:
  "TypeIn 30 \<lparr>is_shifting = True, is_ctrling = False, is_capslock = False\<rparr> =
     (0x41, \<lparr>is_shifting = True, is_ctrling = False, is_capslock = False\<rparr>)
   \<and> TypeIn 2 \<lparr>is_shifting = True, is_ctrling = False, is_capslock = False\<rparr> =
     (0x51, \<lparr>is_shifting = True, is_ctrling = False, is_capslock = False\<rparr>)"
proof -
  have "cstr ((\<lambda>_. 0)(0x100 := 0x25, 0x101 := 0x63)) 0x100 [0x25, 0x63]" by simp
  note w = keyboard_types [OF _ _ _ this refl, of _ "\<lparr>is_shifting = True, is_ctrling = False, is_capslock = False\<rparr>"
      example_console]
  show ?thesis using w [of 30] w [of 2]
    by (simp add: IsShift_def IsCtrl_def IsCapslock_def IsRelease_def case_char_def lower_def keyboard_def keyboard_table_def)
qed

end
