(* ===== verification/Sprite_Timer.thy ===== *)
theory Sprite_Timer
  imports Sprite_Descriptors
begin

text \<open>
  The programmable interval timer of \<open>lib/timer.cc\<close>. Its interrupt handler only calls the
  scheduler. The divisor is computed at 32 bits, and a frequency of zero is a division by zero.
\<close>

definition init_timer :: "u32 \<Rightarrow> idt \<Rightarrow> (idt \<times> port_write list) result" where
  "init_timer frequency t =
     (let t = register_isr 32 timer_callback t in
      if frequency = 0 then Inl DivideError
      else let divisor = 1193180 div frequency;
               low = ucast (divisor AND 0xFF);
               high = ucast (drop_bit 8 divisor AND 0xFF)
           in Inr (t, [(0x43, 0x36), (0x40, low), (0x40, high)]))"

text \<open>The reload value the timer holds after the low and the high byte.\<close>

definition reload :: "port_write list \<Rightarrow> nat" where
  "reload ps = (case map snd (filter (\<lambda>p. fst p = 0x40) ps) of [lo, hi] \<Rightarrow> unat lo + 256 * unat hi | _ \<Rightarrow> 0)"

text \<open>C35. \<open>init_timer\<close> registers the timer's handler at vector 32 and loads the timer with
  1193180 divided by the frequency, of which only 16 bits reach the device: the quotient is exact
  from 19 Hz on, below that it is truncated. A frequency of zero is a division by zero.\<close>

theorem init_timer_divisor:
  assumes "f \<noteq> 0"
  shows "\<exists>t' ps. init_timer f t = Inr (t', ps) \<and> interrupt_handlers t' 32 = Some timer_callback
    \<and> reload ps = 1193180 div unat f mod 65536
    \<and> (19 \<le> unat f \<longrightarrow> reload ps = 1193180 div unat f)
    \<and> init_timer 0 t = Inl DivideError"
proof -
  let ?d = "1193180 div f :: u32"
  have d: "unat ?d = 1193180 div unat f" by (simp add: unat_div)
  have hi: "unat (drop_bit 8 ?d) = 1193180 div unat f div 256"
    by (simp only: drop_bit_eq_div) (simp add: unat_div)
  have "reload [(0x43, 0x36), (0x40, ucast (?d AND 0xFF)), (0x40, ucast (drop_bit 8 ?d AND 0xFF))] =
      1193180 div unat f mod 65536"
    using mod_mult2_eq [of "1193180 div unat f" 256 256]
    by (simp add: reload_def byte_of_word hi d)
  moreover have "1193180 div unat f < 65536" if "19 \<le> unat f"
    using div_le_mono2 [OF _ that, of 1193180] by simp
  ultimately show ?thesis using assms by (simp add: init_timer_def register_isr_def Let_def)
qed

theorem init_timer_divisor_witness:
  "\<exists>t' ps. init_timer 18 example_idt = Inr (t', ps) \<and> reload ps = 751 \<and> 1193180 div unat (18 :: u32) = 66287"
  using init_timer_divisor [of 18 example_idt] by auto

end
