(* ===== verification/Sprite_Kernel.thy ===== *)
theory Sprite_Kernel
  imports Sprite_Debug Sprite_Scheduler Sprite_Keyboard Sprite_Timer Sprite_Fs
begin

text \<open>
  The kernel as a whole: the entry code of \<open>init/entry.cc\<close>, the order of initialisation in
  \<open>kern_init\<close>, and the dispatch of interrupts of \<open>lib/idt.cc\<close> to the handlers of the components.
  The state puts the components' states together. The heap and the console exist once, in the state
  of the file system; the scheduler works on that heap.
\<close>

section \<open>State\<close>

text \<open>What the kernel does to the hardware and to its tasks, in order: a byte that is written to a port, and the
  processor that is handed to a task.\<close>

datatype k_event = Port u16 u8 | Switch u32

definition port_events :: "port_write list \<Rightarrow> k_event list" where
  "port_events = map (\<lambda>(p, v). Port p v)"

record kernel =
  k_elf :: elf_t
  k_gdt :: "nat \<Rightarrow> gdt_entry_t"
  k_gdt_ptr :: gdt_ptr_t
  k_idt :: idt
  k_trace :: "k_event list"
  k_pmm :: pmm
  k_dict :: page_dictionary
  k_cr3 :: u32
  k_keyboard :: KeyBoard
  k_sched :: scheduler
  k_fs :: fs

text \<open>What the linker fixes: the addresses of statics and code, and the size of the kernel. \<open>ide_buf\<close> is
  the buffer that \<open>ide_init\<close> has on its stack.\<close>

record kernel_image =
  im_fs :: fs_image
  im_dict :: u32
  im_stack :: u32
  im_gdt :: u32
  im_idt :: u32
  im_stub :: "nat \<Rightarrow> u32"
  im_size :: u32
  im_ide_buf :: u32
  im_exit :: u32

text \<open>What a handler reads from the hardware: the faulting address and the scan code.\<close>

record hw_input =
  hw_cr2 :: u32
  hw_key :: u8

definition set_con :: "console \<Rightarrow> kernel \<Rightarrow> kernel" where
  "set_con c k = k\<lparr>k_fs := (k_fs k)\<lparr>fs_con := c\<rparr>\<rparr>"

definition k_printk :: "kernel_image \<Rightarrow> string \<Rightarrow> printk_arg list \<Rightarrow> kernel \<Rightarrow> kernel result option" where
  "k_printk im fmt args k =
     map_option (\<lambda>c. Inr (set_con c k)) (printk (fs_mem (k_fs k)) (literal (im_fs im) fmt) args (fs_con (k_fs k)))"

definition the_sched :: "kernel \<Rightarrow> scheduler" where
  "the_sched k = (k_sched k)\<lparr>sched_heap := lru_heap (k_fs k)\<rparr>"

definition set_sched :: "scheduler \<Rightarrow> kernel \<Rightarrow> kernel" where
  "set_sched s k = k\<lparr>k_sched := s, k_fs := (k_fs k)\<lparr>lru_heap := sched_heap s\<rparr>\<rparr>"

section \<open>Interrupts\<close>

text \<open>\<open>change_task_to\<close> switches only to a task that is not the running one.\<close>

definition switch_event :: "u32 \<Rightarrow> u32 \<Rightarrow> k_event list" where
  "switch_event old new = (if new = old then [] else [Switch new])"

definition run_handler :: "kernel_image \<Rightarrow> hw_input \<Rightarrow> handler \<Rightarrow> pt_regs \<Rightarrow> kernel \<Rightarrow> kernel result option" where
  "run_handler im hw h regs k = (case h of
       page_fault_handler \<Rightarrow> Some (rbind (handle_page_fault (im_dict im) (hw_cr2 hw) regs (k_dict k, k_pmm k))
         (\<lambda>(d, m). Inr (k\<lparr>k_dict := d, k_pmm := m\<rparr>)))
     | timer_callback \<Rightarrow> Some (rbind (kthread_schedule (the_sched k)) (\<lambda>s.
         Inr (set_sched s (k\<lparr>k_trace := k_trace k @ switch_event (running (k_sched k)) (running s)\<rparr>))))
     | keyboard_isr \<Rightarrow> map_option (\<lambda>(kb, c). Inr (set_con c (k\<lparr>k_keyboard := kb\<rparr>)))
         (run_keyboard_isr (fs_mem (k_fs k)) (literal (im_fs im) ''%c'') (hw_key hw) (k_keyboard k, fs_con (k_fs k))))"

text \<open>The handler table has 256 entries; an interrupt number is any word.\<close>

definition isr_dispatcher :: "kernel_image \<Rightarrow> hw_input \<Rightarrow> pt_regs \<Rightarrow> kernel \<Rightarrow> kernel result option" where
  "isr_dispatcher im hw regs k =
     (if INTERRUPT_NUM \<le> unat (int_no regs) then Some (Inl OutOfBounds)
      else case interrupt_handlers (k_idt k) (unat (int_no regs)) of
        Some h \<Rightarrow> run_handler im hw h regs k
      | None \<Rightarrow> k_printk im (''Unhandled interrupt: %d'' @ nl) [ArgNum (int_no regs)] k)"

definition irq_dispatcher :: "kernel_image \<Rightarrow> hw_input \<Rightarrow> pt_regs \<Rightarrow> kernel \<Rightarrow> kernel result option" where
  "irq_dispatcher im hw regs k =
     (let k = (if 40 \<le> int_no regs then k\<lparr>k_trace := k_trace k @ [Port 0xA0 0x20]\<rparr> else k);
          k = k\<lparr>k_trace := k_trace k @ [Port 0x20 0x20]\<rparr>
      in if INTERRUPT_NUM \<le> unat (int_no regs) then Some (Inl OutOfBounds)
         else case interrupt_handlers (k_idt k) (unat (int_no regs)) of
           Some h \<Rightarrow> run_handler im hw h regs k
         | None \<Rightarrow> Some (Inr k))"

section \<open>Accesses to memory\<close>

text \<open>A load or a store: when the page is not mapped the processor raises a page fault, whose error code
  tells a store from a load, and tries again after the handler. \<open>regs\<close> are the other registers.\<close>

definition mem_access :: "kernel_image \<Rightarrow> pt_regs \<Rightarrow> bool \<Rightarrow> u32 \<Rightarrow> kernel \<Rightarrow> kernel result option" where
  "mem_access im regs wr addr k =
     (if pd_mapped (im_dict im) (k_dict k) addr then Some (Inr k)
      else isr_dispatcher im \<lparr>hw_cr2 = addr, hw_key = 0\<rparr> (regs\<lparr>int_no := 14, err_code := if wr then PAGE_WRITE else 0\<rparr>) k)"

definition tick_regs :: "u32 \<Rightarrow> u32 \<Rightarrow> pt_regs" where
  "tick_regs n err = \<lparr>ds = 0, edi = 0, esi = 0, ebp = 0, esp = 0, ebx = 0, edx = 0, ecx = 0, eax = 0, int_no = n,
     err_code = err, eip = 0, cs = 0, eflags = 0, useresp = 0, ss = 0\<rparr>"

text \<open>The heap lies outside of the 4 MB that \<open>init_vmm\<close> maps, so its pages are mapped by the faults that the
  first accesses raise. An operation of the initialisation that works on the heap is followed by the faults it
  has taken: on the header of every block and on the whole of every allocated block, one address for each page.
  The handler changes the page dictionary and the free pages only, which the operation does not use, so nothing
  depends on when a fault is taken.\<close>

definition span_addrs :: "nat \<Rightarrow> nat \<Rightarrow> u32 list" where
  "span_addrs a n = of_nat a # map (\<lambda>i. of_nat (i * 0x1000)) [Suc (a div 0x1000)..<Suc ((a + n - 1) div 0x1000)]"

fun used_addrs :: "nat \<Rightarrow> blk list \<Rightarrow> u32 list" where
  "used_addrs a [] = []"
| "used_addrs a ((n, alloc) # bs) = span_addrs a (if alloc then 4 + n else 4) @ used_addrs (a + 4 + n) bs"

definition heap_addrs :: "il_allocator \<Rightarrow> u32 list" where
  "heap_addrs h = used_addrs (unat (mstart h)) (il_blocks h)"

fun touch_all :: "kernel_image \<Rightarrow> u32 list \<Rightarrow> kernel \<Rightarrow> kernel result option" where
  "touch_all im [] k = Some (Inr k)"
| "touch_all im (a # as) k = robind (mem_access im (tick_regs 14 0) True a k) (touch_all im as)"

definition touch_heap :: "kernel_image \<Rightarrow> kernel \<Rightarrow> kernel result option" where
  "touch_heap im k = touch_all im (heap_addrs (lru_heap (k_fs k))) k"

section \<open>Entry and initialisation\<close>

text \<open>The temporary page tables of \<open>kern_entry\<close>, in physical memory.\<close>

definition pde_tmp :: u32 where "pde_tmp = 0x1000"
definition pte_low :: u32 where "pte_low = 0x2000"
definition pte_high :: u32 where "pte_high = 0x3000"

definition PGD_INDEX :: "u32 \<Rightarrow> u32" where
  "PGD_INDEX x = drop_bit 22 x AND 0x3FF"

definition tmp_entry :: "nat \<Rightarrow> mem \<Rightarrow> mem" where
  "tmp_entry i m = (let v = push_bit 12 (of_nat i) OR PAGE_PRESENT OR PAGE_WRITE in
     write32 (write32 m (pte_low + 4 * of_nat i) v) (pte_high + 4 * of_nat i) v)"

definition kern_entry_tables :: "mem \<Rightarrow> mem" where
  "kern_entry_tables m =
     (let m = write32 m pde_tmp (pte_low OR PAGE_PRESENT OR PAGE_WRITE);
          m = write32 m (pde_tmp + 4 * PGD_INDEX PAGE_OFFSET) (pte_high OR PAGE_PRESENT OR PAGE_WRITE)
      in fold tmp_entry [0..<1024] m)"

text \<open>The rest of \<open>kern_entry\<close>: the page directory, paging in \<open>cr0\<close>, the top of the kernel stack, and the
  pointer to the boot information, whose type makes the addition one of structures.\<close>

definition kern_entry_regs :: "kernel_image \<Rightarrow> u32 \<Rightarrow> u32 \<Rightarrow> u32 \<times> u32 \<times> u32 \<times> u32" where
  "kern_entry_regs im cr0 mboot_ptr_tmp =
     (pde_tmp, cr0 OR 0x80000000, (im_stack im + STACK_SIZE) AND 0xFFFFFFF0, mboot_ptr_tmp + layout_size multiboot_t * PAGE_OFFSET)"

text \<open>The initialisation up to the heap: descriptor tables, free pages, the handlers of keyboard and page faults, the
  kernel's page tables and the heap's first header.\<close>

definition kern_init_memory :: "kernel_image \<Rightarrow> u32 \<Rightarrow> kernel \<Rightarrow> kernel result option" where
  "kern_init_memory im glb_mboot_ptr k =
     (let m = fs_mem (k_fs k); lit = literal (im_fs im) in
      Option.bind (init_debug m lit glb_mboot_ptr (k_elf k)) (\<lambda>elf. Some (
      rbind (init_gdt (im_gdt im) (k_gdt k)) (\<lambda>(gdt, gdt_ptr).
      let (t, ps) = init_idt (im_stub im) (im_idt im) (k_idt k) in
      rbind (init_pmm (im_size im) (mmap_entry m (field32 multiboot_t ''mmap_addr'' m glb_mboot_ptr))
               (field32 multiboot_t ''mmap_length'' m glb_mboot_ptr) (k_pmm k)) (\<lambda>pmm.
      let t = init_keyboard t in
      rbind (init_vmm (im_dict im) (k_dict k) t) (\<lambda>(d, t, cr3).
      Inr (k\<lparr>k_elf := elf, k_gdt := gdt, k_gdt_ptr := gdt_ptr, k_idt := t, k_trace := k_trace k @ port_events ps,
        k_pmm := pmm, k_dict := d, k_cr3 := cr3, k_fs := (k_fs k)\<lparr>lru_heap := init_heap m\<rparr>\<rparr>)))))))"

definition kern_init_threads :: "kernel_image \<Rightarrow> kernel \<Rightarrow> kernel result" where
  "kern_init_threads im k =
     (let k = set_sched (init_kthread (im_stack im) (the_sched k)) k in
      rbind (init_timer 200 (k_idt k)) (\<lambda>(t, ps). Inr (k\<lparr>k_idt := t, k_trace := k_trace k @ port_events ps\<rparr>)))"

text \<open>The initialisation up to the timer, which needs no device to answer: the first store to the heap raises a page
  fault.\<close>

definition kern_init_core :: "kernel_image \<Rightarrow> u32 \<Rightarrow> kernel \<Rightarrow> kernel result option" where
  "kern_init_core im glb_mboot_ptr k =
     robind (kern_init_memory im glb_mboot_ptr k) (\<lambda>k.
     robind (touch_heap im k) (\<lambda>k. Some (kern_init_threads im k)))"

definition k_ide_init :: "device \<Rightarrow> kernel_image \<Rightarrow> kernel \<Rightarrow> (int \<times> kernel) result option" where
  "k_ide_init dev im k =
     map_option (\<lambda>(r, d, io). Inr (r, k\<lparr>k_fs := (set_mem (ide_mem io) (k_fs k))\<lparr>fs_log := io_log io, fs_dev := d\<rparr>\<rparr>))
       (ide_init dev (im_ide_buf im) (fs_dev (k_fs k)) \<lparr>ide_mem = fs_mem (k_fs k), io_log = fs_log (k_fs k)\<rparr>)"

definition on_fs :: "(fs \<Rightarrow> fs result option) \<Rightarrow> kernel \<Rightarrow> kernel result option" where
  "on_fs f k = robind (f (k_fs k)) (\<lambda>s. Some (Inr (k\<lparr>k_fs := s\<rparr>)))"

text \<open>\<open>kern_init\<close> up to the mounted file system.\<close>

definition kern_init_mount :: "device \<Rightarrow> kernel_image \<Rightarrow> u32 \<Rightarrow> kernel \<Rightarrow> kernel result option" where
  "kern_init_mount dev im glb_mboot_ptr k =
     robind (kern_init_core im glb_mboot_ptr k) (\<lambda>k.
     robind (k_ide_init dev im k) (\<lambda>(r, k).
     robind (Some (assert_that (r = 0) ''ide not available'')) (\<lambda>_.
     robind (on_fs (init_fs dev (im_fs im)) k) (touch_heap im))))"

text \<open>\<open>kern_init\<close> up to its endless loop; \<open>depth\<close> bounds the nesting of directories that the self test lists.\<close>

definition kern_init :: "nat \<Rightarrow> device \<Rightarrow> kernel_image \<Rightarrow> u32 \<Rightarrow> kernel \<Rightarrow> kernel result option" where
  "kern_init depth dev im glb_mboot_ptr k =
     robind (kern_init_mount dev im glb_mboot_ptr k) (\<lambda>k.
     robind (k_printk im (''Hello, Code'' @ nl) [] (set_con (console_clear (fs_con (k_fs k))) k)) (\<lambda>k.
     robind (on_fs (test_fs depth dev (im_fs im)) k) (touch_heap im)))"

text \<open>The creation of a thread, as \<open>test_kthread\<close> calls it.\<close>

definition k_kthread :: "kernel_image \<Rightarrow> u32 \<Rightarrow> kernel \<Rightarrow> (u32 \<times> kernel) result option" where
  "k_kthread im fn k = robind (kthread (im_exit im) fn (the_sched k)) (\<lambda>(pid, s). Some (Inr (pid, set_sched s k)))"

section \<open>Frames\<close>

text \<open>The frame of an address, 0 when there is none; the kernel's own 4 MB are entry 768 of the dictionary.\<close>

definition frame_of :: "u32 \<Rightarrow> page_dictionary \<Rightarrow> u32 \<Rightarrow> u32" where
  "frame_of base d v = (case PageDictionary_at base d v of Inr pa \<Rightarrow> page_of pa | Inl _ \<Rightarrow> 0)"

definition demand_page :: "u32 \<Rightarrow> bool" where
  "demand_page v \<longleftrightarrow> dict_index v \<noteq> 768"

definition frames_safe :: "u32 \<Rightarrow> page_dictionary \<Rightarrow> pmm \<Rightarrow> bool" where
  "frames_safe base d m \<longleftrightarrow> pd_wf base d \<and> pmm_wf m \<and> distinct (pmm_pages m) \<and> 0 \<notin> set (pmm_pages m)
     \<and> (\<forall>p\<in>set (pmm_pages m). page_aligned p)
     \<and> (\<forall>v. demand_page v \<longrightarrow> frame_of base d v \<notin> set (pmm_pages m))
     \<and> (\<forall>v w. demand_page v \<and> demand_page w \<and> frame_of base d v = frame_of base d w \<and> frame_of base d v \<noteq> 0
          \<longrightarrow> page_of v = page_of w)"

lemma page_of_frame: "page_aligned p \<Longrightarrow> page_of (p OR page_offset v) = p"
  unfolding page_of_def page_offset_def page_aligned_def vmm_masks
  by (rule bit_eqI) (auto simp: bit_simps bit_eq_iff)

text \<open>A page fault that is served either finds the page mapped or takes one free page for it.\<close>

lemma handle_page_fault_cases:
  assumes f: "frames_safe base d m" and h: "handle_page_fault base cr2 regs (d, m) = Inr (d', m')"
  shows "(d', m') = (d, m) \<or> (\<exists>p. pmm_pages m = p # pmm_pages m' \<and> pmm_wf m' \<and> pd_wf base d'
    \<and> (\<forall>v. PageDictionary_at base d' v = (if page_of v = page_of cr2 then Inr (p OR page_offset v) else PageDictionary_at base d v)))"
proof (cases "err_code regs AND PAGE_PRESENT = 0")
  case True
  then obtain pa where i: "PageDictionary_index base cr2 (d, m) = Inr (pa, d', m')"
    using h by (auto simp: handle_page_fault_def result_simps)
  have wf: "pd_wf base d" "pmm_wf m" and al: "\<forall>p\<in>set (pmm_pages m). page_aligned p" using f by (simp_all add: frames_safe_def)
  show ?thesis
  proof (cases "pd_mapped base d cr2")
    case True
    then show ?thesis using PageDictionary_index_mapped [OF wf(1), of cr2 m] i by auto
  next
    case False
    obtain j d1 pa' t where r: "retrieve_table base cr2 d = Inr (j, d1)" "PageTable_index (reserve d1 j) cr2 m = Inr (pa', t, m')"
      using i by (auto simp: PageDictionary_index_def result_simps)
    have room: "pd_has_room d (dict_index cr2)"
      using r(1) retrieve_table_full [of d cr2 base] by (auto simp: pd_has_room_def not_less [symmetric])
    have "\<not> present (pt_entries (reserve d1 j) (table_index cr2))" by (rule retrieve_table_unmapped [OF wf(1) False r(1)])
    then obtain p where p: "pmm_alloc_page m = Inr (p, m')" using r(2)
      by (auto simp: PageTable_index_def result_simps split: if_splits)
    note t = pmm_alloc_page_takes [OF wf(2) p]
    then have "page_aligned p" using al by auto
    from PageDictionary_index_unmapped [OF wf(1) False room p this] i t show ?thesis by auto
  qed
qed (use h in \<open>auto simp: handle_page_fault_def\<close>)

lemma frames_safe_fault:
  assumes f: "frames_safe base d m" and h: "handle_page_fault base cr2 regs (d, m) = Inr (d', m')"
  shows "frames_safe base d' m'"
proof -
  consider "d' = d" "m' = m" | p where "pmm_pages m = p # pmm_pages m'" "pmm_wf m'" "pd_wf base d'"
    "\<forall>v. PageDictionary_at base d' v = (if page_of v = page_of cr2 then Inr (p OR page_offset v) else PageDictionary_at base d v)"
    using handle_page_fault_cases [OF assms] by blast
  then show ?thesis
  proof cases
    case 2
    have p: "page_aligned p" "p \<noteq> 0" "p \<notin> set (pmm_pages m')" using f 2(1) by (auto simp: frames_safe_def)
    have fr: "frame_of base d' v = (if page_of v = page_of cr2 then p else frame_of base d v)" for v
      using 2(4) page_of_frame [OF p(1)] by (simp add: frame_of_def)
    have old: "frame_of base d v \<noteq> p" if "demand_page v" for v using f that 2(1) by (auto simp: frames_safe_def)
    have free: "frame_of base d' v \<notin> set (pmm_pages m')" if "demand_page v" for v
      using f that 2(1) p(3) by (simp add: fr frames_safe_def)
    have "page_of v = page_of w" if "demand_page v" "demand_page w" "frame_of base d' v = frame_of base d' w" "frame_of base d' v \<noteq> 0" for v w
    proof (cases "page_of v = page_of cr2 \<or> page_of w = page_of cr2")
      case True
      then show ?thesis using that(3) old [OF that(1)] old [OF that(2)] by (auto simp: fr split: if_splits)
    next
      case False
      then have "frame_of base d v = frame_of base d w" "frame_of base d v \<noteq> 0" using that(3,4) by (simp_all add: fr)
      then show ?thesis using f that(1,2) unfolding frames_safe_def by blast
    qed
    then have "\<forall>v w. demand_page v \<and> demand_page w \<and> frame_of base d' v = frame_of base d' w \<and> frame_of base d' v \<noteq> 0
        \<longrightarrow> page_of v = page_of w" by blast
    with free show ?thesis using f 2(1-3) by (simp add: frames_safe_def)
  qed (use f in simp)
qed

section \<open>Steps of the running kernel\<close>

definition handlers :: "nat \<rightharpoonup> handler" where
  "handlers = [14 \<mapsto> page_fault_handler, 32 \<mapsto> timer_callback, 33 \<mapsto> keyboard_isr]"

definition kernel_invar :: "kernel_image \<Rightarrow> kernel \<Rightarrow> bool" where
  "kernel_invar im k \<longleftrightarrow> frames_safe (im_dict im) (k_dict k) (k_pmm k) \<and> console_invar (fs_con (k_fs k))
     \<and> (\<exists>ts. task_list (im_stack im) (the_sched k) ts \<and> running (the_sched k) \<in> set ts)
     \<and> interrupt_handlers (k_idt k) = handlers \<and> gates_installed (im_stub im) (k_idt k)"

text \<open>What happens to a running kernel: an exception, an interrupt, or the creation of a thread, which the
  allocator must be able to grant. The inputs from the hardware are arbitrary.\<close>

inductive kstep :: "kernel_image \<Rightarrow> kernel \<Rightarrow> kernel \<Rightarrow> bool" for im where
  exception: "isr_dispatcher im hw regs k = Some (Inr k') \<Longrightarrow> kstep im k k'"
| interrupt: "irq_dispatcher im hw regs k = Some (Inr k') \<Longrightarrow> kstep im k k'"
| create: "il_grants STACK_SIZE (lru_heap (k_fs k)) \<Longrightarrow> pid_cnt (k_sched k) + 1 \<noteq> 0 \<Longrightarrow>
    k_kthread im fn k = Some (Inr (pid, k')) \<Longrightarrow> kstep im k k'"

inductive_cases kstepE: "kstep im k k'"

lemma the_sched_set_sched [simp]: "the_sched (set_sched s k) = s"
  by (simp add: the_sched_def set_sched_def)

lemma the_sched_fields [simp]:
  "sched_heap (the_sched k) = lru_heap (k_fs k)" "running (the_sched k) = running (k_sched k)" "pid_cnt (the_sched k) = pid_cnt (k_sched k)"
  by (simp_all add: the_sched_def)

lemma set_sched_fields [simp]:
  "k_dict (set_sched s k) = k_dict k" "k_pmm (set_sched s k) = k_pmm k" "k_idt (set_sched s k) = k_idt k"
  "fs_con (k_fs (set_sched s k)) = fs_con (k_fs k)" "k_trace (set_sched s k) = k_trace k" "k_keyboard (set_sched s k) = k_keyboard k"
  by (simp_all add: set_sched_def)

lemma set_con_fields [simp]:
  "k_dict (set_con c k) = k_dict k" "k_pmm (set_con c k) = k_pmm k" "k_idt (set_con c k) = k_idt k"
  "fs_con (k_fs (set_con c k)) = c" "the_sched (set_con c k) = the_sched k" "k_trace (set_con c k) = k_trace k"
  by (simp_all add: set_con_def the_sched_def)

lemma kernel_invar_trace [simp]: "kernel_invar im (k\<lparr>k_trace := es\<rparr>) = kernel_invar im k"
  by (simp add: kernel_invar_def the_sched_def)

lemma set_sched_trace: "set_sched s (k\<lparr>k_trace := es\<rparr>) = (set_sched s k)\<lparr>k_trace := es\<rparr>"
  by (simp add: set_sched_def)

lemma kernel_invar_console: "kernel_invar im k \<Longrightarrow> console_invar c \<Longrightarrow> kernel_invar im (set_con c k)"
  by (simp add: kernel_invar_def)

lemma timer_tick:
  assumes "kernel_invar im k"
  shows "\<exists>s. kthread_schedule (the_sched k) = Inr s \<and> kernel_invar im (set_sched s k)"
proof -
  obtain ts where ts: "task_list (im_stack im) (the_sched k) ts" "running (the_sched k) \<in> set ts"
    using assms by (auto simp: kernel_invar_def)
  then obtain i where i: "i < length ts" "running (the_sched k) = ts ! i" by (auto simp: in_set_conv_nth)
  obtain s where s: "schedule (the_sched k) = Inr s" "task_list (im_stack im) s ts" "running s = ts ! (Suc i mod length ts)"
    using schedule_step [OF ts(1) i] by blast
  have "Suc i mod length ts < length ts" by (rule mod_less_divisor) (use i in auto)
  then have "running s \<in> set ts" using s(3) by simp
  with s assms show ?thesis by (auto simp: kernel_invar_def kthread_schedule_def)
qed

lemma run_handler_invar:
  assumes k: "kernel_invar im k" and r: "run_handler im hw h regs k = Some (Inr k')"
  shows "kernel_invar im k'"
proof (cases h)
  case page_fault_handler
  then obtain d m where "handle_page_fault (im_dict im) (hw_cr2 hw) regs (k_dict k, k_pmm k) = Inr (d, m)"
    "k' = k\<lparr>k_dict := d, k_pmm := m\<rparr>" using r by (auto simp: run_handler_def result_simps)
  with k frames_safe_fault [of "im_dict im" "k_dict k" "k_pmm k"] show ?thesis by (simp add: kernel_invar_def the_sched_def)
next
  case timer_callback
  with timer_tick [OF k] r show ?thesis by (auto simp: run_handler_def set_sched_trace)
next
  case keyboard_isr
  then obtain kb c where c: "run_keyboard_isr (fs_mem (k_fs k)) (literal (im_fs im) ''%c'') (hw_key hw) (k_keyboard k, fs_con (k_fs k)) = Some (kb, c)"
    "k' = set_con c (k\<lparr>k_keyboard := kb\<rparr>)" using r by (auto simp: run_handler_def)
  have "console_invar (fs_con (k_fs k))" using k by (simp add: kernel_invar_def)
  then have "console_invar c" using c(1) printk_invar
    by (auto simp: run_keyboard_isr_def Let_def split: prod.splits if_splits simp del: printk.simps)
  moreover have "kernel_invar im (k\<lparr>k_keyboard := kb\<rparr>)" using k by (simp add: kernel_invar_def the_sched_def)
  ultimately show ?thesis unfolding c(2) by (intro kernel_invar_console)
qed

lemma isr_dispatcher_invar:
  assumes k: "kernel_invar im k" and r: "isr_dispatcher im hw regs k = Some (Inr k')"
  shows "kernel_invar im k'"
proof (cases "interrupt_handlers (k_idt k) (unat (int_no regs))")
  case None
  then obtain c where "printk (fs_mem (k_fs k)) (literal (im_fs im) (''Unhandled interrupt: %d'' @ nl)) [ArgNum (int_no regs)] (fs_con (k_fs k)) = Some c"
    "k' = set_con c k" using r by (auto simp: isr_dispatcher_def k_printk_def split: if_splits simp del: printk.simps)
  then show ?thesis using k printk_invar by (auto intro!: kernel_invar_console simp: kernel_invar_def simp del: printk.simps)
next
  case (Some h)
  then show ?thesis using r run_handler_invar [OF k] by (auto simp: isr_dispatcher_def split: if_splits)
qed

lemma irq_dispatcher_invar:
  assumes k: "kernel_invar im k" and r: "irq_dispatcher im hw regs k = Some (Inr k')"
  shows "kernel_invar im k'"
proof -
  have p: "kernel_invar im (k\<lparr>k_trace := ps\<rparr>)" for ps using k by simp
  then show ?thesis using r
    by (auto simp: irq_dispatcher_def Let_def split: if_splits option.splits dest: run_handler_invar [OF p])
qed

lemma k_kthread_invar:
  assumes k: "kernel_invar im k" and g: "il_grants STACK_SIZE (lru_heap (k_fs k))" "pid_cnt (k_sched k) + 1 \<noteq> 0"
    and r: "k_kthread im fn k = Some (Inr (pid, k'))"
  shows "kernel_invar im k'"
proof -
  obtain ts where ts: "task_list (im_stack im) (the_sched k) ts" "running (the_sched k) \<in> set ts"
    using k by (auto simp: kernel_invar_def)
  obtain p s where s: "kthread (im_exit im) fn (the_sched k) = Some (Inr (pid_cnt (k_sched k), s))"
    "task_list (im_stack im) s (ts @ [p])" "running s = running (the_sched k)"
    using kthread_appends [OF ts(1), of "im_exit im" fn] g by auto
  then have "k' = set_sched s k" using r by (simp add: k_kthread_def)
  then show ?thesis using k s(2,3) ts(2) by (auto simp: kernel_invar_def)
qed

lemma kstep_invar: "kernel_invar im k \<Longrightarrow> kstep im k k' \<Longrightarrow> kernel_invar im k'"
  by (erule kstepE) (auto intro: isr_dispatcher_invar irq_dispatcher_invar k_kthread_invar)

lemma ksteps_invar: "(kstep im)\<^sup>*\<^sup>* k k' \<Longrightarrow> kernel_invar im k \<Longrightarrow> kernel_invar im k'"
  by (induction rule: rtranclp_induct) (auto intro: kstep_invar)

section \<open>Demand paging\<close>

text \<open>What a state needs to serve page faults: the frames are in order and the handler is installed.\<close>

definition vmm_ready :: "kernel_image \<Rightarrow> kernel \<Rightarrow> bool" where
  "vmm_ready im k \<longleftrightarrow> frames_safe (im_dict im) (k_dict k) (k_pmm k) \<and> interrupt_handlers (k_idt k) 14 = Some page_fault_handler"

lemma kernel_invar_ready: "kernel_invar im k \<Longrightarrow> vmm_ready im k"
  by (simp add: kernel_invar_def vmm_ready_def handlers_def)

text \<open>The page tables in use: no more than the entries of the dictionary, which are all in \<open>K\<close>.\<close>

definition tables_in :: "nat set \<Rightarrow> page_dictionary \<Rightarrow> bool" where
  "tables_in K d \<longleftrightarrow> {i. present (pd_entries d i)} \<subseteq> K \<and> unat (table_count d) \<le> card {i. present (pd_entries d i)}"

lemma tables_in_room:
  assumes "tables_in K d" and "finite K" and "card K \<le> TABLE_RESERVE" and "i \<in> K"
  shows "pd_has_room d i"
proof (cases "present (pd_entries d i)")
  case False
  have "{j. present (pd_entries d j)} \<subset> K" using assms(1,4) False unfolding tables_in_def by blast
  then have "card {j. present (pd_entries d j)} < card K" by (rule psubset_card_mono [OF assms(2)])
  then show ?thesis using assms(1,3) by (simp add: pd_has_room_def tables_in_def)
qed (simp add: pd_has_room_def)

lemma retrieve_table_tables:
  assumes t: "tables_in K d" "finite K" "dict_index vma \<in> K" and r: "retrieve_table base vma d = Inr (i, d')"
  shows "tables_in K d'" and "\<forall>j. present (pd_entries d j) \<longrightarrow> pd_entries d' j = pd_entries d j" and "reserve d' = reserve d"
proof -
  let ?P = "{j. present (pd_entries d j)}"
  have "tables_in K d' \<and> (\<forall>j. present (pd_entries d j) \<longrightarrow> pd_entries d' j = pd_entries d j) \<and> reserve d' = reserve d"
  proof (cases "present (pd_entries d (dict_index vma))")
    case True
    then have "d' = d" using r by (auto simp: retrieve_table_def result_simps)
    then show ?thesis using t(1) by simp
  next
    case False
    then have d': "d' = d\<lparr>table_count := table_count d + 1, pd_entries :=
        (pd_entries d)(dict_index vma := set_pde (reserve_addr base (unat (table_count d))))\<rparr>" "unat (table_count d) < TABLE_RESERVE"
      using r by (auto simp: retrieve_table_def alloc_table_def assert_that_def result_simps split: if_splits)
    have "{j. present (pd_entries d' j)} = insert (dict_index vma) ?P" using d'(1) by (auto split: if_splits)
    moreover have "finite ?P" using t(1,2) finite_subset unfolding tables_in_def by blast
    moreover have "unat (table_count d') = Suc (unat (table_count d))" using d' by (simp add: TABLE_RESERVE_def unat_Suc_word)
    ultimately show ?thesis using t False d'(1) by (auto simp: tables_in_def)
  qed
  then show "tables_in K d'" "\<forall>j. present (pd_entries d j) \<longrightarrow> pd_entries d' j = pd_entries d j" "reserve d' = reserve d" by blast+
qed

lemma PageDictionary_insert_tables:
  assumes "tables_in K d" and "finite K" and "dict_index vma \<in> K" and "PageDictionary_insert base vma pma d = Inr d'"
  shows "tables_in K d'"
proof -
  obtain i d1 t where d1: "retrieve_table base vma d = Inr (i, d1)" "d' = d1\<lparr>reserve := (reserve d1)(i := t)\<rparr>"
    using assms(4) by (auto simp: PageDictionary_insert_def result_simps)
  show ?thesis using retrieve_table_tables(1) [OF assms(1-3) d1(1)] d1(2) by (simp add: tables_in_def)
qed

text \<open>The initial mapping needs one page table.\<close>

lemma init_vmm_map_tables:
  "init_vmm_map base is d = Inr d' \<Longrightarrow> \<forall>i\<in>set is. i < 1024 \<Longrightarrow> tables_in {768} d \<Longrightarrow> tables_in {768} d'"
proof (induction "is" arbitrary: d)
  case (Cons i "is")
  obtain d1 where d1: "PageDictionary_insert base (VMA (push_bit 12 (of_nat i))) (push_bit 12 (of_nat i)) d = Inr d1"
    "init_vmm_map base is d1 = Inr d'" using Cons.prems(1) by (auto simp: result_simps)
  have "unat (VMA (push_bit 12 (of_nat i))) = i * 0x1000 + 0xC0000000"
    using Cons.prems(2) by (subst unat_VMA) (simp_all add: unat_kernel_page)
  moreover have "i < 1024" using Cons.prems(2) by simp
  then have "(i * 0x1000 + 0xC0000000) div 0x400000 = 768" by simp
  ultimately have "dict_index (VMA (push_bit 12 (of_nat i))) = 768" by (simp add: dict_index_div)
  then have "tables_in {768} d1" using PageDictionary_insert_tables [OF Cons.prems(3) _ _ d1(1)] by simp
  then show ?case using Cons.IH [OF d1(2)] Cons.prems(2) by simp
qed simp

lemma pd_mapped_page: "page_of v = page_of w \<Longrightarrow> pd_mapped base d v = pd_mapped base d w"
  unfolding page_of_eq_iff pd_mapped_def by (elim conjE) (simp only:)

text \<open>A fault adds to the mapping and to the tables only.\<close>

lemma PageDictionary_index_extends:
  assumes t: "tables_in K d" "finite K" "dict_index vma \<in> K" and r: "PageDictionary_index base vma (d, m) = Inr (pa, d', m')"
  shows "tables_in K d'" and "pd_mapped base d v \<Longrightarrow> pd_mapped base d' v"
proof -
  obtain i d1 u where d1: "retrieve_table base vma d = Inr (i, d1)" "PageTable_index (reserve d1 i) vma m = Inr (pa, u, m')"
    "d' = d1\<lparr>reserve := (reserve d1)(i := u)\<rparr>" using r by (auto simp: PageDictionary_index_def result_simps)
  note q = retrieve_table_tables [OF t d1(1)]
  show "tables_in K d'" using q(1) d1(3) by (simp add: tables_in_def)
  have "present (pt_entries (reserve d1 i) j) \<longrightarrow> present (pt_entries u j)" for j
    using d1(2) by (auto simp: PageTable_index_def result_simps split: if_splits)
  then show "pd_mapped base d v \<Longrightarrow> pd_mapped base d' v"
    using q(2,3) d1(3) by (auto simp: pd_mapped_def Let_def split: sum.splits)
qed

text \<open>A fault on a page that is not mapped takes the top free page for it.\<close>

lemma page_fault_frames:
  assumes k: "vmm_ready im k" and "int_no regs = 14" and "err_code regs AND PAGE_PRESENT = 0"
    and n: "\<not> pd_mapped (im_dict im) (k_dict k) (hw_cr2 hw)" "pd_has_room (k_dict k) (dict_index (hw_cr2 hw))"
    and "2 \<le> length (pmm_pages (k_pmm k))"
  shows "\<exists>p d m. isr_dispatcher im hw regs k = Some (Inr (k\<lparr>k_dict := d, k_pmm := m\<rparr>)) \<and> frames_safe (im_dict im) d m
    \<and> PageDictionary_index (im_dict im) (hw_cr2 hw) (k_dict k, k_pmm k) = Inr (p OR page_offset (hw_cr2 hw), d, m)
    \<and> pmm_pages (k_pmm k) = p # pmm_pages m \<and> pd_mapped (im_dict im) d (hw_cr2 hw)
    \<and> (\<forall>v. frame_of (im_dict im) d v = (if page_of v = page_of (hw_cr2 hw) then p else frame_of (im_dict im) (k_dict k) v))"
proof -
  have f: "frames_safe (im_dict im) (k_dict k) (k_pmm k)" "interrupt_handlers (k_idt k) 14 = Some page_fault_handler"
    using k by (simp_all add: vmm_ready_def)
  have w: "pd_wf (im_dict im) (k_dict k)" "pmm_wf (k_pmm k)" "\<forall>p\<in>set (pmm_pages (k_pmm k)). page_aligned p"
    using f(1) by (simp_all add: frames_safe_def)
  obtain p m where a: "pmm_alloc_page (k_pmm k) = Inr (p, m)" "pmm_pages (k_pmm k) = p # pmm_pages m"
    using pmm_pool.alloc_succeeds [OF w(2) assms(6)] pmm_pool.alloc_takes [OF w(2)] by blast
  then have p: "page_aligned p" using w(3) by simp
  obtain d where d: "PageDictionary_index (im_dict im) (hw_cr2 hw) (k_dict k, k_pmm k) = Inr (p OR page_offset (hw_cr2 hw), d, m)"
    "pd_mapped (im_dict im) d (hw_cr2 hw)"
    "\<forall>v. PageDictionary_at (im_dict im) d v = (if page_of v = page_of (hw_cr2 hw) then Inr (p OR page_offset v) else PageDictionary_at (im_dict im) (k_dict k) v)"
    using PageDictionary_index_unmapped [OF w(1) n a(1) p] by blast
  have h: "handle_page_fault (im_dict im) (hw_cr2 hw) regs (k_dict k, k_pmm k) = Inr (d, m)"
    using assms(3) d(1) by (simp add: handle_page_fault_def)
  have "isr_dispatcher im hw regs k = Some (Inr (k\<lparr>k_dict := d, k_pmm := m\<rparr>))"
    using assms(2) f(2) h by (simp add: isr_dispatcher_def INTERRUPT_NUM_def run_handler_def)
  moreover have "frame_of (im_dict im) d v = (if page_of v = page_of (hw_cr2 hw) then p else frame_of (im_dict im) (k_dict k) v)" for v
    using d(3) page_of_frame [OF p] by (simp add: frame_of_def)
  ultimately show ?thesis using frames_safe_fault [OF f(1) h] a(2) d(1,2) by blast
qed

lemma mem_access_mapped: "pd_mapped (im_dict im) (k_dict k) addr \<Longrightarrow> mem_access im regs wr addr k = Some (Inr k)"
  by (simp add: mem_access_def)

lemma mem_access_fault:
  assumes "vmm_ready im k" and "\<not> pd_mapped (im_dict im) (k_dict k) addr" and "pd_has_room (k_dict k) (dict_index addr)"
    and "2 \<le> length (pmm_pages (k_pmm k))"
  shows "\<exists>p d m. mem_access im regs wr addr k = Some (Inr (k\<lparr>k_dict := d, k_pmm := m\<rparr>)) \<and> vmm_ready im (k\<lparr>k_dict := d, k_pmm := m\<rparr>)
    \<and> PageDictionary_index (im_dict im) addr (k_dict k, k_pmm k) = Inr (p OR page_offset addr, d, m)
    \<and> pmm_pages (k_pmm k) = p # pmm_pages m \<and> pd_mapped (im_dict im) d addr
    \<and> (\<forall>v. frame_of (im_dict im) d v = (if page_of v = page_of addr then p else frame_of (im_dict im) (k_dict k) v))"
proof -
  let ?hw = "\<lparr>hw_cr2 = addr, hw_key = 0\<rparr>" and ?regs = "regs\<lparr>int_no := 14, err_code := if wr then PAGE_WRITE else 0\<rparr>"
  have f: "int_no ?regs = 14" "err_code ?regs AND PAGE_PRESENT = 0" by (simp_all add: PAGE_WRITE_def PAGE_PRESENT_def)
  show ?thesis using page_fault_frames [OF assms(1) f, of ?hw] assms by (simp add: mem_access_def vmm_ready_def)
qed

text \<open>An access that succeeds, whatever it needed, leaves a state that serves faults.\<close>

lemma mem_access_returns:
  assumes k: "vmm_ready im k" and r: "mem_access im regs wr addr k = Some (Inr k')"
  shows "\<exists>d m. k' = k\<lparr>k_dict := d, k_pmm := m\<rparr> \<and> vmm_ready im k'"
proof (cases "pd_mapped (im_dict im) (k_dict k) addr")
  case True
  then show ?thesis using k r by (intro exI [of _ "k_dict k"] exI [of _ "k_pmm k"]) (simp add: mem_access_def)
next
  case False
  have h: "interrupt_handlers (k_idt k) 14 = Some page_fault_handler" and f: "frames_safe (im_dict im) (k_dict k) (k_pmm k)"
    using k by (simp_all add: vmm_ready_def)
  let ?regs = "regs\<lparr>int_no := 14, err_code := if wr then PAGE_WRITE else 0\<rparr>"
  obtain d m where d: "handle_page_fault (im_dict im) addr ?regs (k_dict k, k_pmm k) = Inr (d, m)" "k' = k\<lparr>k_dict := d, k_pmm := m\<rparr>"
    using r False h by (auto simp: mem_access_def isr_dispatcher_def run_handler_def INTERRUPT_NUM_def result_simps)
  from frames_safe_fault [OF f d(1)] d(2) h show ?thesis by (auto simp: vmm_ready_def)
qed

lemma touch_all_returns:
  "vmm_ready im k \<Longrightarrow> touch_all im as k = Some (Inr k') \<Longrightarrow> \<exists>d m. k' = k\<lparr>k_dict := d, k_pmm := m\<rparr> \<and> vmm_ready im k'"
proof (induction "as" arbitrary: k)
  case Nil
  then show ?case by (intro exI [of _ "k_dict k"] exI [of _ "k_pmm k"]) simp
next
  case (Cons a "as")
  obtain k1 where k1: "mem_access im (tick_regs 14 0) True a k = Some (Inr k1)" "touch_all im as k1 = Some (Inr k')"
    using Cons.prems(2) by (auto simp: result_simps)
  from mem_access_returns [OF Cons.prems(1) k1(1)] obtain d m where "k1 = k\<lparr>k_dict := d, k_pmm := m\<rparr>" "vmm_ready im k1" by blast
  with Cons.IH [of k1] k1(2) show ?case by auto
qed

text \<open>Enough pages for the pages of \<open>Q\<close>: a free one for each that is not mapped, and the one that is never handed
  out; the tables of the heap are the entries 832 to 835.\<close>

definition heap_tables :: "nat set" where
  "heap_tables = {768, 832, 833, 834, 835}"

definition pages_ready :: "kernel_image \<Rightarrow> u32 set \<Rightarrow> kernel \<Rightarrow> bool" where
  "pages_ready im Q k \<longleftrightarrow> vmm_ready im k \<and> tables_in heap_tables (k_dict k) \<and> finite Q
     \<and> card {q \<in> Q. \<not> pd_mapped (im_dict im) (k_dict k) q} < length (pmm_pages (k_pmm k))"

lemma mem_access_ready:
  assumes k: "pages_ready im Q k" and a: "dict_index a \<in> heap_tables" "page_of a \<in> Q"
  shows "\<exists>d m. mem_access im regs wr a k = Some (Inr (k\<lparr>k_dict := d, k_pmm := m\<rparr>)) \<and> pages_ready im Q (k\<lparr>k_dict := d, k_pmm := m\<rparr>)
    \<and> pd_mapped (im_dict im) d a \<and> (\<forall>v. pd_mapped (im_dict im) (k_dict k) v \<longrightarrow> pd_mapped (im_dict im) d v)"
proof (cases "pd_mapped (im_dict im) (k_dict k) a")
  case True
  then show ?thesis using k by (intro exI [of _ "k_dict k"] exI [of _ "k_pmm k"]) (simp add: mem_access_mapped)
next
  case False
  let ?U = "\<lambda>d. {q \<in> Q. \<not> pd_mapped (im_dict im) d q}"
  have r: "vmm_ready im k" "tables_in heap_tables (k_dict k)" "finite Q" "card (?U (k_dict k)) < length (pmm_pages (k_pmm k))"
    using k by (simp_all add: pages_ready_def)
  have fin: "finite heap_tables" "card heap_tables \<le> TABLE_RESERVE" by (simp_all add: heap_tables_def TABLE_RESERVE_def)
  have pg: "pd_mapped (im_dict im) d (page_of a) = pd_mapped (im_dict im) d a" for d
    by (rule pd_mapped_page) (simp add: page_of_def)
  have u: "page_of a \<in> ?U (k_dict k)" using a(2) False pg by simp
  then have "0 < card (?U (k_dict k))" using r(3) by (subst card_gt_0_iff) auto
  then have "2 \<le> length (pmm_pages (k_pmm k))" using r(4) by linarith
  from mem_access_fault [OF r(1) False tables_in_room [OF r(2) fin a(1)] this, of regs wr] obtain p d m where d:
    "mem_access im regs wr a k = Some (Inr (k\<lparr>k_dict := d, k_pmm := m\<rparr>))" "vmm_ready im (k\<lparr>k_dict := d, k_pmm := m\<rparr>)"
    "PageDictionary_index (im_dict im) a (k_dict k, k_pmm k) = Inr (p OR page_offset a, d, m)"
    "pmm_pages (k_pmm k) = p # pmm_pages m" "pd_mapped (im_dict im) d a" by blast
  note e = PageDictionary_index_extends [OF r(2) fin(1) a(1) d(3)]
  have "?U d \<subseteq> ?U (k_dict k) - {page_of a}" using e(2) d(5) pg by blast
  then have "card (?U d) \<le> card (?U (k_dict k) - {page_of a})" using r(3) by (intro card_mono) auto
  also have "\<dots> = card (?U (k_dict k)) - 1" using u by (rule card_Diff_singleton)
  finally have "card (?U d) < length (pmm_pages m)" using r(4) d(4) \<open>0 < card (?U (k_dict k))\<close> by simp
  then show ?thesis using d e r(3) by (auto simp: pages_ready_def)
qed

lemma touch_all_ready:
  assumes "pages_ready im Q k" and "\<forall>a\<in>set as. dict_index a \<in> heap_tables \<and> page_of a \<in> Q"
  shows "\<exists>d m. touch_all im as k = Some (Inr (k\<lparr>k_dict := d, k_pmm := m\<rparr>)) \<and> pages_ready im Q (k\<lparr>k_dict := d, k_pmm := m\<rparr>)
    \<and> (\<forall>a\<in>set as. pd_mapped (im_dict im) d a) \<and> (\<forall>v. pd_mapped (im_dict im) (k_dict k) v \<longrightarrow> pd_mapped (im_dict im) d v)"
  using assms
proof (induction "as" arbitrary: k)
  case Nil
  then show ?case by (intro exI [of _ "k_dict k"] exI [of _ "k_pmm k"]) simp
next
  case (Cons a "as")
  from mem_access_ready [OF Cons.prems(1), of a "tick_regs 14 0" True] Cons.prems(2) obtain d m where d:
    "mem_access im (tick_regs 14 0) True a k = Some (Inr (k\<lparr>k_dict := d, k_pmm := m\<rparr>))" "pages_ready im Q (k\<lparr>k_dict := d, k_pmm := m\<rparr>)"
    "pd_mapped (im_dict im) d a" "\<forall>v. pd_mapped (im_dict im) (k_dict k) v \<longrightarrow> pd_mapped (im_dict im) d v" by auto
  from Cons.IH [OF d(2)] Cons.prems(2) obtain d' m' where
    "touch_all im as (k\<lparr>k_dict := d, k_pmm := m\<rparr>) = Some (Inr (k\<lparr>k_dict := d', k_pmm := m'\<rparr>))" "pages_ready im Q (k\<lparr>k_dict := d', k_pmm := m'\<rparr>)"
    "\<forall>a\<in>set as. pd_mapped (im_dict im) d' a" "\<forall>v. pd_mapped (im_dict im) d v \<longrightarrow> pd_mapped (im_dict im) d' v" by auto
  then show ?case using d by (intro exI [of _ d'] exI [of _ m']) simp
qed

section \<open>Initialisation establishes the invariant\<close>

lemma pages_from_aligned: "page_aligned a \<Longrightarrow> p \<in> set (pages_from a n) \<Longrightarrow> page_aligned p"
  by (auto simp: pages_from_def PMM_PAGE_SIZE_def intro!: page_aligned_add page_aligned_mult)

text \<open>What the linker script and the boot loader guarantee: statics of the kernel lie outside of the heap and
  page tables are aligned, the kernel fills whole pages and ends below 4 MB, and the memory map has one
  usable area above 1 MB.\<close>

definition boot_image :: "kernel_image \<Rightarrow> bool" where
  "boot_image im \<longleftrightarrow> page_aligned (im_dict im) \<and> page_aligned (im_size im) \<and> unat (im_size im) < 0x400000
     \<and> im_stack im \<noteq> 0 \<and> im_stack im < kHeapStart"

definition boot_map :: "kernel \<Rightarrow> u32 \<Rightarrow> mmap_entry_t \<Rightarrow> bool" where
  "boot_map k mb e \<longleftrightarrow> (let m = fs_mem (k_fs k) in
     filter usable (map (mmap_entry m (field32 multiboot_t ''mmap_addr'' m mb)) [0..<unat (field32 multiboot_t ''mmap_length'' m mb)]) = [e])"

lemma length_pages_from [simp]: "length (pages_from a n) = n"
  by (simp add: pages_from_def)

text \<open>The number of pages that \<open>init_pmm\<close> finds above the kernel in a usable area.\<close>

definition boot_pages :: "kernel_image \<Rightarrow> mmap_entry_t \<Rightarrow> nat" where
  "boot_pages im e = area_pages (0x100000 + im_size im) (0x100000 + length_low e)"

lemma frames_safe_boot:
  assumes im: "boot_image im" and e: "filter usable (map mmap [0..<unat len]) = [e]"
  shows "\<exists>m d t' cr3. init_pmm (im_size im) mmap len s = Inr m \<and> init_vmm (im_dict im) empty_dictionary t = Inr (d, t', cr3)
    \<and> frames_safe (im_dict im) d m \<and> t' = register_isr 14 page_fault_handler t
    \<and> tables_in {768} d \<and> length (pmm_pages m) = boot_pages im e"
proof -
  let ?a = "0x100000 + im_size im"
  obtain m where m: "init_pmm (im_size im) mmap len s = Inr m" "pmm_wf m"
    "pmm_pages m = rev (pages_from ?a (area_pages ?a (0x100000 + length_low e)))" "distinct (pmm_pages m)"
    "\<forall>p\<in>set (pmm_pages m). ?a \<le> p" using init_pmm_area [OF e refl refl] by blast
  have "unat ?a = 0x100000 + unat (im_size im)" using im by (simp add: boot_image_def unat_word_ariths)
  then have a: "0 < ?a" by (simp add: word_less_nat_alt)
  have al: "page_aligned ?a" using im page_aligned_mult [of "0x100"] by (intro page_aligned_add) (simp_all add: boot_image_def)
  have base: "page_aligned (im_dict im)" using im by (simp add: boot_image_def)
  obtain d where d: "init_vmm_map (im_dict im) [0..<1024] empty_dictionary = Inr d" "pd_wf (im_dict im) d"
    "\<forall>v. unat v div 0x400000 \<noteq> 768 \<longrightarrow> PageDictionary_at (im_dict im) d v = PageDictionary_at (im_dict im) empty_dictionary v"
    using init_vmm_map_ok [OF pd_wf_empty [OF base] pd_has_room_empty] by blast
  have z: "frame_of (im_dict im) d v = 0" if "demand_page v" for v
    using that d(3) pd_at_absent [of empty_dictionary v "im_dict im"]
    by (simp add: frame_of_def demand_page_def dict_index_div page_of_def empty_dictionary_def)
  have "tables_in {768} empty_dictionary" by (simp add: tables_in_def empty_dictionary_def)
  then have "tables_in {768} d" using init_vmm_map_tables [OF d(1)] by simp
  moreover have "0 \<notin> set (pmm_pages m)" using m(5) a by (auto simp: not_le [symmetric])
  moreover have "\<forall>p\<in>set (pmm_pages m). page_aligned p" unfolding m(3) using pages_from_aligned [OF al] by auto
  ultimately have "frames_safe (im_dict im) d m" "tables_in {768} d" using m(2,4) d(2) z by (auto simp: frames_safe_def)
  moreover have "length (pmm_pages m) = boot_pages im e" unfolding m(3) boot_pages_def by simp
  ultimately show ?thesis using m(1) d(1) by (simp add: init_vmm_def)
qed

text \<open>The state when the first store to the heap is about to be made.\<close>

definition memory_up :: "kernel_image \<Rightarrow> elf_t \<Rightarrow> kernel \<Rightarrow> kernel \<Rightarrow> bool" where
  "memory_up im elf k k1 \<longleftrightarrow> frames_safe (im_dict im) (k_dict k1) (k_pmm k1)
     \<and> interrupt_handlers (k_idt k1) = [33 \<mapsto> keyboard_isr, 14 \<mapsto> page_fault_handler] \<and> gates_installed (im_stub im) (k_idt k1)
     \<and> k_fs k1 = (k_fs k)\<lparr>lru_heap := init_heap (fs_mem (k_fs k))\<rparr> \<and> k_elf k1 = elf
     \<and> k_trace k1 = k_trace k @ port_events init_pic"

lemma kern_init_memory_ok:
  assumes im: "boot_image im" and e: "boot_map k mb e" and d: "k_dict k = empty_dictionary"
    and elf: "init_debug (fs_mem (k_fs k)) (literal (im_fs im)) mb (k_elf k) = Some elf"
  shows "\<exists>k1. kern_init_memory im mb k = Some (Inr k1) \<and> memory_up im elf k k1
    \<and> tables_in {768} (k_dict k1) \<and> length (pmm_pages (k_pmm k1)) = boot_pages im e"
proof -
  let ?m = "fs_mem (k_fs k)"
  obtain gdt gdt_ptr where g: "init_gdt (im_gdt im) (k_gdt k) = Inr (gdt, gdt_ptr)" using init_gdt_flat by blast
  define t where "t = fst (init_idt (im_stub im) (im_idt im) (k_idt k))"
  have t: "init_idt (im_stub im) (im_idt im) (k_idt k) = (t, init_pic)" "interrupt_handlers t = (\<lambda>_. None)" "gates_installed (im_stub im) t"
    by (simp_all add: t_def init_idt_installs, simp_all add: init_idt_def Let_def idt_set_gates_frame)
  obtain m dd t' cr3 where r: "init_pmm (im_size im) (mmap_entry ?m (field32 multiboot_t ''mmap_addr'' ?m mb))
      (field32 multiboot_t ''mmap_length'' ?m mb) (k_pmm k) = Inr m"
    "init_vmm (im_dict im) empty_dictionary (init_keyboard t) = Inr (dd, t', cr3)" "frames_safe (im_dict im) dd m"
    "t' = register_isr 14 page_fault_handler (init_keyboard t)" "tables_in {768} dd" "length (pmm_pages m) = boot_pages im e"
    using frames_safe_boot [OF im e [unfolded boot_map_def Let_def], of "k_pmm k" "init_keyboard t"] by blast
  have "interrupt_handlers t' = [33 \<mapsto> keyboard_isr, 14 \<mapsto> page_fault_handler]" "gates_installed (im_stub im) t'"
    using r(4) t(2,3) by (simp_all add: register_isr_def init_keyboard_def gates_installed_def)
  then show ?thesis using r(3,5,6)
    by (simp add: kern_init_memory_def Let_def elf g t(1) r(1) d r(2) memory_up_def)
qed

lemma memory_up_ready: "memory_up im elf k k1 \<Longrightarrow> vmm_ready im k1"
  by (simp add: memory_up_def vmm_ready_def)

lemma kern_init_threads_ok:
  assumes im: "boot_image im" and k: "memory_up im elf k k1" and c: "console_invar (fs_con (k_fs k))"
  shows "\<exists>k2. kern_init_threads im k1 = Inr k2 \<and> kernel_invar im k2 \<and> k_elf k2 = elf \<and> k_fs k2 = k_fs k1 \<and> k_dict k2 = k_dict k1
    \<and> k_pmm k2 = k_pmm k1 \<and> task_list (im_stack im) (the_sched k2) [im_stack im] \<and> running (the_sched k2) = im_stack im
    \<and> k_trace k2 = k_trace k @ port_events (init_pic @ [(0x43, 0x36), (0x40, 0x4D), (0x40, 0x17)])"
proof -
  define s where "s = init_kthread (im_stack im) (the_sched k1)"
  have h: "sched_heap (the_sched k1) = init_heap (fs_mem (k_fs k))" using k by (simp add: memory_up_def)
  have s: "task_list (im_stack im) s [im_stack im]" unfolding s_def using im h
    by (intro init_kthread_list) (simp_all add: init_heap_facts boot_image_def, simp_all add: init_heap_def ImplicitListAllocator_def kHeapStart_def)
  have r: "running s = im_stack im" "sched_heap s = lru_heap (k_fs k1)"
    by (simp_all add: s_def init_kthread_def TaskScheduler_def upd_task_def Let_def)
  have "interrupt_handlers (register_isr 32 timer_callback (k_idt k1)) = handlers"
    using k by (auto simp: memory_up_def handlers_def register_isr_def)
  moreover have "gates_installed (im_stub im) (register_isr 32 timer_callback (k_idt k1))" using k by (simp add: memory_up_def)
  ultimately have "kernel_invar im ((set_sched s k1)\<lparr>k_idt := register_isr 32 timer_callback (k_idt k1)\<rparr>)"
    using k c s r(1) by (simp add: kernel_invar_def memory_up_def the_sched_def set_sched_def) (metis list.set_intros(1))
  moreover have "the_sched ((set_sched s k1)\<lparr>k_idt := t, k_trace := es\<rparr>) = s" for t es by (simp add: the_sched_def set_sched_def)
  ultimately show ?thesis using k s r
    by (simp add: kern_init_threads_def Let_def init_timer_def s_def [symmetric] memory_up_def port_events_def) (simp add: set_sched_def)
qed

lemma memory_up_paged:
  assumes "memory_up im elf k k1" and "vmm_ready im (k1\<lparr>k_dict := d, k_pmm := m\<rparr>)"
  shows "memory_up im elf k (k1\<lparr>k_dict := d, k_pmm := m\<rparr>)"
  using assms by (simp add: memory_up_def vmm_ready_def)

lemma heap_addrs_init: "heap_addrs (init_heap m) = [0xD0000000]"
  by (simp add: heap_addrs_def init_heap_facts span_addrs_def) (simp add: init_heap_def ImplicitListAllocator_def kHeapStart_def)

text \<open>When the initialisation up to the timer succeeds, it has established the invariant.\<close>

lemma kern_init_core_invar:
  assumes im: "boot_image im" and e: "boot_map k mb e" and d: "k_dict k = empty_dictionary" and c: "console_invar (fs_con (k_fs k))"
    and elf: "init_debug (fs_mem (k_fs k)) (literal (im_fs im)) mb (k_elf k) = Some elf" and r: "kern_init_core im mb k = Some (Inr k0)"
  shows "kernel_invar im k0" and "k_fs k0 = (k_fs k)\<lparr>lru_heap := init_heap (fs_mem (k_fs k))\<rparr>"
    and "task_list (im_stack im) (the_sched k0) [im_stack im]" and "running (the_sched k0) = im_stack im" and "k_elf k0 = elf"
    and "k_trace k0 = k_trace k @ port_events (init_pic @ [(0x43, 0x36), (0x40, 0x4D), (0x40, 0x17)])"
proof -
  obtain k1 where k1: "kern_init_memory im mb k = Some (Inr k1)" "memory_up im elf k k1" using kern_init_memory_ok [OF im e d elf] by blast
  then obtain k2 where k2: "touch_heap im k1 = Some (Inr k2)" "kern_init_threads im k2 = Inr k0"
    using r by (auto simp: kern_init_core_def result_simps)
  from touch_all_returns [OF memory_up_ready [OF k1(2)] k2(1) [unfolded touch_heap_def]] have m: "memory_up im elf k k2"
    using memory_up_paged [OF k1(2)] by auto
  have "k_fs k2 = (k_fs k)\<lparr>lru_heap := init_heap (fs_mem (k_fs k))\<rparr>" using m by (simp add: memory_up_def)
  with kern_init_threads_ok [OF im m c] k2(2) show "kernel_invar im k0" "k_fs k0 = (k_fs k)\<lparr>lru_heap := init_heap (fs_mem (k_fs k))\<rparr>"
    "task_list (im_stack im) (the_sched k0) [im_stack im]" "running (the_sched k0) = im_stack im" "k_elf k0 = elf"
    "k_trace k0 = k_trace k @ port_events (init_pic @ [(0x43, 0x36), (0x40, 0x4D), (0x40, 0x17)])" by auto
qed

text \<open>It succeeds when there is a page for the first page of the heap and the one that is never handed out; the pages
  that are left are enough for the rest of \<open>Q\<close>.\<close>

lemma kern_init_core_ready:
  assumes im: "boot_image im" and e: "boot_map k mb e" and d: "k_dict k = empty_dictionary" and c: "console_invar (fs_con (k_fs k))"
    and elf: "init_debug (fs_mem (k_fs k)) (literal (im_fs im)) mb (k_elf k) = Some elf"
    and q: "finite Q" "0xD0000000 \<in> Q" "card Q < boot_pages im e"
  shows "\<exists>k0. kern_init_core im mb k = Some (Inr k0) \<and> pages_ready im Q k0 \<and> pd_mapped (im_dict im) (k_dict k0) 0xD0000000"
proof -
  obtain k1 where k1: "kern_init_memory im mb k = Some (Inr k1)" "memory_up im elf k k1" "tables_in {768} (k_dict k1)"
    "length (pmm_pages (k_pmm k1)) = boot_pages im e" using kern_init_memory_ok [OF im e d elf] by blast
  have "card {q \<in> Q. \<not> pd_mapped (im_dict im) (k_dict k1) q} \<le> card Q" using q(1) by (intro card_mono) auto
  then have "pages_ready im Q k1" using memory_up_ready [OF k1(2)] k1(3,4) q(1,3)
    by (auto simp: pages_ready_def tables_in_def heap_tables_def)
  moreover have "dict_index 0xD0000000 \<in> heap_tables" "page_of 0xD0000000 = 0xD0000000"
    by (simp_all add: dict_index_def heap_tables_def page_of_def ENTRY_ADDR_def)
  moreover have "heap_addrs (lru_heap (k_fs k1)) = [0xD0000000]" using k1(2) by (simp add: memory_up_def heap_addrs_init)
  ultimately obtain d m where t: "touch_heap im k1 = Some (Inr (k1\<lparr>k_dict := d, k_pmm := m\<rparr>))"
    "pages_ready im Q (k1\<lparr>k_dict := d, k_pmm := m\<rparr>)" "pd_mapped (im_dict im) d 0xD0000000"
    using touch_all_ready [of im Q k1 "[0xD0000000]"] q(2) by (auto simp: touch_heap_def)
  let ?k = "k1\<lparr>k_dict := d, k_pmm := m\<rparr>"
  have m: "memory_up im elf k ?k" using memory_up_paged [OF k1(2)] t(2) by (simp add: pages_ready_def)
  from kern_init_threads_ok [OF im m c] obtain k0 where k0: "kern_init_threads im ?k = Inr k0" "kernel_invar im k0" "k_dict k0 = d" "k_pmm k0 = m"
    by auto
  then have "pages_ready im Q k0" using t(2) kernel_invar_ready by (simp add: pages_ready_def)
  with k0 t(3) show ?thesis by (simp add: kern_init_core_def k1(1) t(1))
qed

lemma kern_init_core_ok:
  assumes b: "boot_image im" "boot_map k mb e" "k_dict k = empty_dictionary" "console_invar (fs_con (k_fs k))"
    "init_debug (fs_mem (k_fs k)) (literal (im_fs im)) mb (k_elf k) = Some elf" and n: "2 \<le> boot_pages im e"
  shows "\<exists>k0. kern_init_core im mb k = Some (Inr k0) \<and> kernel_invar im k0 \<and> k_elf k0 = elf
    \<and> k_trace k0 = k_trace k @ port_events (init_pic @ [(0x43, 0x36), (0x40, 0x4D), (0x40, 0x17)])
    \<and> pd_mapped (im_dict im) (k_dict k0) 0xD0000000"
proof -
  have q: "finite {0xD0000000 :: u32}" "0xD0000000 \<in> {0xD0000000 :: u32}" "card {0xD0000000 :: u32} < boot_pages im e" using n by simp_all
  from kern_init_core_ready [OF b q] obtain k0 where "kern_init_core im mb k = Some (Inr k0)" "pd_mapped (im_dict im) (k_dict k0) 0xD0000000" by blast
  then show ?thesis using kern_init_core_invar [OF b] by blast
qed

lemma kern_init_core_no_pages:
  assumes b: "boot_image im" "boot_map k mb e" "k_dict k = empty_dictionary"
    "init_debug (fs_mem (k_fs k)) (literal (im_fs im)) mb (k_elf k) = Some elf" and n: "boot_pages im e < 2"
  shows "kern_init_core im mb k = Some (Inl (if boot_pages im e = 1 then AssertFail ''out of memory'' else OutOfBounds))"
proof -
  obtain k1 where k1: "kern_init_memory im mb k = Some (Inr k1)" "memory_up im elf k k1" "tables_in {768} (k_dict k1)"
    "length (pmm_pages (k_pmm k1)) = boot_pages im e" using kern_init_memory_ok [OF b] by blast
  have wf: "pd_wf (im_dict im) (k_dict k1)" and h: "interrupt_handlers (k_idt k1) 14 = Some page_fault_handler"
    using k1(2) by (simp_all add: memory_up_def frames_safe_def)
  have ix: "dict_index 0xD0000000 = 832" by (simp add: dict_index_def)
  then have un: "\<not> pd_mapped (im_dict im) (k_dict k1) 0xD0000000" using k1(3) by (auto simp: pd_mapped_def tables_in_def Let_def)
  have room: "present (pd_entries (k_dict k1) (dict_index 0xD0000000)) \<or> unat (table_count (k_dict k1)) < TABLE_RESERVE"
  proof -
    have "card {i. present (pd_entries (k_dict k1) i)} \<le> card {768 :: nat}" using k1(3) by (intro card_mono) (simp_all add: tables_in_def)
    then show ?thesis using k1(3) by (simp add: tables_in_def TABLE_RESERVE_def)
  qed
  obtain i d' where d': "retrieve_table (im_dict im) 0xD0000000 (k_dict k1) = Inr (i, d')" using retrieve_table_spec [OF wf room] by blast
  note np = retrieve_table_unmapped [OF wf un d']
  have a: "pmm_alloc_page (k_pmm k1) = Inl (if boot_pages im e = 1 then AssertFail ''out of memory'' else OutOfBounds)"
  proof (cases "boot_pages im e")
    case 0
    then show ?thesis using k1(4) by (simp add: pmm_alloc_page_empty pmm_pages_def)
  next
    case (Suc n)
    then show ?thesis using n k1(4) by (simp add: pmm_alloc_page_last pmm_pages_def)
  qed
  have "heap_addrs (lru_heap (k_fs k1)) = [0xD0000000]" using k1(2) by (simp add: memory_up_def heap_addrs_init)
  moreover have "PAGE_WRITE AND PAGE_PRESENT = 0" by (simp add: PAGE_WRITE_def PAGE_PRESENT_def)
  ultimately have "touch_heap im k1 = Some (Inl (if boot_pages im e = 1 then AssertFail ''out of memory'' else OutOfBounds))"
    using un h d' np a by (simp add: touch_heap_def mem_access_def isr_dispatcher_def INTERRUPT_NUM_def run_handler_def handle_page_fault_def
        PageDictionary_index_def PageTable_index_def)
  then show ?thesis by (simp add: kern_init_core_def k1(1))
qed

section \<open>The temporary page tables\<close>

text \<open>How the processor translates an address through a page directory in physical memory.\<close>

definition page_walk :: "mem \<Rightarrow> u32 \<Rightarrow> u32 \<Rightarrow> u32 option" where
  "page_walk m cr3 v =
     (let pde = read32 m (cr3 + of_nat (4 * dict_index v)) in
      if \<not> present pde then None
      else let pte = read32 m ((pde AND ENTRY_ADDR) + of_nat (4 * table_index v)) in
           if \<not> present pte then None else Some ((pte AND ENTRY_ADDR) OR page_offset v))"

lemma table_index_div: "table_index a = unat a div 0x1000 mod 0x400"
  unfolding table_index_def vmm_masks
  by (simp add: unsigned_take_bit_eq take_bit_eq_mod unat_drop_bit_eq drop_bit_eq_div unat_mod unat_div flip: take_bit_eq_mask)

abbreviation tmp_word :: "nat \<Rightarrow> u32" where
  "tmp_word i \<equiv> push_bit 12 (of_nat i) OR PAGE_PRESENT OR PAGE_WRITE"

lemma tmp_entry_nat:
  "tmp_entry i m = write32 (write32 m (of_nat (0x2000 + 4 * i)) (tmp_word i)) (of_nat (0x3000 + 4 * i)) (tmp_word i)"
  by (simp add: tmp_entry_def pte_low_def pte_high_def Let_def)

lemma tmp_entry_other:
  assumes "i < 1024" and "y + 4 \<le> 0x4000" and "y + 4 \<le> 0x2000 + 4 * i \<or> 0x2000 + 4 * i + 4 \<le> y"
    and "y + 4 \<le> 0x3000 + 4 * i \<or> 0x3000 + 4 * i + 4 \<le> y"
  shows "read32 (tmp_entry i m) (of_nat y) = read32 m (of_nat y)"
proof -
  have "read32 (write32 (write32 m (of_nat (0x2000 + 4 * i)) w) (of_nat (0x3000 + 4 * i)) w) (of_nat y)
      = read32 (write32 m (of_nat (0x2000 + 4 * i)) w) (of_nat y)" for w
    using assms by (intro read32_write32_other) auto
  moreover have "read32 (write32 m (of_nat (0x2000 + 4 * i)) w) (of_nat y) = read32 m (of_nat y)" for w
    using assms by (intro read32_write32_other) auto
  ultimately show ?thesis unfolding tmp_entry_nat by metis
qed

lemma tmp_entry_same:
  assumes "i < 1024"
  shows "read32 (tmp_entry i m) (of_nat (0x2000 + 4 * i)) = tmp_word i" and "read32 (tmp_entry i m) (of_nat (0x3000 + 4 * i)) = tmp_word i"
proof -
  show "read32 (tmp_entry i m) (of_nat (0x2000 + 4 * i)) = tmp_word i" unfolding tmp_entry_nat
    by (subst read32_write32_other) (use assms in \<open>simp_all del: of_nat_add of_nat_mult\<close>)
  show "read32 (tmp_entry i m) (of_nat (0x3000 + 4 * i)) = tmp_word i" unfolding tmp_entry_nat by (rule read32_write32_same)
qed

lemma tmp_entries:
  assumes "n \<le> 1024"
  shows "i < n \<Longrightarrow> read32 (fold tmp_entry [0..<n] m) (of_nat (0x2000 + 4 * i)) = tmp_word i"
    and "i < n \<Longrightarrow> read32 (fold tmp_entry [0..<n] m) (of_nat (0x3000 + 4 * i)) = tmp_word i"
    and "y + 4 \<le> 0x2000 \<Longrightarrow> read32 (fold tmp_entry [0..<n] m) (of_nat y) = read32 m (of_nat y)"
  using assms
proof (induction n)
  case (Suc n)
  { case 1 then show ?case using Suc.IH(1) [OF _ _] tmp_entry_same(1) [of n] tmp_entry_other [of n "0x2000 + 4 * i"]
      by (cases "i = n") (simp_all del: of_nat_add of_nat_mult) }
  { case 2 then show ?case using Suc.IH(2) [OF _ _] tmp_entry_same(2) [of n] tmp_entry_other [of n "0x3000 + 4 * i"]
      by (cases "i = n") (simp_all del: of_nat_add of_nat_mult) }
  { case 3 then show ?case using Suc.IH(3) [OF _ _] tmp_entry_other [of n y] by simp }
qed simp_all

lemma page_walk_table:
  assumes pde: "read32 m (cr3 + of_nat (4 * dict_index v)) = tbl OR PAGE_PRESENT OR PAGE_WRITE" "page_aligned tbl"
    and pte: "read32 m (tbl + of_nat (4 * table_index v)) = tmp_word (table_index v)" and x: "table_index v = unat x div 0x1000"
      "page_offset v = page_offset x" "unat x < 0x400000"
  shows "page_walk m cr3 v = Some x"
proof -
  have al: "page_aligned (push_bit 12 (of_nat (table_index v)) :: u32)" using page_aligned_mult by (simp add: push_bit_eq_mult)
  have "unat x div 0x1000 < 1024" using x(3) by simp
  then have u: "unat (push_bit 12 (of_nat (unat x div 0x1000)) :: u32) = unat x div 0x1000 * 0x1000" by (rule unat_kernel_page)
  have "(push_bit 12 (of_nat (unat x div 0x1000)) :: u32) = page_of x"
  proof -
    have "page_of (push_bit 12 (of_nat (unat x div 0x1000))) = page_of x" unfolding page_of_eq_iff_div u by simp
    then show ?thesis using aligned_and_entry [OF al [unfolded x(1)]] by (simp add: page_of_def)
  qed
  then show ?thesis using pde pte aligned_flags_and_entry [OF pde(2)] aligned_flags_and_entry [OF al] x(1,2)
    by (simp add: page_walk_def Let_def)
qed

text \<open>C18. The temporary page tables of \<open>kern_entry\<close>, read as the processor reads them, map the first 4 MB of
  memory twice: each address below 4 MB to itself, so that the code goes on running when paging is
  switched on, and each address \<open>0xC0000000 + x\<close> to \<open>x\<close>, where the kernel is linked.\<close>

theorem kern_entry_tables_map:
  assumes "unat x < 0x400000"
  shows "page_walk (kern_entry_tables m) pde_tmp x = Some x \<and> page_walk (kern_entry_tables m) pde_tmp (VMA x) = Some x"
proof -
  define m1 where "m1 = write32 (write32 m pde_tmp (pte_low OR PAGE_PRESENT OR PAGE_WRITE)) (pde_tmp + 4 * PGD_INDEX PAGE_OFFSET)
    (pte_high OR PAGE_PRESENT OR PAGE_WRITE)"
  have m: "kern_entry_tables m = fold tmp_entry [0..<1024] m1" by (simp add: kern_entry_tables_def m1_def Let_def)
  have a: "pde_tmp + 4 * PGD_INDEX PAGE_OFFSET = of_nat 0x1C00" "pde_tmp = of_nat 0x1000"
    by (simp_all add: pde_tmp_def PGD_INDEX_def PAGE_OFFSET_def)
  have "read32 m1 (of_nat 0x1000) = pte_low OR PAGE_PRESENT OR PAGE_WRITE" unfolding m1_def a(1) unfolding a(2)
    by (subst read32_write32_other) (simp_all del: of_nat_numeral)
  then have pde: "read32 (kern_entry_tables m) pde_tmp = pte_low OR PAGE_PRESENT OR PAGE_WRITE"
    unfolding m a using tmp_entries(3) [of 1024 "0x1000" m1] by (simp del: of_nat_numeral)
  have "read32 m1 (of_nat 0x1C00) = pte_high OR PAGE_PRESENT OR PAGE_WRITE" unfolding m1_def a(1) by (rule read32_write32_same)
  then have pde': "read32 (kern_entry_tables m) (of_nat 0x1C00) = pte_high OR PAGE_PRESENT OR PAGE_WRITE"
    unfolding m using tmp_entries(3) [of 1024 "0x1C00" m1] by (simp del: of_nat_numeral)
  have i: "unat x div 0x1000 < 1024" using assms by simp
  have v: "unat (VMA x) = unat x + 0xC0000000" by (rule unat_VMA [OF assms])
  have t: "table_index x = unat x div 0x1000" "table_index (VMA x) = unat x div 0x1000"
    using i v mod_mult_self2 [of "unat x div 0x1000" "0x400" 768] by (simp_all add: table_index_div div_add1_eq [of _ "0xC0000000"])
  have o: "page_offset (VMA x) = page_offset x" using v mod_mult_self2 [of "unat x" "0x1000" "0xC0000"] by (simp add: word_unat_eq_iff unat_page_offset)
  have d: "dict_index x = 0" "dict_index (VMA x) = 768" using assms v by (simp_all add: dict_index_div)
  have "page_walk (kern_entry_tables m) pde_tmp x = Some x"
    by (rule page_walk_table [where tbl = pte_low])
      (use pde d(1) t(1) tmp_entries(1) [of 1024 "unat x div 0x1000" m1] i assms in \<open>simp_all add: m pte_low_def page_aligned_def\<close>)
  moreover have "page_walk (kern_entry_tables m) pde_tmp (VMA x) = Some x"
    by (rule page_walk_table [where tbl = pte_high])
      (use pde' d(2) t(2) o tmp_entries(2) [of 1024 "unat x div 0x1000" m1] i assms in \<open>simp_all add: m pde_tmp_def pte_high_def page_aligned_def\<close>)
  ultimately show ?thesis by blast
qed

theorem kern_entry_tables_map_witness:
  "page_walk (kern_entry_tables (\<lambda>_. 0)) pde_tmp 0x101234 = Some 0x101234
    \<and> page_walk (kern_entry_tables (\<lambda>_. 0)) pde_tmp (VMA 0x101234) = Some 0x101234"
  by (rule kern_entry_tables_map) simp

section \<open>Properties of the running kernel\<close>

text \<open>A machine with 47 MB of memory above 1 MB, and a kernel before its initialisation.\<close>

definition boot_mem :: mem where
  "boot_mem = (\<lambda>_. 0)(0x802C := 1, 0x8031 := 0x90, 0x9006 := 0x10, 0x900E := 0xF0, 0x900F := 2, 0x9014 := 1)"

definition boot_kernel :: kernel where
  "boot_kernel = \<lparr>k_elf = \<lparr>symtab = 0, symtabsz = 0, strtab = 0, strtabsz = 0\<rparr>,
     k_gdt = (\<lambda>_. \<lparr>limit_low = 0, base_low = 0, base_middle = 0, access = 0, granularity = 0, base_high = 0\<rparr>),
     k_gdt_ptr = \<lparr>gdt_limit = 0, gdt_base = 0\<rparr>, k_idt = example_idt, k_trace = [], k_pmm = example_pmm, k_dict = empty_dictionary,
     k_cr3 = 0, k_keyboard = \<lparr>is_shifting = False, is_ctrling = False, is_capslock = False\<rparr>, k_sched = boot_scheduler,
     k_fs = example_fs\<lparr>lru_heap := \<lparr>mstart = 0, mend = 0, il_mem = boot_mem\<rparr>\<rparr>\<rparr>"

definition example_kernel_image :: kernel_image where
  "example_kernel_image = \<lparr>im_fs = example_image, im_dict = 0xC0108000, im_stack = 0xC0104000, im_gdt = 0xC0107000,
     im_idt = 0xC0107100, im_stub = (\<lambda>i. 0xC0100000 + of_nat i * 16), im_size = 0x200000, im_ide_buf = 0xC0106000,
     im_exit = 0xC0102000\<rparr>"

lemma boot_kernel_facts:
  "boot_image example_kernel_image" "boot_map boot_kernel 0x8000 (mmap_entry boot_mem 0x9000 0)" "k_dict boot_kernel = empty_dictionary"
  "console_invar (fs_con (k_fs boot_kernel))"
  "init_debug (fs_mem (k_fs boot_kernel)) (literal (im_fs example_kernel_image)) 0x8000 (k_elf boot_kernel) = Some (k_elf boot_kernel)"
proof -
  have m: "fs_mem (k_fs boot_kernel) = boot_mem" by (simp add: boot_kernel_def fs_mem_def)
  show "boot_image example_kernel_image"
    by (simp add: boot_image_def example_kernel_image_def page_aligned_def kHeapStart_def)
  have "field32 multiboot_t ''mmap_addr'' boot_mem 0x8000 = 0x9000" "field32 multiboot_t ''mmap_length'' boot_mem 0x8000 = 1"
    by (simp_all add: field32_def multiboot_t_def read32_def boot_mem_def)
  moreover have "usable (mmap_entry boot_mem 0x9000 0)"
    by (simp add: usable_def mmap_entry_def elem_def mmap_layout_def field32_def read32_def boot_mem_def)
  ultimately show "boot_map boot_kernel 0x8000 (mmap_entry boot_mem 0x9000 0)" by (simp add: boot_map_def m)
  show "k_dict boot_kernel = empty_dictionary" by (simp add: boot_kernel_def)
  show "console_invar (fs_con (k_fs boot_kernel))" by (simp add: boot_kernel_def example_fs_def idle_fs_def example_console_def console_invar_def)
  have "field32 multiboot_t ''num'' boot_mem 0x8000 = 0" by (simp add: field32_def multiboot_t_def read32_def boot_mem_def)
  then show "init_debug (fs_mem (k_fs boot_kernel)) (literal (im_fs example_kernel_image)) 0x8000 (k_elf boot_kernel) = Some (k_elf boot_kernel)"
    by (simp add: m init_debug_def elf_from_multiboot_def Let_def)
qed

lemma boot_kernel_pages: "boot_pages example_kernel_image (mmap_entry boot_mem 0x9000 0) = 0x2D00"
proof -
  have "length_low (mmap_entry boot_mem 0x9000 0) = 0x02F00000"
    by (simp add: mmap_entry_def elem_def mmap_layout_def field32_def read32_def boot_mem_def)
  then show ?thesis by (simp add: boot_pages_def area_pages_def pages_between_def example_kernel_image_def PMM_MAX_SIZE_def)
qed

text \<open>The initialisation of the kernel up to the timer succeeds on every machine whose memory map has one
  usable area above 1 MB with at least two pages behind the kernel, for a kernel image as the linker script lays
  it out: it leaves well-formed page tables that map the first page of the heap, a pool of distinct, aligned
  free pages none of which is mapped, one running boot task, the three handlers in their vectors, and the
  interrupt controllers and the timer programmed (200 Hz).\<close>

lemma boot_kernel_init:
  "\<exists>k0. kern_init_core example_kernel_image 0x8000 boot_kernel = Some (Inr k0) \<and> kernel_invar example_kernel_image k0"
proof -
  have "2 \<le> boot_pages example_kernel_image (mmap_entry boot_mem 0x9000 0)" by (simp add: boot_kernel_pages)
  from kern_init_core_ok [OF boot_kernel_facts this] show ?thesis by blast
qed

lemma timer_irq:
  assumes k: "kernel_invar im k" and n: "int_no regs = 32"
  shows "\<exists>s. kthread_schedule (the_sched k) = Inr s
    \<and> irq_dispatcher im hw regs k = Some (Inr (set_sched s
        (k\<lparr>k_trace := k_trace k @ Port 0x20 0x20 # switch_event (running (k_sched k)) (running s)\<rparr>)))"
proof -
  let ?k = "k\<lparr>k_trace := k_trace k @ [Port 0x20 0x20]\<rparr>"
  have "kernel_invar im ?k" using k by simp
  moreover have "the_sched ?k = the_sched k" by (simp add: the_sched_def)
  ultimately obtain s where s: "kthread_schedule (the_sched k) = Inr s" using timer_tick by metis
  have "interrupt_handlers (k_idt k) 32 = Some timer_callback" using k by (simp add: kernel_invar_def handlers_def)
  with s n \<open>the_sched ?k = the_sched k\<close> show ?thesis by (simp add: irq_dispatcher_def INTERRUPT_NUM_def run_handler_def)
qed

text \<open>C3. Whatever sequence of exceptions, interrupts and thread creations follows the initialisation, with any
  inputs from the hardware, the kernel keeps its invariant: no frame is ever given to two different pages
  outside of the kernel's own 4 MB, no frame that is mapped there is handed out again, free pages stay distinct, the
  cursor stays on the screen, the running task is one of the circular list, and the handlers and gates stay installed.\<close>

theorem kernel_runs_safely:
  assumes "boot_image im" and "boot_map k mb e" and "k_dict k = empty_dictionary" and "console_invar (fs_con (k_fs k))"
    and "init_debug (fs_mem (k_fs k)) (literal (im_fs im)) mb (k_elf k) = Some elf"
    and "kern_init_core im mb k = Some (Inr k0)" and "(kstep im)\<^sup>*\<^sup>* k0 k'"
  shows "kernel_invar im k'"
proof -
  show ?thesis by (rule ksteps_invar [OF assms(7) kern_init_core_invar(1) [OF assms(1-6)]])
qed

theorem kernel_runs_safely_witness:
  "\<exists>k0 k1. kern_init_core example_kernel_image 0x8000 boot_kernel = Some (Inr k0)
    \<and> irq_dispatcher example_kernel_image \<lparr>hw_cr2 = 0, hw_key = 0\<rparr> (tick_regs 32 0) k0 = Some (Inr k1)
    \<and> kernel_invar example_kernel_image k1"
proof -
  let ?im = example_kernel_image
  obtain k0 where k0: "kern_init_core ?im 0x8000 boot_kernel = Some (Inr k0)" "kernel_invar ?im k0"
    using boot_kernel_init by blast
  obtain k1 where k1: "irq_dispatcher ?im \<lparr>hw_cr2 = 0, hw_key = 0\<rparr> (tick_regs 32 0) k0 = Some (Inr k1)"
    using timer_irq [OF k0(2), of "tick_regs 32 0"] by (auto simp: tick_regs_def)
  then have "(kstep ?im)\<^sup>*\<^sup>* k0 k1" by (intro r_into_rtranclp interrupt)
  from kernel_runs_safely [OF boot_kernel_facts k0(1) this] k0(1) k1 show ?thesis by blast
qed

text \<open>The first store to the heap needs a frame: on a machine with less than two pages behind the kernel the initialisation
  ends at the page fault of \<open>init_heap\<close>. With one page the kernel stops with "out of memory", with none the page manager
  reads its stack out of bounds.\<close>

lemma kern_init_out_of_memory:
  assumes "boot_image im" and "boot_map k mb e" and "k_dict k = empty_dictionary"
    and "init_debug (fs_mem (k_fs k)) (literal (im_fs im)) mb (k_elf k) = Some elf" and "boot_pages im e < 2"
  shows "kern_init_core im mb k = Some (Inl (if boot_pages im e = 1 then AssertFail ''out of memory'' else OutOfBounds))"
  by (rule kern_init_core_no_pages [OF assms])

definition poor_mem :: mem where
  "poor_mem = (\<lambda>_. 0)(0x802C := 1, 0x8031 := 0x90, 0x9006 := 0x10, 0x900D := 0x10, 0x900E := 0x20, 0x9014 := 1)"

lemma kern_init_out_of_memory_witness:
  "kern_init_core example_kernel_image 0x8000 (boot_kernel\<lparr>k_fs := set_mem poor_mem (k_fs boot_kernel)\<rparr>) = Some (Inl (AssertFail ''out of memory''))"
proof -
  let ?k = "boot_kernel\<lparr>k_fs := set_mem poor_mem (k_fs boot_kernel)\<rparr>" and ?e = "mmap_entry poor_mem 0x9000 0"
  have m: "fs_mem (k_fs ?k) = poor_mem" by (simp add: fs_mem_def set_mem_def)
  have f: "field32 multiboot_t ''mmap_addr'' poor_mem 0x8000 = 0x9000" "field32 multiboot_t ''mmap_length'' poor_mem 0x8000 = 1"
    "field32 multiboot_t ''num'' poor_mem 0x8000 = 0" by (simp_all add: field32_def multiboot_t_def read32_def poor_mem_def)
  have "usable ?e" by (simp add: usable_def mmap_entry_def elem_def mmap_layout_def field32_def read32_def poor_mem_def)
  then have e: "boot_map ?k 0x8000 ?e" unfolding boot_map_def m Let_def f by simp
  have d: "init_debug (fs_mem (k_fs ?k)) (literal (im_fs example_kernel_image)) 0x8000 (k_elf ?k) = Some (k_elf ?k)"
    unfolding m using f(3) by (simp add: init_debug_def elf_from_multiboot_def Let_def)
  have "length_low ?e = 0x201000" by (simp add: mmap_entry_def elem_def mmap_layout_def field32_def read32_def poor_mem_def)
  then have p: "boot_pages example_kernel_image ?e = 1"
    by (simp add: boot_pages_def area_pages_def pages_between_def example_kernel_image_def PMM_MAX_SIZE_def)
  have "k_dict ?k = empty_dictionary" using boot_kernel_facts(3) by simp
  from kern_init_out_of_memory [OF boot_kernel_facts(1) e this d] p show ?thesis by simp
qed

text \<open>C12. The timer interrupt always comes through: when the running task is not alone it is acknowledged at the master controller only, and after that,
  never before, the processor is handed to the successor of the running task in the circular list, whose saved
  registers become those of the processor. The trace of port writes and switches fixes the order: a switch
  before the acknowledgement would leave the controller silent while the other task runs.\<close>

theorem timer_interrupt_switches:
  assumes "kernel_invar im k" and "int_no regs = 32" and "running (k_sched k) \<noteq> task_next (tasks (k_sched k) (running (k_sched k)))"
  shows "\<exists>k'. irq_dispatcher im hw regs k = Some (Inr k') \<and> kernel_invar im k'
    \<and> running (k_sched k') = task_next (tasks (k_sched k) (running (k_sched k)))
    \<and> k_trace k' = k_trace k @ [Port 0x20 0x20, Switch (running (k_sched k'))]
    \<and> task_ctx (tasks (k_sched k') (running (k_sched k))) = cpu (k_sched k)
    \<and> cpu (k_sched k') = task_ctx (tasks (k_sched k) (running (k_sched k')))"
proof -
  obtain s where s: "kthread_schedule (the_sched k) = Inr s" "irq_dispatcher im hw regs k = Some (Inr (set_sched s
      (k\<lparr>k_trace := k_trace k @ Port 0x20 0x20 # switch_event (running (k_sched k)) (running s)\<rparr>)))"
    using timer_irq [OF assms(1,2)] by blast
  note inv = irq_dispatcher_invar [OF assms(1) s(2)]
  have "running (k_sched k) \<noteq> 0" using assms(1) by (auto simp: kernel_invar_def task_list_def ring_def)
  with inv show ?thesis using s assms(3)
    by (auto simp: kthread_schedule_def schedule_def change_task_to_def switch_to_def upd_task_def Let_def the_sched_def
        set_sched_def switch_event_def split: if_splits)
qed

lemma example_kernel_invar:
  assumes "kernel_invar example_kernel_image k"
  shows "kernel_invar example_kernel_image (set_sched example_scheduler k)"
proof -
  have "im_stack example_kernel_image = 0xC0104000" by (simp add: example_kernel_image_def)
  moreover have "running example_scheduler \<in> set [0xC0104000, 0x1004, 0x1030]" by (simp add: example_scheduler_def)
  ultimately show ?thesis using assms example_scheduler_list unfolding kernel_invar_def by auto
qed

theorem timer_interrupt_switches_witness:
  "\<exists>k k'. irq_dispatcher example_kernel_image \<lparr>hw_cr2 = 0, hw_key = 0\<rparr> (tick_regs 32 0) k = Some (Inr k')
    \<and> running (k_sched k) = 0x1004 \<and> running (k_sched k') = 0x1030"
proof -
  obtain k0 where k0: "kernel_invar example_kernel_image k0" using boot_kernel_init by blast
  let ?k = "set_sched example_scheduler k0"
  have r: "running (k_sched ?k) = 0x1004" "task_next (tasks (k_sched ?k) 0x1004) = 0x1030"
    by (simp_all add: set_sched_def example_scheduler_def example_task_def)
  have "\<exists>k'. irq_dispatcher example_kernel_image \<lparr>hw_cr2 = 0, hw_key = 0\<rparr> (tick_regs 32 0) ?k = Some (Inr k') \<and> running (k_sched k') = 0x1030"
    using timer_interrupt_switches [OF example_kernel_invar [OF k0], of "tick_regs 32 0" "\<lparr>hw_cr2 = 0, hw_key = 0\<rparr>"] r by (auto simp: tick_regs_def)
  with r(1) show ?thesis by blast
qed

text \<open>A page fault on an address that is not mapped is served: the handler takes the top free page, maps exactly
  the faulting page to it, changes no other translation, and the page is no longer free, so a retried access
  succeeds and the frame belongs to this page alone.\<close>

lemma page_fault_served:
  assumes "kernel_invar im k" and "int_no regs = 14" and "err_code regs AND PAGE_PRESENT = 0"
    and "\<not> pd_mapped (im_dict im) (k_dict k) (hw_cr2 hw)" and "pd_has_room (k_dict k) (dict_index (hw_cr2 hw))"
    and "2 \<le> length (pmm_pages (k_pmm k))"
  shows "\<exists>p k'. isr_dispatcher im hw regs k = Some (Inr k') \<and> kernel_invar im k' \<and> pmm_pages (k_pmm k) = p # pmm_pages (k_pmm k')
    \<and> pd_mapped (im_dict im) (k_dict k') (hw_cr2 hw)
    \<and> (\<forall>v. frame_of (im_dict im) (k_dict k') v = (if page_of v = page_of (hw_cr2 hw) then p else frame_of (im_dict im) (k_dict k) v))"
proof -
  obtain p d m where r: "isr_dispatcher im hw regs k = Some (Inr (k\<lparr>k_dict := d, k_pmm := m\<rparr>))" "pmm_pages (k_pmm k) = p # pmm_pages m"
    "pd_mapped (im_dict im) d (hw_cr2 hw)"
    "\<forall>v. frame_of (im_dict im) d v = (if page_of v = page_of (hw_cr2 hw) then p else frame_of (im_dict im) (k_dict k) v)"
    using page_fault_frames [OF kernel_invar_ready [OF assms(1)] assms(2-)] by blast
  then show ?thesis using isr_dispatcher_invar [OF assms(1) r(1)] by (intro exI [of _ p] exI) auto
qed

definition small_pmm :: pmm where
  "small_pmm = \<lparr>pmm_stack = (\<lambda>i. 0x300000 + of_nat i * 0x1000), pmm_stack_top = 1, phy_page_count = 2\<rparr>"

lemma small_pmm_facts: "pmm_wf small_pmm" "pmm_pages small_pmm = [0x301000, 0x300000]"
proof -
  have "pmm_depth small_pmm = Suc (Suc 0)" by (simp add: small_pmm_def pmm_depth_def)
  then show "pmm_wf small_pmm" "pmm_pages small_pmm = [0x301000, 0x300000]"
    by (simp_all add: pmm_wf_def pmm_pages_def pmm_stack_len_def PAGE_MAX_SIZE_eq, simp_all add: small_pmm_def)
qed

lemma small_kernel_invar:
  assumes "kernel_invar example_kernel_image k"
  shows "kernel_invar example_kernel_image (k\<lparr>k_dict := empty_dictionary, k_pmm := small_pmm\<rparr>)"
proof -
  have "frame_of 0xC0108000 empty_dictionary v = 0" for v
    using pd_at_absent [of empty_dictionary v "0xC0108000"] by (simp add: frame_of_def page_of_def empty_dictionary_def)
  then have "frames_safe 0xC0108000 empty_dictionary small_pmm"
    by (simp add: frames_safe_def small_pmm_facts pd_wf_empty page_aligned_def)
  then show ?thesis using assms by (simp add: kernel_invar_def the_sched_def example_kernel_image_def)
qed

lemma page_fault_served_witness:
  "\<exists>k k'. isr_dispatcher example_kernel_image \<lparr>hw_cr2 = 0x10002004, hw_key = 0\<rparr> (tick_regs 14 2) k = Some (Inr k')
    \<and> frame_of 0xC0108000 (k_dict k) 0x10002ABC = 0 \<and> frame_of 0xC0108000 (k_dict k') 0x10002ABC = 0x301000"
proof -
  let ?im = example_kernel_image and ?hw = "\<lparr>hw_cr2 = 0x10002004, hw_key = 0\<rparr>"
  obtain k0 where k0: "kernel_invar ?im k0" using boot_kernel_init by blast
  define k where "k = k0\<lparr>k_dict := empty_dictionary, k_pmm := small_pmm\<rparr>"
  have "kernel_invar ?im k" unfolding k_def by (rule small_kernel_invar [OF k0])
  moreover have "\<not> pd_mapped (im_dict ?im) (k_dict k) 0x10002004" by (simp add: k_def pd_mapped_def empty_dictionary_def)
  moreover have "page_of 0x10002ABC = page_of 0x10002004" by (simp add: page_of_def ENTRY_ADDR_def)
  ultimately obtain p k' where "isr_dispatcher ?im ?hw (tick_regs 14 2) k = Some (Inr k')" "pmm_pages (k_pmm k) = p # pmm_pages (k_pmm k')"
    "frame_of (im_dict ?im) (k_dict k') 0x10002ABC = p"
    using page_fault_served [of ?im k "tick_regs 14 2" ?hw]
    by (auto simp: tick_regs_def PAGE_PRESENT_def k_def pd_has_room_empty small_pmm_facts)
  moreover have "frame_of 0xC0108000 (k_dict k) 0x10002ABC = 0"
    using pd_at_absent [of empty_dictionary "0x10002ABC" "0xC0108000"] by (simp add: k_def frame_of_def page_of_def empty_dictionary_def)
  moreover have "k_pmm k = small_pmm" "im_dict ?im = 0xC0108000" by (simp_all add: k_def example_kernel_image_def)
  ultimately show ?thesis by (intro exI [of _ k] exI [of _ k']) (simp add: small_pmm_facts)
qed

end
