(* ===== verification/Sprite_Mount.thy ===== *)
theory Sprite_Mount
  imports Sprite_Kernel Sprite_Fs_Init
begin

text \<open>
  The start of the whole system: the initialisation of the kernel finds the disk and mounts the file system, on
  the heap and the console that the other components use too.
\<close>

section \<open>The heap at the start\<close>

lemma init_heap_bounds: "mstart (init_heap m) = 0xD0000000" "mend (init_heap m) = 0xD1000000"
  by (simp_all add: init_heap_def ImplicitListAllocator_def kHeapStart_def kHeapEnd_def)

text \<open>Stores below the heap leave it one free block.\<close>

lemma init_heap_below:
  fixes a :: u32 and m :: mem and f :: "nat \<Rightarrow> u32" and n :: nat
  assumes "unat a + 4 * n \<le> 0xD0000000"
  defines "h \<equiv> (init_heap m)\<lparr>il_mem := write_words (il_mem (init_heap m)) a f n\<rparr>"
  shows "il_invar h" and "il_blocks h = [(0xFFFFFC, False)]"
proof -
  have w: "unat a + 4 * n \<le> 2 ^ 32" using assms(1) by simp
  have "write_words (il_mem (init_heap m)) a f n (of_nat y) = il_mem (init_heap m) (of_nat y)"
    if "unat (mstart (init_heap m)) \<le> y" "y < unat (mend (init_heap m))" for y
    using that assms(1) by (intro write_words_read(2) [OF w]) (simp_all add: init_heap_bounds)
  from il_frame [OF init_heap_facts(1), of m, OF this] show "il_invar h" "il_blocks h = [(0xFFFFFC, False)]"
    by (simp_all add: h_def init_heap_facts)
qed

section \<open>The pages of the heap\<close>

definition heap_pages :: "u32 set" where
  "heap_pages = (\<lambda>i. of_nat (i * 0x1000)) ` {0xD0000..<0xD1000}"

lemma heap_pages_card: "finite heap_pages" "card heap_pages \<le> 0x1000" "0xD0000000 \<in> heap_pages"
proof -
  show "finite heap_pages" unfolding heap_pages_def by (intro finite_imageI) simp
  have "card heap_pages \<le> card {0xD0000..<0xD1000 :: nat}" unfolding heap_pages_def by (intro card_image_le) simp
  then show "card heap_pages \<le> 0x1000" by simp
  have "(0xD0000000 :: u32) = of_nat (0xD0000 * 0x1000)" by simp
  then show "0xD0000000 \<in> heap_pages" unfolding heap_pages_def by (intro image_eqI [where x = "0xD0000"]) simp_all
qed

lemma heap_page_ready:
  assumes "0xD0000000 \<le> unat a" and "unat a < 0xD1000000"
  shows "dict_index a \<in> heap_tables" and "page_of a \<in> heap_pages"
proof -
  have "832 \<le> unat a div 0x400000" "unat a div 0x400000 < 836" using assms by (simp_all add: less_eq_div_iff_mult_less_eq div_less_iff_less_mult)
  then show "dict_index a \<in> heap_tables" unfolding dict_index_div heap_tables_def by auto
  let ?i = "unat a div 0x1000"
  have i: "0xD0000 \<le> ?i" "?i < 0xD1000" using assms by (simp_all add: less_eq_div_iff_mult_less_eq div_less_iff_less_mult)
  then have u: "unat (of_nat (?i * 0x1000) :: u32) = ?i * 0x1000" by (subst unat_of_nat_u32) simp_all
  have "page_of (of_nat (?i * 0x1000)) = page_of a" unfolding page_of_eq_iff_div u by simp
  moreover have "page_of (of_nat ?i * 0x1000) = of_nat ?i * 0x1000" by (simp add: page_of_def)
  ultimately have "page_of a = of_nat (?i * 0x1000)" by simp
  then show "page_of a \<in> heap_pages" unfolding heap_pages_def using i by auto
qed

text \<open>The addresses that are touched lie in the blocks, and there is one for each page of a block.\<close>

lemma span_addrs_in:
  assumes "b \<in> set (span_addrs a n)" and "0 < n" and "a + n \<le> 2 ^ 32"
  shows "a \<le> unat b" and "unat b < a + n"
proof -
  have "a \<le> unat b \<and> unat b < a + n"
  proof (cases "b = of_nat a")
    case True
    then show ?thesis using assms(2,3) by (simp add: unat_of_nat_u32)
  next
    case False
    then obtain i where i: "b = of_nat (i * 0x1000)" "a div 0x1000 < i" "i \<le> (a + n - 1) div 0x1000" using assms(1) by (auto simp: span_addrs_def)
    have "i * 0x1000 \<le> (a + n - 1) div 0x1000 * 0x1000" using i(3) by simp
    also have "\<dots> \<le> a + n - 1" by (rule div_times_less_eq_dividend)
    finally have "i * 0x1000 < a + n" using assms(2) by linarith
    moreover have "a < i * 0x1000" using i(2) by (simp add: div_less_iff_less_mult)
    ultimately show ?thesis using assms(3) unfolding i(1) by (subst (1 2) unat_of_nat_u32) simp_all
  qed
  then show "a \<le> unat b" "unat b < a + n" by simp_all
qed

lemma span_addrs_cover:
  assumes "a \<le> x" and "x < a + n" and "a + n \<le> 2 ^ 32"
  shows "\<exists>b\<in>set (span_addrs a n). page_of b = page_of (of_nat x)"
proof (cases "x div 0x1000 = a div 0x1000")
  case True
  then have "page_of (of_nat a) = page_of (of_nat x)" using assms by (simp add: page_of_eq_iff_div unat_of_nat_u32)
  then show ?thesis by (intro bexI [of _ "of_nat a"]) (simp_all add: span_addrs_def)
next
  case False
  let ?i = "x div 0x1000"
  have "a div 0x1000 \<le> ?i" "?i \<le> (a + n - 1) div 0x1000" using assms by (simp_all add: div_le_mono)
  then have "?i \<in> set [Suc (a div 0x1000)..<Suc ((a + n - 1) div 0x1000)]" using False by (simp only: set_upt atLeastLessThan_iff) linarith
  then have "of_nat (?i * 0x1000) \<in> set (span_addrs a n)" unfolding span_addrs_def set_simps set_map by (intro insertI2 imageI)
  moreover have "?i * 0x1000 \<le> x" by (rule div_times_less_eq_dividend)
  then have "page_of (of_nat (?i * 0x1000)) = page_of (of_nat x)" unfolding page_of_eq_iff_div using assms
    by (subst (1 2) unat_of_nat_u32) simp_all
  ultimately show ?thesis by blast
qed

lemma used_addrs_in:
  "b \<in> set (used_addrs a bs) \<Longrightarrow> a + blocks_len bs \<le> 2 ^ 32 \<Longrightarrow> a \<le> unat b \<and> unat b < a + blocks_len bs"
proof (induction a bs rule: used_addrs.induct)
  case (2 a n alloc bs)
  show ?case
  proof (cases "b \<in> set (span_addrs a (if alloc then 4 + n else 4))")
    case True
    then show ?thesis using span_addrs_in [OF True] "2.prems"(2) by (auto split: if_splits)
  next
    case False
    then show ?thesis using 2 by auto
  qed
qed simp

lemma used_addrs_cover:
  "(p, len) \<in> live a bs \<Longrightarrow> a + blocks_len bs \<le> 2 ^ 32 \<Longrightarrow> p \<le> x \<Longrightarrow> x < p + len \<Longrightarrow>
     \<exists>b\<in>set (used_addrs a bs). page_of b = page_of (of_nat x)"
proof (induction a bs rule: used_addrs.induct)
  case (2 a n alloc bs)
  show ?case
  proof (cases "alloc \<and> (p, len) = (a + 4, n)")
    case True
    then show ?thesis using span_addrs_cover [of a x "4 + n"] "2.prems" by auto
  next
    case False
    then show ?thesis using 2 by (auto split: if_splits)
  qed
qed simp

text \<open>Every byte of every allocated block is in a mapped page.\<close>

definition heap_mapped :: "kernel_image \<Rightarrow> kernel \<Rightarrow> bool" where
  "heap_mapped im k \<longleftrightarrow> (\<forall>(p, len)\<in>il_regions (lru_heap (k_fs k)). \<forall>x\<in>{p..<p + len}. pd_mapped (im_dict im) (k_dict k) (of_nat x))"

text \<open>With a page for each page of the heap the faults on it are served.\<close>

lemma touch_heap_ok:
  assumes k: "pages_ready im heap_pages k"
    and h: "il_invar (lru_heap (k_fs k))" "mstart (lru_heap (k_fs k)) = 0xD0000000" "mend (lru_heap (k_fs k)) = 0xD1000000"
  shows "\<exists>d m. touch_heap im k = Some (Inr (k\<lparr>k_dict := d, k_pmm := m\<rparr>)) \<and> frames_safe (im_dict im) d m
    \<and> heap_mapped im (k\<lparr>k_dict := d, k_pmm := m\<rparr>)"
proof -
  let ?h = "lru_heap (k_fs k)"
  have e: "unat (mstart ?h) + blocks_len (il_blocks ?h) = 0xD1000000"
    using h heap_blocks_end by (fastforce simp: il_invar_def il_wf_def)
  have "dict_index a \<in> heap_tables \<and> page_of a \<in> heap_pages" if "a \<in> set (heap_addrs ?h)" for a
    using used_addrs_in [OF that [unfolded heap_addrs_def]] e h(2) heap_page_ready [of a] by simp
  from touch_all_ready [OF k, of "heap_addrs ?h"] this obtain d m where d:
    "touch_all im (heap_addrs ?h) k = Some (Inr (k\<lparr>k_dict := d, k_pmm := m\<rparr>))" "pages_ready im heap_pages (k\<lparr>k_dict := d, k_pmm := m\<rparr>)"
    "\<forall>a\<in>set (heap_addrs ?h). pd_mapped (im_dict im) d a" by blast
  have "pd_mapped (im_dict im) d (of_nat x)" if r: "(p, len) \<in> il_regions ?h" and x: "x \<in> {p..<p + len}" for p len x
  proof -
    obtain b where "b \<in> set (heap_addrs ?h)" "page_of b = page_of (of_nat x)"
      using used_addrs_cover [OF r [unfolded il_regions_def], of x] x e unfolding heap_addrs_def by auto
    then show ?thesis using d(3) pd_mapped_page by blast
  qed
  then have "heap_mapped im (k\<lparr>k_dict := d, k_pmm := m\<rparr>)" by (auto simp: heap_mapped_def)
  then show ?thesis using d(1,2) by (auto simp: touch_heap_def pages_ready_def vmm_ready_def)
qed

section \<open>Mounting\<close>

text \<open>The disk is found, and the file system starts with an empty cache over a fresh heap.\<close>

lemma k_ide_init_ok:
  assumes dev: "drive_ready dev dsk (k_fs k)" "ata_present dev" and b: "unat (im_ide_buf im) + 512 \<le> 0xD0000000"
    and h: "lru_heap (k_fs k) = init_heap m" and c: "cache_empty (k_fs k)" and n: "n \<le> 307"
  shows "\<exists>s. k_ide_init dev im k = Some (Inr (0, k\<lparr>k_fs := s\<rparr>)) \<and> fs_ok dev dsk n s \<and> dsk (fs_log s) = dsk (fs_log (k_fs k))
    \<and> fs_con s = fs_con (k_fs k) \<and> mstart (lru_heap s) = 0xD0000000 \<and> mend (lru_heap s) = 0xD1000000"
proof -
  let ?io = "\<lparr>ide_mem = fs_mem (k_fs k), io_log = fs_log (k_fs k)\<rparr>"
  have w: "ata_working dev dsk" "ata_idle dev (io_log ?io)" using dev(1) by (simp_all add: drive_ready_def)
  obtain d io f where i: "ide_init dev (im_ide_buf im) (fs_dev (k_fs k)) ?io = Some (0, d, io)" "ide_device_valid d"
    "dsk (io_log io) = dsk (fs_log (k_fs k))" "ide_mem io = write_words (fs_mem (k_fs k)) (im_ide_buf im) f 128"
    "ata_idle dev (io_log io)" using ide_init_ok [OF w(1) dev(2) w(2), of "im_ide_buf im" "fs_dev (k_fs k)"] by auto
  define s where "s = (set_mem (ide_mem io) (k_fs k))\<lparr>fs_log := io_log io, fs_dev := d\<rparr>"
  have lh: "lru_heap s = (init_heap m)\<lparr>il_mem := write_words (il_mem (init_heap m)) (im_ide_buf im) f 128\<rparr>"
    by (simp add: s_def set_mem_def h i(4) fs_mem_def)
  have "unat (im_ide_buf im) + 4 * 128 \<le> 0xD0000000" using b by simp
  note ih = init_heap_below [OF this, of m f, folded lh]
  have "cache_empty s" using c by (simp add: s_def set_mem_def cache_empty_def)
  moreover have "fs_dev s = d" "drive_ready dev dsk s" using w(1) i(5) by (simp_all add: s_def drive_ready_def)
  moreover have "0 < mstart (lru_heap s)" by (simp add: lh init_heap_bounds)
  ultimately have "fs_ok dev dsk n s" using i(2) ih n by (intro empty_cache_ok) simp_all
  then show ?thesis using i(1,3) by (intro exI [of _ s]) (simp add: k_ide_init_def s_def lh [unfolded s_def] init_heap_bounds, simp add: set_mem_def h init_heap_bounds)
qed

text \<open>The invariant of the kernel does not depend on what the file system does with its heap, while the boot task
  is the only one.\<close>

lemma kernel_invar_fs:
  assumes k: "kernel_invar im k" and t: "task_list (im_stack im) (the_sched k) [im_stack im]" "running (the_sched k) = im_stack im"
    and c: "console_invar (fs_con s)" and h: "il_invar (lru_heap s)" "mstart (lru_heap s) = mstart (lru_heap (k_fs k))" "mend (lru_heap s) = mend (lru_heap (k_fs k))"
  shows "kernel_invar im (k\<lparr>k_fs := s\<rparr>)"
proof -
  have "task_list (im_stack im) (the_sched (k\<lparr>k_fs := s\<rparr>)) [im_stack im]" using t(1) h by (simp add: task_list_def the_sched_def)
  then show ?thesis using k c t(2) by (auto simp: kernel_invar_def the_sched_def)
qed

lemma kern_init_mount_ok:
  assumes im: "boot_image im" and e: "boot_map k mb e" and dict: "k_dict k = empty_dictionary" and con: "console_invar (fs_con (k_fs k))"
    and elf: "init_debug (fs_mem (k_fs k)) (literal (im_fs im)) mb (k_elf k) = Some elf" and pages: "0x1000 < boot_pages im e"
    and dev: "drive_ready dev dsk (k_fs k)" "ata_present dev" and c: "cache_empty (k_fs k)" and d: "dsk (fs_log (k_fs k)) = d"
    and room: "1 + blocks_for (sb_half d 0) 32 + blocks_for (sb_half d 0 div 8) 1024 + blocks_for (sb_half d 1 div 8) 1024 \<le> 307"
    and buf: "unat (im_ide_buf im) + 512 \<le> 0xD0000000"
    and tabs: "\<forall>(a, n)\<in>set (fs_tables (im_fs im) d). unat a + n \<le> 0xD0000000" "spans_apart (fs_tables (im_fs im) d)"
  shows "\<exists>k'. kern_init_mount dev im mb k = Some (Inr k') \<and> kernel_invar im k' \<and> heap_mapped im k' \<and> fs_ok dev dsk 0 (k_fs k')
    \<and> dsk (fs_log (k_fs k')) = d \<and> lru_cb (k_fs k') = uncache_addr (im_fs im) \<and> sb_loaded (im_fs im) d (k_fs k')
    \<and> table_loaded (inode_at (im_fs im) 1) 56 32 (inode_block d) 32 d (sb_half d 0) (k_fs k')
    \<and> table_loaded (g_imap_data (im_fs im)) 1 1 2 1 d (sb_half d 0 div 8) (k_fs k')
    \<and> table_loaded (g_zmap_data (im_fs im)) 1 1 (of_nat (2 + sb_half d 2)) 1 d (sb_half d 1 div 8) (k_fs k')"
proof -
  have "card heap_pages < boot_pages im e" using heap_pages_card(2) pages by simp
  from kern_init_core_ready [OF im e dict con elf heap_pages_card(1,3) this] obtain k0 where k0:
    "kern_init_core im mb k = Some (Inr k0)" "pages_ready im heap_pages k0" by blast
  note f0 = kern_init_core_invar [OF im e dict con elf k0(1)]
  have h: "cache_empty (k_fs k0)" "lru_heap (k_fs k0) = init_heap (fs_mem (k_fs k))" "drive_ready dev dsk (k_fs k0)"
    using c dev(1) f0(2) by (simp_all add: cache_empty_def)
  from k_ide_init_ok [OF h(3) dev(2) buf h(2,1) room] obtain s where s: "k_ide_init dev im k0 = Some (Inr (0, k0\<lparr>k_fs := s\<rparr>))"
    "fs_ok dev dsk (1 + blocks_for (sb_half d 0) 32 + blocks_for (sb_half d 0 div 8) 1024 + blocks_for (sb_half d 1 div 8) 1024 + 0) s"
    "dsk (fs_log s) = d" "fs_con s = fs_con (k_fs k)" "mstart (lru_heap s) = 0xD0000000" "mend (lru_heap s) = 0xD1000000"
    using d f0(2) by auto
  have "\<forall>(a, n)\<in>set (fs_tables (im_fs im) d). off_heap s a n" using tabs(1) s(5) by (auto simp: off_heap_def)
  from init_fs_ok [OF s(2,3) this tabs(2)] obtain s' where s': "init_fs dev (im_fs im) s = Some (Inr s')" "fs_ok dev dsk 0 s'"
    "lru_cb s' = uncache_addr (im_fs im)" "dsk (fs_log s') = d" "sb_loaded (im_fs im) d s'"
    "table_loaded (inode_at (im_fs im) 1) 56 32 (inode_block d) 32 d (sb_half d 0) s'"
    "table_loaded (g_imap_data (im_fs im)) 1 1 2 1 d (sb_half d 0 div 8) s'"
    "table_loaded (g_zmap_data (im_fs im)) 1 1 (of_nat (2 + sb_half d 2)) 1 d (sb_half d 1 div 8) s'" "same_machine s s'" by blast
  let ?k = "k0\<lparr>k_fs := s'\<rparr>"
  have il: "il_invar (lru_heap s')" "mstart (lru_heap s') = 0xD0000000" "mend (lru_heap s') = 0xD1000000"
    using s'(2,9) s(5,6) by (simp_all add: fs_ok_def lru_invar_def lru_list_def same_machine_def)
  have inv: "kernel_invar im ?k"
    by (intro kernel_invar_fs [OF f0(1,3,4)]) (use il s'(9) s(4) con f0(2) in \<open>simp_all add: same_machine_def init_heap_bounds\<close>)
  have "pages_ready im heap_pages ?k" using k0(2) by (simp add: pages_ready_def vmm_ready_def)
  from touch_heap_ok [OF this] il obtain dd m where t: "touch_heap im ?k = Some (Inr (?k\<lparr>k_dict := dd, k_pmm := m\<rparr>))"
    "frames_safe (im_dict im) dd m" "heap_mapped im (?k\<lparr>k_dict := dd, k_pmm := m\<rparr>)" by auto
  have "kernel_invar im (?k\<lparr>k_dict := dd, k_pmm := m\<rparr>)" using inv t(2) by (simp add: kernel_invar_def the_sched_def)
  moreover have "kern_init_mount dev im mb k = Some (Inr (?k\<lparr>k_dict := dd, k_pmm := m\<rparr>))"
    using k0(1) s(1) s'(1) t(1) by (simp add: kern_init_mount_def on_fs_def)
  ultimately show ?thesis using s' t(3) by auto
qed

section \<open>Properties\<close>

text \<open>C10. The kernel starts and mounts its file system: on a machine whose memory map has one usable area above 1 MB with
  more than 4096 pages behind the kernel, and whose drive is present and working, with static tables below the heap and a file
  system whose tables fit into the cache, \<open>kern_init\<close> up to and with \<open>init_fs\<close> succeeds: every page fault that it takes on the
  heap, from the first store of \<open>init_heap\<close> on, finds a page table and a frame. The invariant of the kernel holds, every
  allocated byte of the heap is mapped, the cache is coherent, the disk is unchanged, and super block, inodes and bitmaps in
  memory are those of the disk.\<close>

theorem kern_init_mounts:
  assumes "boot_image im" and "boot_map k mb e" and "k_dict k = empty_dictionary" and "console_invar (fs_con (k_fs k))"
    and "init_debug (fs_mem (k_fs k)) (literal (im_fs im)) mb (k_elf k) = Some elf" and "0x1000 < boot_pages im e"
    and "drive_ready dev dsk (k_fs k)" and "ata_present dev" and "cache_empty (k_fs k)" and "dsk (fs_log (k_fs k)) = d"
    and "1 + blocks_for (sb_half d 0) 32 + blocks_for (sb_half d 0 div 8) 1024 + blocks_for (sb_half d 1 div 8) 1024 \<le> 307"
    and "unat (im_ide_buf im) + 512 \<le> 0xD0000000"
    and "\<forall>(a, n)\<in>set (fs_tables (im_fs im) d). unat a + n \<le> 0xD0000000" and "spans_apart (fs_tables (im_fs im) d)"
  shows "\<exists>k'. kern_init_mount dev im mb k = Some (Inr k') \<and> kernel_invar im k' \<and> heap_mapped im k' \<and> fs_ok dev dsk 0 (k_fs k')
    \<and> dsk (fs_log (k_fs k')) = d \<and> lru_cb (k_fs k') = uncache_addr (im_fs im) \<and> sb_loaded (im_fs im) d (k_fs k')
    \<and> table_loaded (inode_at (im_fs im) 1) 56 32 (inode_block d) 32 d (sb_half d 0) (k_fs k')
    \<and> table_loaded (g_imap_data (im_fs im)) 1 1 2 1 d (sb_half d 0 div 8) (k_fs k')
    \<and> table_loaded (g_zmap_data (im_fs im)) 1 1 (of_nat (2 + sb_half d 2)) 1 d (sb_half d 1 div 8) (k_fs k')"
  by (rule kern_init_mount_ok [OF assms])

lemma boot_kernel_disk:
  "drive_ready (ata_sim f) (ata_disk f) (k_fs boot_kernel)" "ata_present (ata_sim f)" "cache_empty (k_fs boot_kernel)"
  "ata_disk f (fs_log (k_fs boot_kernel)) = f"
  by (simp_all add: boot_kernel_def example_fs_def idle_fs_def cache_empty_def drive_ready_def ata_sim_working ata_sim_present
      ata_idle.power_on ata_disk_def ata_run_def)

lemma boot_tables:
  "im_fs example_kernel_image = example_image"
  "fs_tables example_image inode_disk = [(0x2000, 39), (0x1038, 112), (0x2100, 0), (0x2200, 2)]" "spans_apart (fs_tables example_image inode_disk)"
proof -
  show "im_fs example_kernel_image = example_image" by (simp add: example_kernel_image_def)
  show t: "fs_tables example_image inode_disk = [(0x2000, 39), (0x1038, 112), (0x2100, 0), (0x2200, 2)]"
    unfolding fs_tables_def inode_disk_facts by (simp add: example_image_def inode_at_def layout_sizes)
  show "spans_apart (fs_tables example_image inode_disk)" unfolding t by (auto simp: span_def)
qed

theorem kern_init_mounts_witness:
  "\<exists>k'. kern_init_mount (ata_sim inode_disk) example_kernel_image 0x8000 boot_kernel = Some (Inr k')
    \<and> kernel_invar example_kernel_image k' \<and> fs_mem (k_fs k') 0x1039 = 0x40"
proof -
  let ?d = inode_disk and ?im = example_kernel_image
  have room: "1 + blocks_for (sb_half ?d 0) 32 + blocks_for (sb_half ?d 0 div 8) 1024 + blocks_for (sb_half ?d 1 div 8) 1024 \<le> 307"
    unfolding inode_disk_facts by (simp add: blocks_for_def)
  have pages: "0x1000 < boot_pages ?im (mmap_entry boot_mem 0x9000 0)" by (simp add: boot_kernel_pages)
  have buf: "unat (im_ide_buf ?im) + 512 \<le> 0xD0000000" by (simp add: example_kernel_image_def)
  have tabs: "\<forall>(a, n)\<in>set (fs_tables (im_fs ?im) ?d). unat a + n \<le> 0xD0000000" unfolding boot_tables by simp
  obtain k' where k': "kern_init_mount (ata_sim ?d) ?im 0x8000 boot_kernel = Some (Inr k')" "kernel_invar ?im k'"
    "table_loaded (inode_at example_image 1) 56 32 (inode_block ?d) 32 ?d (sb_half ?d 0) (k_fs k')"
    using kern_init_mounts [OF boot_kernel_facts pages boot_kernel_disk room buf tabs boot_tables(3) [folded boot_tables(1)]]
    unfolding boot_tables(1) by blast
  have "fs_mem (k_fs k') (inode_at example_image 1 + of_nat (56 * 0 + 1)) = item_byte ?d 4 32 0 1"
    using k'(3) [unfolded table_loaded_def inode_disk_facts(1,3), rule_format, of 0 1] by simp
  then have "fs_mem (k_fs k') 0x1039 = 0x40" unfolding inode_disk_facts(4) by (simp add: inode_at_def example_image_def layout_sizes)
  with k'(1,2) show ?thesis by blast
qed

end
