(* ===== verification/Sprite_Bitmap.thy ===== *)
theory Sprite_Bitmap
  imports Sprite_Prelude
begin

text \<open>
  The class template \<open>bitmap<N>\<close> of \<open>include/bitmap.hpp\<close>. The template argument is a field of the
  state; the store is an array of bytes with its bound, so an access to a byte outside of it is
  an outcome of its own. Positions are split with \<open>sizeof(bit_store)\<close>, which is one.
\<close>

section \<open>State\<close>

record bitmap =
  bm_N :: nat
  bm_data :: "nat \<Rightarrow> u8"

definition sizeof_bit_store :: nat where
  "sizeof_bit_store = 1"

definition bm_length :: "nat \<Rightarrow> nat" where
  "bm_length N = (N - 1) div 8 div sizeof_bit_store + 1"

section \<open>Operations\<close>

definition bitmap_clear :: "bitmap \<Rightarrow> bitmap" where
  "bitmap_clear b = b\<lparr>bm_data := fold (\<lambda>i d. d(i := 0)) [0..<bm_length (bm_N b)] (bm_data b)\<rparr>"

text \<open>\<open>assign\<close> copies \<open>len\<close> bytes; more than the store holds would be written behind it.\<close>

definition bitmap_assign :: "(nat \<Rightarrow> u8) \<Rightarrow> nat \<Rightarrow> bitmap \<Rightarrow> bitmap result" where
  "bitmap_assign bits len b =
     (if len \<le> bm_length (bm_N b)
      then Inr (b\<lparr>bm_data := fold (\<lambda>i d. d(i := bits i)) [0..<len] (bm_data b)\<rparr>)
      else Inl OutOfBounds)"

definition bitmap_all :: "bitmap \<Rightarrow> bool" where
  "bitmap_all b = list_all (\<lambda>i. bm_data b i = 0xFF) [0..<bm_length (bm_N b)]"

definition bitmap_any :: "bitmap \<Rightarrow> bool" where
  "bitmap_any b = list_ex (\<lambda>i. bm_data b i \<noteq> 0) [0..<bm_length (bm_N b)]"

definition bitmap_none :: "bitmap \<Rightarrow> bool" where
  "bitmap_none b = (\<not> bitmap_all b)"

function count_bits :: "u8 \<Rightarrow> u32 \<Rightarrow> u32" where
  "count_bits x cnt =
     (if x \<noteq> 0 then count_bits (drop_bit 1 x) (if x AND 1 \<noteq> 0 then cnt + 1 else cnt) else cnt)"
  by pat_completeness auto
termination
  by (relation "measure (\<lambda>(x, cnt). unat x)")
    (auto simp: unat_div unat_gt_0 drop_bit_eq_div)

declare count_bits.simps [simp del]

text \<open>The count is converted to the declared result type \<open>bool\<close>.\<close>

definition bitmap_count :: "bitmap \<Rightarrow> bool" where
  "bitmap_count b = (fold (\<lambda>i cnt. count_bits (bm_data b i) cnt) [0..<bm_length (bm_N b)] 0 \<noteq> 0)"

definition bit_mask :: "nat \<Rightarrow> u8" where
  "bit_mask j = push_bit (sizeof_bit_store * 8 - 1 - j) 1"

definition bitmap_set :: "nat \<Rightarrow> bool \<Rightarrow> bitmap \<Rightarrow> bitmap result" where
  "bitmap_set pos x b =
     (let i = pos div sizeof_bit_store; j = pos mod sizeof_bit_store; mask = bit_mask j in
      rbind (arr_get (bm_length (bm_N b)) (bm_data b) i) (\<lambda>target.
      rbind (arr_set (bm_length (bm_N b)) (bm_data b) i
               (if x then target OR mask else target AND NOT mask)) (\<lambda>d.
      Inr (b\<lparr>bm_data := d\<rparr>))))"

definition bitmap_test :: "nat \<Rightarrow> bitmap \<Rightarrow> bool result" where
  "bitmap_test pos b =
     (let i = pos div sizeof_bit_store; j = pos mod sizeof_bit_store in
      rbind (arr_get (bm_length (bm_N b)) (bm_data b) i) (\<lambda>target.
      Inr (bit_mask j AND target \<noteq> 0)))"

text \<open>\<open>operator[]\<close> makes a reference to a position, through which a bit is assigned or read; the bitmap it points to
  is passed along.\<close>

record bit_ref =
  ref_pos :: nat

definition bitmap_index :: "nat \<Rightarrow> bit_ref" where
  "bitmap_index idx = \<lparr>ref_pos = idx\<rparr>"

definition bit_ref_assign :: "bit_ref \<Rightarrow> bool \<Rightarrow> bitmap \<Rightarrow> bitmap result" where
  "bit_ref_assign r x b = bitmap_set (ref_pos r) x b"

definition bit_ref_bool :: "bit_ref \<Rightarrow> bitmap \<Rightarrow> bool result" where
  "bit_ref_bool r b = bitmap_test (ref_pos r) b"

definition bitmap_size :: "bitmap \<Rightarrow> nat" where
  "bitmap_size b = bm_N b"

text \<open>The constructor from memory assigns to a store with any content.\<close>

definition bitmap_of :: "nat \<Rightarrow> (nat \<Rightarrow> u8) \<Rightarrow> (nat \<Rightarrow> u8) \<Rightarrow> nat \<Rightarrow> bitmap result" where
  "bitmap_of N garbage bits len = bitmap_assign bits len \<lparr>bm_N = N, bm_data = garbage\<rparr>"

definition bitmap_flip_all :: "bitmap \<Rightarrow> bitmap" where
  "bitmap_flip_all b =
     b\<lparr>bm_data := fold (\<lambda>i d. d(i := NOT (d i))) [0..<bm_length (bm_N b)] (bm_data b)\<rparr>"

definition bitmap_flip :: "nat \<Rightarrow> bitmap \<Rightarrow> bitmap result" where
  "bitmap_flip pos b =
     rbind (bitmap_test pos b) (\<lambda>t. if t then bitmap_set pos False b else bitmap_set pos True b)"

text \<open>The inner loop of \<open>find_first\<close> runs over the masks from \<open>0x80\<close> down to \<open>1\<close>; its counter
  \<open>i\<close> stays \<open>0\<close>. The result is whether it returns.\<close>

fun find_mask :: "u8 \<Rightarrow> bool \<Rightarrow> u8 list \<Rightarrow> bool" where
  "find_mask x v [] = False"
| "find_mask x v (k # ks) = (if (x AND k \<noteq> 0) = v then True else find_mask x v ks)"

fun find_first_loop :: "bitmap \<Rightarrow> bool \<Rightarrow> nat list \<Rightarrow> nat" where
  "find_first_loop b v [] = bm_N b"
| "find_first_loop b v (j # js) =
     (if find_mask (bm_data b j) v [0x80, 0x40, 0x20, 0x10, 8, 4, 2, 1]
      then j * sizeof_bit_store + 0
      else find_first_loop b v js)"

definition bitmap_find_first :: "bool \<Rightarrow> bitmap \<Rightarrow> nat" where
  "bitmap_find_first v b = find_first_loop b v [0..<bm_length (bm_N b)]"

definition bitmap_and :: "bitmap \<Rightarrow> bitmap \<Rightarrow> bitmap" where
  "bitmap_and b c =
     b\<lparr>bm_data := fold (\<lambda>i d. d(i := d i AND bm_data c i)) [0..<bm_length (bm_N b)] (bm_data b)\<rparr>"

section \<open>Facts\<close>

lemma sizeof_bit_store_1 [simp]: "sizeof_bit_store = 1"
  by (simp add: sizeof_bit_store_def)

lemma bit_mask_0 [simp]: "bit_mask 0 = 0x80"
  by (simp add: bit_mask_def)

lemma mask_bit_gen: "k = push_bit n 1 \<Longrightarrow> x AND k \<noteq> 0 \<longleftrightarrow> bit x n" for x k :: u8
  by (simp only: bit_iff_and_push_bit_not_eq_0)

lemma mask_bit:
  "x AND 0x80 \<noteq> 0 \<longleftrightarrow> bit x 7" "x AND 0x40 \<noteq> 0 \<longleftrightarrow> bit x 6" "x AND 0x20 \<noteq> 0 \<longleftrightarrow> bit x 5"
  "x AND 0x10 \<noteq> 0 \<longleftrightarrow> bit x 4" "x AND 8 \<noteq> 0 \<longleftrightarrow> bit x 3" "x AND 4 \<noteq> 0 \<longleftrightarrow> bit x 2"
  "x AND 2 \<noteq> 0 \<longleftrightarrow> bit x 1" "x AND 1 \<noteq> 0 \<longleftrightarrow> bit x 0" for x :: u8
  by (rule mask_bit_gen, simp)+

lemma byte_eq_iff:
  "x = y \<longleftrightarrow> bit x 0 = bit y 0 \<and> bit x 1 = bit y 1 \<and> bit x 2 = bit y 2 \<and> bit x 3 = bit y 3
     \<and> bit x 4 = bit y 4 \<and> bit x 5 = bit y 5 \<and> bit x 6 = bit y 6 \<and> bit x 7 = bit y 7" for x y :: u8
proof -
  have "x = y \<longleftrightarrow> (\<forall>n<8. bit x n = bit y n)" by (auto intro: bit_word_eqI)
  then show ?thesis by (simp add: numeral_eq_Suc All_less_Suc) blast
qed

lemma ones_bit: "n < 8 \<Longrightarrow> bit (0xFF :: u8) n"
proof -
  have "(0xFF :: u8) = mask 8" by (simp add: mask_eq_exp_minus_1)
  then show "bit (0xFF :: u8) n" if "n < 8" using that by (simp only: bit_mask_iff) simp
qed

lemma find_mask_set: "find_mask x True [0x80, 0x40, 0x20, 0x10, 8, 4, 2, 1] \<longleftrightarrow> x \<noteq> 0"
  unfolding find_mask.simps mask_bit byte_eq_iff [of x 0] by auto

lemma byte_ones_iff:
  "x = 0xFF \<longleftrightarrow> bit x 0 \<and> bit x 1 \<and> bit x 2 \<and> bit x 3 \<and> bit x 4 \<and> bit x 5 \<and> bit x 6 \<and> bit x 7" for x :: u8
proof -
  have "bit (0xFF :: u8) 0" "bit (0xFF :: u8) 1" "bit (0xFF :: u8) 2" "bit (0xFF :: u8) 3"
    "bit (0xFF :: u8) 4" "bit (0xFF :: u8) 5" "bit (0xFF :: u8) 6" "bit (0xFF :: u8) 7"
    by (rule ones_bit, simp)+
  then show ?thesis unfolding byte_eq_iff [of x "0xFF"] by blast
qed

lemma find_mask_unset: "find_mask x False [0x80, 0x40, 0x20, 0x10, 8, 4, 2, 1] \<longleftrightarrow> x \<noteq> 0xFF"
  unfolding find_mask.simps mask_bit byte_ones_iff by auto

lemma find_mask_iff:
  "find_mask x v [0x80, 0x40, 0x20, 0x10, 8, 4, 2, 1] \<longleftrightarrow> x \<noteq> (if v then 0 else 0xFF)"
  by (cases v) (simp_all only: find_mask_set find_mask_unset if_True if_False simp_thms)

lemma find_first_loop_scan:
  "find_first_loop b v js = (case dropWhile (\<lambda>j. bm_data b j = (if v then 0 else 0xFF)) js of [] \<Rightarrow> bm_N b | j # _ \<Rightarrow> j)"
  by (induction js) (simp_all only: find_first_loop.simps find_mask_iff dropWhile.simps, auto)

lemma find_first_first:
  assumes "j < bm_length (bm_N b)" and "bm_data b j \<noteq> (if v then 0 else 0xFF)"
    and "\<forall>i<j. bm_data b i = (if v then 0 else 0xFF)"
  shows "bitmap_find_first v b = j"
proof -
  have "[0..<bm_length (bm_N b)] = [0..<j] @ j # [Suc j..<bm_length (bm_N b)]"
    using assms(1) upt_add_eq_append [of 0 j "bm_length (bm_N b) - j"] by (simp add: upt_conv_Cons)
  moreover have "dropWhile (\<lambda>j. bm_data b j = (if v then 0 else 0xFF)) ([0..<j] @ j # js) = j # js" for js
    using assms(2,3) by (subst dropWhile_append2) auto
  ultimately show ?thesis by (simp add: bitmap_find_first_def find_first_loop_scan)
qed

lemma bitmap_set_in:
  "pos < bm_length (bm_N b) \<Longrightarrow> bitmap_set pos x b =
     Inr (b\<lparr>bm_data := (bm_data b)(pos := if x then bm_data b pos OR 0x80 else bm_data b pos AND NOT 0x80)\<rparr>)"
  by (simp add: bitmap_set_def Let_def)

lemma bitmap_test_in: "pos < bm_length (bm_N b) \<Longrightarrow> bitmap_test pos b = Inr (bit (bm_data b pos) 7)"
  by (simp add: bitmap_test_def Let_def mask_bit and.commute [of "0x80"])

lemma top_bit_set: "bit (x OR 0x80) 7" "\<not> bit (x AND NOT 0x80) 7" for x :: u8
  by (simp_all add: bit_simps)

lemma top_bit_cleared: "\<not> bit (x AND - 129) 7" for x :: u8
  using top_bit_set(2) [of x] by simp

lemma or_top_ones:
  assumes "x OR 0x80 = 0xFF" and "x \<noteq> (0x7F :: u8)"
  shows "x = 0xFF"
proof (rule ccontr)
  assume ne: "x \<noteq> 0xFF"
  have m: "(0x7F :: u8) = mask 7" "(0x80 :: u8) = push_bit 7 1" by (simp_all add: mask_eq_exp_minus_1)
  have "bit (x OR push_bit 7 1) n" if "n < 8" for n
    using assms(1) ones_bit [OF that] m(2) by (simp only:)
  then have imp: "n < 8 \<Longrightarrow> bit x n \<or> 7 \<le> n" for n by (metis bit_or_iff bit_push_bit_iff)
  have low: "bit x n" if "n < 7" for n using imp [of n] that by linarith
  then have "\<not> bit x 7" using ne unfolding byte_ones_iff by simp
  then have "x = mask 7" by (intro bit_word_eqI) (use low in \<open>auto simp: bit_mask_iff less_Suc_eq numeral_eq_Suc\<close>)
  with m(1) assms(2) show False by simp
qed

section \<open>Properties\<close>

text \<open>C36. What \<open>set\<close> stores at a position inside the store \<open>test\<close> returns, and no other position
  changes; \<open>flip\<close> inverts it. A position of the map from the length of the store on (there are
  8 \<open>*\<close> as many positions as bytes) is an access outside of the store.\<close>

theorem bitmap_set_test:
  "if pos < bm_length (bm_N b)
   then (\<exists>b'. bitmap_set pos x b = Inr b' \<and> bm_N b' = bm_N b
      \<and> (\<forall>q. bitmap_test q b' = (if q = pos then Inr x else bitmap_test q b)))
    \<and> (\<exists>t b'. bitmap_test pos b = Inr t \<and> bitmap_flip pos b = Inr b' \<and> bitmap_test pos b' = Inr (\<not> t))
   else bitmap_set pos x b = Inl OutOfBounds \<and> bitmap_test pos b = Inl OutOfBounds
    \<and> bitmap_flip pos b = Inl OutOfBounds"
proof (cases "pos < bm_length (bm_N b)")
  case True
  let ?b = "\<lambda>v. b\<lparr>bm_data := (bm_data b)(pos := v)\<rparr>"
  have "bitmap_test q (?b v) = (if q = pos then Inr (bit v 7) else bitmap_test q b)" for q v
    using True by (simp add: bitmap_test_def arr_get_def Let_def mask_bit and.commute [of "0x80"])
  with True show ?thesis
    by (auto simp: bitmap_set_in bitmap_flip_def bitmap_test_in top_bit_set top_bit_cleared)
next
  case False
  then show ?thesis by (simp add: bitmap_set_def bitmap_test_def bitmap_flip_def)
qed

text \<open>A bit that is assigned through \<open>operator[]\<close> reads back through it.\<close>

lemma bit_ref_roundtrip:
  assumes "idx < bm_length (bm_N b)"
  shows "\<exists>b'. bit_ref_assign (bitmap_index idx) x b = Inr b' \<and> bit_ref_bool (bitmap_index idx) b' = Inr x \<and> bitmap_size b' = bitmap_size b"
  using assms by (auto simp: bit_ref_assign_def bit_ref_bool_def bitmap_index_def bitmap_size_def bitmap_set_in bitmap_test_in top_bit_set top_bit_cleared)

text \<open>\<open>find_first\<close> finds a byte, not a bit: looking for a clear bit it returns the number of the
  first byte that is not all ones, and after setting the position it returned it returns the same
  position again, unless all the other bits of that byte are set. A second allocation from the map
  gets what the first one got.\<close>

lemma bitmap_find_first_repeats:
  assumes "j < bm_length (bm_N b)" and "\<forall>i<j. bm_data b i = 0xFF"
    and "bm_data b j \<noteq> 0xFF" and "bm_data b j \<noteq> 0x7F"
  shows "bitmap_find_first False b = j
    \<and> (\<exists>b'. bitmap_set j True b = Inr b' \<and> bitmap_find_first False b' = j)"
proof -
  have "bm_data b j OR 0x80 \<noteq> 0xFF" using or_top_ones assms(3,4) by blast
  moreover have "bitmap_find_first False b = j" using assms by (intro find_first_first) auto
  ultimately show ?thesis using assms
    by (auto simp: bitmap_set_in intro!: find_first_first)
qed

lemma bitmap_find_first_repeats_witness:
  "bitmap_find_first False \<lparr>bm_N = 64, bm_data = (\<lambda>_. 0)\<rparr> = 0
    \<and> (\<exists>b'. bitmap_set 0 True \<lparr>bm_N = 64, bm_data = (\<lambda>_. 0)\<rparr> = Inr b' \<and> bitmap_find_first False b' = 0)"
  by (rule bitmap_find_first_repeats) (simp_all add: bm_length_def)

end
