(* ===== verification/Sprite_Support.thy ===== *)
theory Sprite_Support
  imports Sprite_Bitmap
begin

text \<open>
  What the kernel has for itself in place of a C++ runtime: the registration and the run of
  destructors of \<open>init/cxxabi.cc\<close>, the counter of \<open>include/atomic.h\<close>, the templates of
  \<open>include/common.h\<close> and \<open>include/pair.hpp\<close>, and the test of the bitmap of \<open>test/test.cc\<close>.
\<close>

section \<open>Destructors\<close>

record atexit_func_entry_t =
  destructor_func :: u32
  obj_ptr :: u32
  dso_handle :: u32

record cxxabi =
  atexit_funcs :: "nat \<Rightarrow> atexit_func_entry_t"
  atexit_func_count :: nat

definition ATEXIT_FUNCS :: nat where
  "ATEXIT_FUNCS = 128"

definition cxa_atexit :: "u32 \<Rightarrow> u32 \<Rightarrow> u32 \<Rightarrow> 'a cxxabi_scheme \<Rightarrow> (int \<times> 'a cxxabi_scheme) result" where
  "cxa_atexit f obj dso s =
     rbind (arr_set ATEXIT_FUNCS (atexit_funcs s) (atexit_func_count s) \<lparr>destructor_func = f, obj_ptr = obj, dso_handle = dso\<rparr>) (\<lambda>a.
     Inr (0, s\<lparr>atexit_funcs := a, atexit_func_count := atexit_func_count s + 1\<rparr>))"

text \<open>The destructors are code of the objects: \<open>call f obj\<close> is the effect of a call on the state. The loop
  \<open>while (i--)\<close> of \<open>__cxa_finalize\<close> without an argument; the number is the value of \<open>i\<close> at the test.\<close>

fun finalize_all :: "(u32 \<Rightarrow> u32 \<Rightarrow> 'a cxxabi_scheme \<Rightarrow> 'a cxxabi_scheme) \<Rightarrow> nat \<Rightarrow> 'a cxxabi_scheme \<Rightarrow> 'a cxxabi_scheme result" where
  "finalize_all call 0 s = Inr s"
| "finalize_all call (Suc i) s =
     rbind (arr_get ATEXIT_FUNCS (atexit_funcs s) i) (\<lambda>e.
     finalize_all call i (if destructor_func e \<noteq> 0 then call (destructor_func e) (obj_ptr e) s else s))"

text \<open>The loop \<open>for (; i >= 0; i--)\<close> for one destructor; the number is \<open>i + 1\<close>. The entry is read again
  after the call, to be cleared.\<close>

fun finalize_one :: "(u32 \<Rightarrow> u32 \<Rightarrow> 'a cxxabi_scheme \<Rightarrow> 'a cxxabi_scheme) \<Rightarrow> u32 \<Rightarrow> nat \<Rightarrow> 'a cxxabi_scheme \<Rightarrow> 'a cxxabi_scheme result" where
  "finalize_one call f 0 s = Inr s"
| "finalize_one call f (Suc i) s =
     rbind (arr_get ATEXIT_FUNCS (atexit_funcs s) i) (\<lambda>e.
     finalize_one call f i
       (if destructor_func e = f
        then let s = call (destructor_func e) (obj_ptr e) s in
             s\<lparr>atexit_funcs := (atexit_funcs s)(i := (atexit_funcs s i)\<lparr>destructor_func := 0\<rparr>)\<rparr>
        else s))"

definition cxa_finalize :: "(u32 \<Rightarrow> u32 \<Rightarrow> 'a cxxabi_scheme \<Rightarrow> 'a cxxabi_scheme) \<Rightarrow> u32 \<Rightarrow> 'a cxxabi_scheme \<Rightarrow> 'a cxxabi_scheme result" where
  "cxa_finalize call f s =
     (if f = 0 then finalize_all call (atexit_func_count s) s
      else finalize_one call f (Suc (atexit_func_count s)) s)"

section \<open>Counter, order and pairs\<close>

text \<open>The counter is an \<open>int\<close>; the locked addition wraps around.\<close>

definition atomic_add :: "u32 \<Rightarrow> u32 \<Rightarrow> u32" where
  "atomic_add i counter = counter + i"

definition min_of :: "'a::linorder \<Rightarrow> 'a \<Rightarrow> 'a" where
  "min_of lhs rhs = (if lhs < rhs then lhs else rhs)"

definition max_of :: "'a::linorder \<Rightarrow> 'a \<Rightarrow> 'a" where
  "max_of lhs rhs = (if lhs < rhs then rhs else lhs)"

record ('k, 'v) pair =
  first :: 'k
  second :: 'v

definition pair_eq :: "('k, 'v) pair \<Rightarrow> ('k, 'v) pair \<Rightarrow> bool" where
  "pair_eq p other = (first p = first other)"

definition pair_neq :: "('k, 'v) pair \<Rightarrow> ('k, 'v) pair \<Rightarrow> bool" where
  "pair_neq p other = (\<not> pair_eq p other)"

definition make_pair :: "'k \<Rightarrow> 'v \<Rightarrow> ('k, 'v) pair" where
  "make_pair k v = \<lparr>first = k, second = v\<rparr>"

section \<open>The test of the bitmap\<close>

text \<open>The constructor clears the bytes of the store; \<open>bits\<close> is what they held.\<close>

definition bitmap_new :: "nat \<Rightarrow> (nat \<Rightarrow> u8) \<Rightarrow> bitmap" where
  "bitmap_new N bits = \<lparr>bm_N = N, bm_data = fold (\<lambda>i d. d(i := 0)) [0..<bm_length N] bits\<rparr>"

definition test_bitmap :: "(nat \<Rightarrow> u8) \<Rightarrow> bitmap result" where
  "test_bitmap bits =
     (let bm = bitmap_new 32 bits in
      rbind (assert_that (bitmap_none bm) ''bm.none()'') (\<lambda>_.
      rbind (bitmap_set 0 True bm) (\<lambda>bm.
      rbind (bitmap_test 0 bm) (\<lambda>t.
      rbind (assert_that t ''bm.test(0)'') (\<lambda>_.
      rbind (assert_that (bitmap_find_first True bm = 0) ''bm.find_first(true) == 0'') (\<lambda>_.
      let bm = bitmap_flip_all (bitmap_clear bm) in
      rbind (bitmap_set 1 False bm) (\<lambda>bm.
      rbind (assert_that (bitmap_find_first False bm = 1) ''bm.find_first(false) == 1'') (\<lambda>_.
      Inr bm))))))))"

section \<open>Facts\<close>

lemma min_max_of: "min_of x y = min x y" "max_of x y = max x y"
  by (auto simp: min_of_def max_of_def min_def max_def)

lemma atomic_add_sum: "fold atomic_add xs c = c + sum_list xs"
  by (induction xs arbitrary: c) (simp_all add: atomic_add_def algebra_simps)

lemma test_bitmap_passes: "\<exists>bm. test_bitmap bits = Inr bm"
proof -
  have u: "[0..<4] = [0, 1, 2, 3 :: nat]" "[0..<3] = [0, 1, 2 :: nat]" by (simp_all add: upt_rec)
  show ?thesis
    by (simp add: test_bitmap_def bitmap_new_def Let_def bitmap_none_def bitmap_all_def bm_length_def bitmap_set_def bitmap_test_def
        bitmap_find_first_def bitmap_flip_all_def bitmap_clear_def u)
qed

text \<open>The registrations that a state holds, in their order.\<close>

definition registered :: "'a cxxabi_scheme \<Rightarrow> (u32 \<times> u32) list" where
  "registered s = map (\<lambda>i. (destructor_func (atexit_funcs s i), obj_ptr (atexit_funcs s i))) [0..<atexit_func_count s]"

lemma cxa_atexit_registers:
  "if atexit_func_count s < 128 then \<exists>s'. cxa_atexit f obj dso s = Inr (0, s') \<and> registered s' = registered s @ [(f, obj)]
     \<and> atexit_func_count s' = Suc (atexit_func_count s)
   else cxa_atexit f obj dso s = Inl OutOfBounds"
  by (simp add: cxa_atexit_def registered_def ATEXIT_FUNCS_def)

text \<open>A destructor that registers nothing and removes nothing.\<close>

definition keeps_table :: "(u32 \<Rightarrow> u32 \<Rightarrow> 'a cxxabi_scheme \<Rightarrow> 'a cxxabi_scheme) \<Rightarrow> bool" where
  "keeps_table call \<longleftrightarrow> (\<forall>f obj s. atexit_funcs (call f obj s) = atexit_funcs s \<and> atexit_func_count (call f obj s) = atexit_func_count s)"

definition call_all :: "(u32 \<Rightarrow> u32 \<Rightarrow> 'a cxxabi_scheme \<Rightarrow> 'a cxxabi_scheme) \<Rightarrow> (u32 \<times> u32) list \<Rightarrow> 'a cxxabi_scheme \<Rightarrow> 'a cxxabi_scheme" where
  "call_all call rs s = fold (\<lambda>(f, obj). call f obj) (filter (\<lambda>(f, obj). f \<noteq> 0) rs) s"

lemma call_all_keeps: "keeps_table call \<Longrightarrow> atexit_funcs (call_all call rs s) = atexit_funcs s \<and> atexit_func_count (call_all call rs s) = atexit_func_count s"
  by (induction rs arbitrary: s) (auto simp: call_all_def keeps_table_def)

lemma finalize_all_calls:
  assumes k: "keeps_table call"
  shows "n \<le> 128 \<Longrightarrow> finalize_all call n s =
    Inr (call_all call (rev (map (\<lambda>i. (destructor_func (atexit_funcs s i), obj_ptr (atexit_funcs s i))) [0..<n])) s)"
proof (induction n arbitrary: s)
  case (Suc n)
  let ?s = "if destructor_func (atexit_funcs s n) \<noteq> 0 then call (destructor_func (atexit_funcs s n)) (obj_ptr (atexit_funcs s n)) s else s"
  have "atexit_funcs ?s = atexit_funcs s" using k by (simp add: keeps_table_def)
  then show ?case using Suc.IH [of ?s] Suc.prems by (simp add: ATEXIT_FUNCS_def call_all_def)
qed (simp add: call_all_def)

text \<open>\<open>__cxa_finalize\<close> without an argument calls the registered destructors, each once with its object and in
  the reverse order of their registration, provided that no destructor registers another.\<close>

lemma cxa_finalize_reverse:
  assumes "keeps_table call" and "atexit_func_count s \<le> 128"
  shows "cxa_finalize call 0 s = Inr (call_all call (rev (registered s)) s)"
  using finalize_all_calls [OF assms] by (simp add: cxa_finalize_def registered_def)

text \<open>The search for one destructor starts behind the last entry: with a full table it leaves the array.\<close>

lemma cxa_finalize_full: "f \<noteq> 0 \<Longrightarrow> atexit_func_count s = 128 \<Longrightarrow> cxa_finalize call f s = Inl OutOfBounds"
  unfolding cxa_finalize_def by (simp only: finalize_one.simps) (simp add: ATEXIT_FUNCS_def)

text \<open>Pairs compare by their first component alone, so equality is no equality of values.\<close>

lemma pair_eq_ignores_second: "pair_eq (make_pair k v) (make_pair k w)" "pair_neq (make_pair k v) (make_pair l w) \<longleftrightarrow> k \<noteq> l"
  by (simp_all add: pair_eq_def pair_neq_def make_pair_def)

end
