(* ===== verification/Sprite_Selftest.thy ===== *)
theory Sprite_Selftest
  imports Sprite_Kernel Sprite_Support
begin

text \<open>
  The self tests that run on the composed kernel: the two threads of \<open>lib/kthread.cc\<close>, which print a
  letter now and then, and \<open>test_vmm\<close> of \<open>lib/vmm.cc\<close>, whose last two accesses fault and are served.
\<close>

section \<open>Threads\<close>

text \<open>The body of \<open>thread1\<close> and \<open>thread2\<close> for the remaining rounds; \<open>cnt\<close> is the static counter of the
  thread, \<open>str\<close> the address of its literal.\<close>

fun thread_loop :: "mem \<Rightarrow> u32 \<Rightarrow> nat \<Rightarrow> u32 \<times> console \<Rightarrow> (u32 \<times> console) option" where
  "thread_loop m str 0 s = Some s"
| "thread_loop m str (Suc n) (cnt, con) =
     (let cnt = cnt + 1 in
      if cnt = 0x1000 then Option.bind (printk m str [] con) (\<lambda>con. thread_loop m str n (0, con))
      else thread_loop m str n (cnt, con))"

definition thread1 :: "mem \<Rightarrow> (string \<Rightarrow> u32) \<Rightarrow> u32 \<times> console \<Rightarrow> (u32 \<times> console) option" where
  "thread1 m lit = thread_loop m (lit ''A'') 0x10000"

definition thread2 :: "mem \<Rightarrow> (string \<Rightarrow> u32) \<Rightarrow> u32 \<times> console \<Rightarrow> (u32 \<times> console) option" where
  "thread2 m lit = thread_loop m (lit ''B'') 0x10000"

lemma thread_loop_prints:
  assumes "cstr m str [ch]"
  shows "c < 0x1000 \<Longrightarrow> thread_loop m str n (of_nat c, con) =
    Some (of_nat ((c + n) mod 0x1000), put_text (replicate ((c + n) div 0x1000) ch) con)"
proof (induction n arbitrary: c con)
  case (Suc n)
  have e: "(of_nat c + 1 :: u32) = 0x1000 \<longleftrightarrow> Suc c = 0x1000"
    using of_nat_u32_eq_iff [of "Suc c" "0x1000"] Suc.prems by (simp add: add.commute)
  show ?case
  proof (cases "Suc c = 0x1000")
    case True
    then have "c + Suc n = n + 0x1000" by simp
    moreover have "(n + 0x1000) div 0x1000 = Suc (n div 0x1000)" "(n + 0x1000) mod 0x1000 = n mod 0x1000" by simp_all
    moreover have "printk m str [] con = Some (put_text [ch] con)" using printk_prints [OF assms, of _ "[]" con] by simp
    ultimately show ?thesis using e True Suc.IH [of 0 "put_text [ch] con"]
      by (simp only: thread_loop.simps Let_def e if_True Option.bind.simps of_nat_0 add_0) (simp add: funpow_swap1)
  next
    case False
    then show ?thesis using e Suc.IH [of "Suc c" con] Suc.prems by (simp add: Let_def add.commute)
  qed
qed simp

text \<open>A thread prints its letter sixteen times and leaves its counter as it found it.\<close>

lemma threads_print:
  assumes "cstr m (lit ''A'') [0x41]" and "cstr m (lit ''B'') [0x42]" and "c < 0x1000"
  shows "thread1 m lit (of_nat c, con) = Some (of_nat c, put_text (replicate 16 0x41) con)"
    and "thread2 m lit (of_nat c, con) = Some (of_nat c, put_text (replicate 16 0x42) con)"
proof -
  have "(c + 16 * 0x1000) div 0x1000 = 16" using assms(3) by linarith
  moreover have "(c + 16 * 0x1000) mod 0x1000 = c mod 0x1000" by (rule mod_mult_self1)
  ultimately show "thread1 m lit (of_nat c, con) = Some (of_nat c, put_text (replicate 16 0x41) con)"
    "thread2 m lit (of_nat c, con) = Some (of_nat c, put_text (replicate 16 0x42) con)"
    unfolding thread1_def thread2_def thread_loop_prints [OF assms(1,3)] thread_loop_prints [OF assms(2,3)] using assms(3) by simp_all
qed

section \<open>Accesses to memory\<close>

definition show_word :: "kernel_image \<Rightarrow> pt_regs \<Rightarrow> string \<Rightarrow> u32 \<Rightarrow> kernel \<Rightarrow> kernel result option" where
  "show_word im regs fmt addr k =
     robind (mem_access im regs False addr k) (\<lambda>k. k_printk im (fmt @ nl) [ArgNum (read32 (fs_mem (k_fs k)) addr)] k)"

definition test_vmm :: "kernel_image \<Rightarrow> pt_regs \<Rightarrow> u32 \<Rightarrow> kernel \<Rightarrow> kernel result option" where
  "test_vmm im regs p k =
     (let k = k\<lparr>k_fs := set_mem (write32 (fs_mem (k_fs k)) p 0) (k_fs k)\<rparr> in
      robind (k_printk im (''variable address: 0x%x'' @ nl) [ArgNum p] k) (\<lambda>k.
      robind (k_printk im (''variable value: %d'' @ nl) [ArgNum (read32 (fs_mem (k_fs k)) p)] k) (\<lambda>k.
      robind (show_word im regs ''value at 0xc0000000: 0x%x'' 0xC0000000 k) (\<lambda>k.
      robind (show_word im regs ''value at 0xc0001000: 0x%x'' 0xC0001000 k) (\<lambda>k.
      robind (show_word im regs ''value at 0xc0002000: 0x%x'' 0xC0002000 k) (\<lambda>k.
      robind (show_word im regs ''read 0x10002000: 0x%x'' 0x10002000 k) (\<lambda>k.
      robind (k_printk im (''write 0x0 to 0x10003000'' @ nl) [] k) (\<lambda>k.
      robind (mem_access im regs True 0x10003000 k) (\<lambda>k.
      Some (Inr (k\<lparr>k_fs := set_mem (write32 (fs_mem (k_fs k)) 0x10003000 0) (k_fs k)\<rparr>)))))))))))"

section \<open>The run of the test\<close>

definition terminated :: "mem \<Rightarrow> u32 \<Rightarrow> bool" where
  "terminated m a \<longleftrightarrow> (\<exists>xs. cstr m a xs \<and> length xs < 2 ^ 32)"

lemma k_printk_returns:
  assumes "terminated (fs_mem (k_fs k)) (literal (im_fs im) fmt)" and "\<forall>a\<in>set args. \<exists>n. a = ArgNum n"
  shows "\<exists>c. k_printk im fmt args k = Some (Inr (set_con c k))"
proof -
  obtain xs where "cstr (fs_mem (k_fs k)) (literal (im_fs im) fmt) xs" "length xs < 2 ^ 32" using assms(1) by (auto simp: terminated_def)
  moreover have "list_all (arg_ok (fs_mem (k_fs k)) (\<lambda>_. [])) args" using assms(2) by (auto simp: list_all_iff arg_ok_def)
  ultimately show ?thesis unfolding k_printk_def using printk_prints by auto
qed

text \<open>An access to a page succeeds when it is mapped, or when a table and a frame can be had for it.\<close>

lemma mem_access_ok:
  assumes "vmm_ready im k" and "pd_has_room (k_dict k) (dict_index addr)" and "2 \<le> length (pmm_pages (k_pmm k))"
  shows "\<exists>d m. mem_access im regs wr addr k = Some (Inr (k\<lparr>k_dict := d, k_pmm := m\<rparr>)) \<and> vmm_ready im (k\<lparr>k_dict := d, k_pmm := m\<rparr>)
    \<and> pd_mapped (im_dict im) d addr
    \<and> (\<forall>v. page_of v \<noteq> page_of addr \<longrightarrow> frame_of (im_dict im) d v = frame_of (im_dict im) (k_dict k) v)"
proof (cases "pd_mapped (im_dict im) (k_dict k) addr")
  case True
  then show ?thesis using assms(1) by (intro exI [of _ "k_dict k"] exI [of _ "k_pmm k"]) (simp add: mem_access_mapped)
next
  case False
  obtain p d m where "mem_access im regs wr addr k = Some (Inr (k\<lparr>k_dict := d, k_pmm := m\<rparr>))" "vmm_ready im (k\<lparr>k_dict := d, k_pmm := m\<rparr>)"
    "pd_mapped (im_dict im) d addr"
    "\<forall>v. frame_of (im_dict im) d v = (if page_of v = page_of addr then p else frame_of (im_dict im) (k_dict k) v)"
    using mem_access_fault [OF assms(1) False assms(2,3), of regs wr] by blast
  then show ?thesis by (intro exI [of _ d] exI [of _ m]) simp
qed

definition vmm_formats :: "string list" where
  "vmm_formats = map (\<lambda>s. s @ nl) [''variable address: 0x%x'', ''variable value: %d'', ''value at 0xc0000000: 0x%x'',
     ''value at 0xc0001000: 0x%x'', ''value at 0xc0002000: 0x%x'', ''read 0x10002000: 0x%x'', ''write 0x0 to 0x10003000'']"

lemma fs_mem_set_con [simp]: "fs_mem (k_fs (set_con c k)) = fs_mem (k_fs k)"
  by (simp add: set_con_def fs_mem_def)

lemma vmm_ready_set_con [simp]: "vmm_ready im (set_con c k) = vmm_ready im k"
  by (simp add: vmm_ready_def)

lemma show_word_mapped:
  assumes "pd_mapped (im_dict im) (k_dict k) addr" and "terminated (fs_mem (k_fs k)) (literal (im_fs im) (fmt @ nl))"
  shows "\<exists>c. show_word im regs fmt addr k = Some (Inr (set_con c k))"
  using k_printk_returns [OF assms(2)] assms(1) by (simp add: show_word_def mem_access_mapped)

text \<open>The part of \<open>test_vmm\<close> that faults, on a state that serves faults.\<close>

definition test_vmm_faults :: "kernel_image \<Rightarrow> pt_regs \<Rightarrow> kernel \<Rightarrow> kernel result option" where
  "test_vmm_faults im regs k =
     robind (show_word im regs ''read 0x10002000: 0x%x'' 0x10002000 k) (\<lambda>k.
     robind (k_printk im (''write 0x0 to 0x10003000'' @ nl) [] k) (\<lambda>k.
     robind (mem_access im regs True 0x10003000 k) (\<lambda>k.
     Some (Inr (k\<lparr>k_fs := set_mem (write32 (fs_mem (k_fs k)) 0x10003000 0) (k_fs k)\<rparr>)))))"

lemma test_vmm_faults_ok:
  assumes k: "vmm_ready im k" and l: "terminated (fs_mem (k_fs k)) (literal (im_fs im) (''read 0x10002000: 0x%x'' @ nl))"
      "terminated (fs_mem (k_fs k)) (literal (im_fs im) (''write 0x0 to 0x10003000'' @ nl))"
    and n: "\<not> pd_mapped (im_dict im) (k_dict k) 0x10002000" "pd_has_room (k_dict k) 64" and pages: "3 \<le> length (pmm_pages (k_pmm k))"
  shows "\<exists>k'. test_vmm_faults im regs k = Some (Inr k') \<and> vmm_ready im k'
    \<and> frame_of (im_dict im) (k_dict k') 0x10002000 = hd (pmm_pages (k_pmm k))
    \<and> pd_mapped (im_dict im) (k_dict k') 0x10003000
    \<and> frame_of (im_dict im) (k_dict k') 0x10003000 \<noteq> frame_of (im_dict im) (k_dict k') 0x10002000
    \<and> read32 (fs_mem (k_fs k')) 0x10003000 = 0"
proof -
  have ix: "dict_index 0x10002000 = 64" "dict_index 0x10003000 = 64" by (simp_all add: dict_index_def)
  have pg: "page_of 0x10002000 \<noteq> page_of 0x10003000" by (simp add: page_of_def ENTRY_ADDR_def)
  obtain p d m where a: "mem_access im regs False 0x10002000 k = Some (Inr (k\<lparr>k_dict := d, k_pmm := m\<rparr>))" "vmm_ready im (k\<lparr>k_dict := d, k_pmm := m\<rparr>)"
    "pmm_pages (k_pmm k) = p # pmm_pages m" "pd_mapped (im_dict im) d 0x10002000"
    "\<forall>v. frame_of (im_dict im) d v = (if page_of v = page_of 0x10002000 then p else frame_of (im_dict im) (k_dict k) v)"
    using mem_access_fault [OF k n(1), of regs False] n(2) pages ix by auto
  define k1 where "k1 = k\<lparr>k_dict := d, k_pmm := m\<rparr>"
  have k1: "fs_mem (k_fs k1) = fs_mem (k_fs k)" "k_dict k1 = d" "k_pmm k1 = m" by (simp_all add: k1_def)
  obtain c where c: "show_word im regs ''read 0x10002000: 0x%x'' 0x10002000 k = Some (Inr (set_con c k1))"
    using k_printk_returns [of k1 im "''read 0x10002000: 0x%x'' @ nl" "[ArgNum (read32 (fs_mem (k_fs k1)) 0x10002000)]"] l(1) a(1)
    unfolding show_word_def k1_def [symmetric] by (auto simp: k1(1))
  obtain c' where c': "k_printk im (''write 0x0 to 0x10003000'' @ nl) [] (set_con c k1) = Some (Inr (set_con c' (set_con c k1)))"
    using k_printk_returns [of "set_con c k1" im _ "[]"] l(2) k1 by auto
  define k2 where "k2 = set_con c' (set_con c k1)"
  have k2: "vmm_ready im k2" "k_dict k2 = d" "k_pmm k2 = m" using a(2) by (simp_all add: k2_def k1_def)
  have "pd_has_room (k_dict k2) (dict_index 0x10003000)" using a(4) ix k2(2) by (simp add: pd_has_room_def pd_mapped_def Let_def)
  moreover have "2 \<le> length (pmm_pages (k_pmm k2))" using pages a(3) k2(3) by simp
  ultimately obtain d' m' where b: "mem_access im regs True 0x10003000 k2 = Some (Inr (k2\<lparr>k_dict := d', k_pmm := m'\<rparr>))"
    "vmm_ready im (k2\<lparr>k_dict := d', k_pmm := m'\<rparr>)" "pd_mapped (im_dict im) d' 0x10003000"
    "frame_of (im_dict im) d' 0x10002000 = p" using mem_access_ok [OF k2(1), of "0x10003000" regs True] a(5) pg k2(2) by auto
  have "p \<noteq> 0" using k a(3) by (auto simp: vmm_ready_def frames_safe_def)
  then have "frame_of (im_dict im) d' 0x10003000 \<noteq> p"
    using b(2,4) pg ix unfolding vmm_ready_def frames_safe_def demand_page_def by fastforce
  then show ?thesis using a(3) b c c' by (simp add: test_vmm_faults_def k2_def [symmetric] vmm_ready_def set_mem_def fs_mem_def)
qed

text \<open>\<open>test_vmm\<close> returns on a kernel whose first pages are mapped: its load from a page that is not mapped takes
  the top free frame, its store to the next page goes to another frame.\<close>

lemma test_vmm_served:
  fixes k :: kernel and p :: u32
  defines "m0 \<equiv> write32 (fs_mem (k_fs k)) p 0"
  assumes k: "vmm_ready im k" and l: "\<forall>fmt\<in>set vmm_formats. terminated m0 (literal (im_fs im) fmt)"
    and map: "\<forall>v\<in>{0xC0000000, 0xC0001000, 0xC0002000}. pd_mapped (im_dict im) (k_dict k) v"
    and n: "\<not> pd_mapped (im_dict im) (k_dict k) 0x10002000" "pd_has_room (k_dict k) 64" and pages: "3 \<le> length (pmm_pages (k_pmm k))"
  shows "\<exists>k'. test_vmm im regs p k = Some (Inr k') \<and> vmm_ready im k'
    \<and> frame_of (im_dict im) (k_dict k') 0x10002000 = hd (pmm_pages (k_pmm k))
    \<and> pd_mapped (im_dict im) (k_dict k') 0x10003000
    \<and> frame_of (im_dict im) (k_dict k') 0x10003000 \<noteq> frame_of (im_dict im) (k_dict k') 0x10002000
    \<and> read32 (fs_mem (k_fs k')) 0x10003000 = 0"
proof -
  define K where "K k' \<longleftrightarrow> vmm_ready im k' \<and> fs_mem (k_fs k') = m0 \<and> k_dict k' = k_dict k \<and> k_pmm k' = k_pmm k" for k'
  have t: "terminated m0 (literal (im_fs im) (fmt @ nl))" if "fmt @ nl \<in> set vmm_formats" for fmt using l that by blast
  have con: "K (set_con c k')" if "K k'" for c k' using that by (simp add: K_def)
  have pr: "\<exists>k2. k_printk im (fmt @ nl) [ArgNum v] k1 = Some (Inr k2) \<and> K k2" if "K k1" "fmt @ nl \<in> set vmm_formats" for fmt v k1
    using k_printk_returns [of k1 im "fmt @ nl" "[ArgNum v]"] t [OF that(2)] con [OF that(1)] that(1) by (auto simp: K_def)
  have sw: "\<exists>k2. show_word im regs fmt v k1 = Some (Inr k2) \<and> K k2"
    if "K k1" "fmt @ nl \<in> set vmm_formats" "v \<in> {0xC0000000, 0xC0001000, 0xC0002000}" for fmt v k1
    using show_word_mapped [of im k1 v fmt regs] t [OF that(2)] con [OF that(1)] that(1,3) map by (auto simp: K_def)
  let ?k0 = "k\<lparr>k_fs := set_mem m0 (k_fs k)\<rparr>"
  have "K ?k0" using k by (simp add: K_def vmm_ready_def set_mem_def fs_mem_def)
  then obtain k1 where k1: "k_printk im (''variable address: 0x%x'' @ nl) [ArgNum p] ?k0 = Some (Inr k1)" "K k1"
    using pr [of ?k0 "''variable address: 0x%x''" p] by (auto simp: vmm_formats_def)
  obtain k2 where k2: "k_printk im (''variable value: %d'' @ nl) [ArgNum (read32 (fs_mem (k_fs k1)) p)] k1 = Some (Inr k2)" "K k2"
    using pr [OF k1(2), of "''variable value: %d''"] by (auto simp: vmm_formats_def)
  obtain k3 where k3: "show_word im regs ''value at 0xc0000000: 0x%x'' 0xC0000000 k2 = Some (Inr k3)" "K k3"
    using sw [OF k2(2), of "''value at 0xc0000000: 0x%x''" "0xC0000000"] by (auto simp: vmm_formats_def)
  obtain k4 where k4: "show_word im regs ''value at 0xc0001000: 0x%x'' 0xC0001000 k3 = Some (Inr k4)" "K k4"
    using sw [OF k3(2), of "''value at 0xc0001000: 0x%x''" "0xC0001000"] by (auto simp: vmm_formats_def)
  obtain k5 where k5: "show_word im regs ''value at 0xc0002000: 0x%x'' 0xC0002000 k4 = Some (Inr k5)" "K k5"
    using sw [OF k4(2), of "''value at 0xc0002000: 0x%x''" "0xC0002000"] by (auto simp: vmm_formats_def)
  have "test_vmm im regs p k = test_vmm_faults im regs k5"
    unfolding test_vmm_def Let_def m0_def [symmetric] by (simp only: k1(1) k2(1) k3(1) k4(1) k5(1) robind_simps test_vmm_faults_def)
  then show ?thesis using test_vmm_faults_ok [of im k5 regs] k5(2) n pages
      t [of "''read 0x10002000: 0x%x''"] t [of "''write 0x0 to 0x10003000''"] by (simp add: K_def vmm_formats_def)
qed

end
