(* ===== verification/Sprite_Cpu.thy ===== *)
theory Sprite_Cpu
  imports Sprite_Memory Sprite_Descriptors
begin

text \<open>
  The part of the processor that the assembly files and the inline assembly use: the general and the
  segment registers, the instruction pointer, the flags, the descriptor table registers, memory, and the
  instructions of these files with their effect in 32-bit protected mode at privilege level 0 (Intel manual,
  volume 2). The encoding of an instruction is the assembler's: \<open>code a\<close> is the instruction at address \<open>a\<close> with
  the address behind it. The segments are the flat ones of \<open>init_gdt\<close>, so an address is its offset.
\<close>

section \<open>State\<close>

datatype reg = EAX | ECX | EDX | EBX | ESP | EBP | ESI | EDI

datatype sreg = ES | CS | SS | DS | FS | GS

record machine =
  m_regs :: "reg \<Rightarrow> u32"
  m_segs :: "sreg \<Rightarrow> u16"
  m_eip :: u32
  m_eflags :: u32
  m_gdtr :: "u16 \<times> u32"
  m_idtr :: "u16 \<times> u32"
  m_halted :: bool
  m_mem :: mem

definition set_reg :: "reg \<Rightarrow> u32 \<Rightarrow> machine \<Rightarrow> machine" where
  "set_reg r v s = s\<lparr>m_regs := (m_regs s)(r := v)\<rparr>"

definition set_seg :: "sreg \<Rightarrow> u16 \<Rightarrow> machine \<Rightarrow> machine" where
  "set_seg r v s = s\<lparr>m_segs := (m_segs s)(r := v)\<rparr>"

definition set_eip :: "u32 \<Rightarrow> machine \<Rightarrow> machine" where
  "set_eip a s = s\<lparr>m_eip := a\<rparr>"

definition set_eflags :: "u32 \<Rightarrow> machine \<Rightarrow> machine" where
  "set_eflags f s = s\<lparr>m_eflags := f\<rparr>"

definition store32 :: "u32 \<Rightarrow> u32 \<Rightarrow> machine \<Rightarrow> machine" where
  "store32 a w s = s\<lparr>m_mem := write32 (m_mem s) a w\<rparr>"

definition push32 :: "u32 \<Rightarrow> machine \<Rightarrow> machine" where
  "push32 w s = set_reg ESP (m_regs s ESP - 4) (store32 (m_regs s ESP - 4) w s)"

definition top32 :: "machine \<Rightarrow> u32" where
  "top32 s = read32 (m_mem s) (m_regs s ESP)"

definition drop32 :: "machine \<Rightarrow> machine" where
  "drop32 s = set_reg ESP (m_regs s ESP + 4) s"

definition pop32 :: "reg \<Rightarrow> machine \<Rightarrow> machine" where
  "pop32 r s = set_reg r (top32 s) (drop32 s)"

section \<open>Flags\<close>

text \<open>
  The interrupt flag is bit 9. \<open>POPF\<close> and \<open>IRET\<close> load the flags that exist (bit 1 reads as 1, the other
  reserved bits as 0); \<open>POPF\<close> clears the resume flag and \<open>PUSHF\<close> stores it as 0. The flags of the
  virtual-8086 mode, bits 17, 19 and 20, are never set. On entry through a gate the processor clears the trap, nested
  task, resume and virtual-8086 flags, and the interrupt flag when the type of the gate, its low four bits, is that of
  an interrupt gate.
\<close>

definition interrupts_on :: "machine \<Rightarrow> bool" where
  "interrupts_on s = bit (m_eflags s) 9"

definition popf_flags :: "u32 \<Rightarrow> u32" where
  "popf_flags w = (w AND 0x247FD5) OR 2"

definition pushf_flags :: "u32 \<Rightarrow> u32" where
  "pushf_flags f = f AND 0xFFFCFFFF"

definition iret_flags :: "u32 \<Rightarrow> u32" where
  "iret_flags w = (w AND 0x257FD5) OR 2"

definition gate_flags :: "u8 \<Rightarrow> u32 \<Rightarrow> u32" where
  "gate_flags typ f = f AND NOT (if typ AND 0xF = 0xE then 0x34300 else 0x34100)"

definition put_flag :: "nat \<Rightarrow> bool \<Rightarrow> u32 \<Rightarrow> u32" where
  "put_flag n b f = (if b then set_bit n f else unset_bit n f)"

text \<open>The flags of a result: parity of the low byte, zero, sign.\<close>

definition result_flags :: "u32 \<Rightarrow> u32 \<Rightarrow> u32" where
  "result_flags r f =
     put_flag 2 (even (length (filter (bit r) [0..<8]))) (put_flag 6 (r = 0) (put_flag 7 (bit r 31) f))"

definition add_flags :: "u32 \<Rightarrow> u32 \<Rightarrow> u32 \<Rightarrow> u32" where
  "add_flags a b f = (let r = a + b in
     put_flag 0 (r < a) (put_flag 4 (r AND 0xF < a AND 0xF)
       (put_flag 11 (bit a 31 = bit b 31 \<and> bit r 31 \<noteq> bit a 31) (result_flags r f))))"

text \<open>\<open>AND\<close> clears carry and overflow; it leaves the auxiliary carry undefined, which the model keeps.\<close>

definition and_flags :: "u32 \<Rightarrow> u32 \<Rightarrow> u32 \<Rightarrow> u32" where
  "and_flags a b f = put_flag 0 False (put_flag 11 False (result_flags (a AND b) f))"

section \<open>Instructions\<close>

datatype instr =
    CLI | STI | HLT
  | PUSH reg | PUSH_IMM u32 | POP reg | PUSHA | POPA | PUSHF | POPF
  | MOV_IMM reg u32 | LOAD reg reg u32 | STORE reg u32 reg | STORE_ABS u32 reg
  | MOV_IMM16 reg u16 | MOV_FROM_SEG reg sreg | MOV_SEG sreg reg
  | ADD_IMM reg u32 | AND_IMM reg u32
  | JMP u32 | JMP_FAR u16 u32 | CALL u32 | RET | IRET
  | LGDT reg | LIDT reg

text \<open>A write to the low half of a register keeps the high half.\<close>

definition set_low16 :: "u32 \<Rightarrow> u16 \<Rightarrow> u32" where
  "set_low16 w v = (w AND 0xFFFF0000) OR ucast v"

definition descriptor_reg :: "mem \<Rightarrow> u32 \<Rightarrow> u16 \<times> u32" where
  "descriptor_reg m a = (read16 m a, read32 m (a + 2))"

definition pusha :: "machine \<Rightarrow> machine" where
  "pusha s = fold (\<lambda>r. push32 (m_regs s r)) [EAX, ECX, EDX, EBX, ESP, EBP, ESI, EDI] s"

definition popa :: "machine \<Rightarrow> machine" where
  "popa s = (pop32 EAX \<circ> pop32 ECX \<circ> pop32 EDX \<circ> pop32 EBX \<circ> drop32 \<circ> pop32 EBP \<circ> pop32 ESI \<circ> pop32 EDI) s"

definition iret :: "machine \<Rightarrow> machine" where
  "iret s =
     (let s1 = drop32 s; s2 = drop32 s1
      in set_eflags (iret_flags (top32 s2)) (set_seg CS (ucast (top32 s1)) (set_eip (top32 s) (drop32 s2))))"

text \<open>The effect of an instruction on a state whose instruction pointer is already behind it.\<close>

fun exec :: "instr \<Rightarrow> machine \<Rightarrow> machine" where
  "exec CLI s = set_eflags (unset_bit 9 (m_eflags s)) s"
| "exec STI s = set_eflags (set_bit 9 (m_eflags s)) s"
| "exec HLT s = s\<lparr>m_halted := True\<rparr>"
| "exec (PUSH r) s = push32 (m_regs s r) s"
| "exec (PUSH_IMM w) s = push32 w s"
| "exec (POP r) s = pop32 r s"
| "exec PUSHA s = pusha s"
| "exec POPA s = popa s"
| "exec PUSHF s = push32 (pushf_flags (m_eflags s)) s"
| "exec POPF s = set_eflags (popf_flags (top32 s)) (drop32 s)"
| "exec (MOV_IMM r w) s = set_reg r w s"
| "exec (LOAD r b off) s = set_reg r (read32 (m_mem s) (m_regs s b + off)) s"
| "exec (STORE b off r) s = store32 (m_regs s b + off) (m_regs s r) s"
| "exec (STORE_ABS a r) s = store32 a (m_regs s r) s"
| "exec (MOV_IMM16 r v) s = set_reg r (set_low16 (m_regs s r) v) s"
| "exec (MOV_FROM_SEG r g) s = set_reg r (set_low16 (m_regs s r) (m_segs s g)) s"
| "exec (MOV_SEG g r) s = set_seg g (ucast (m_regs s r)) s"
| "exec (ADD_IMM r w) s = set_eflags (add_flags (m_regs s r) w (m_eflags s)) (set_reg r (m_regs s r + w) s)"
| "exec (AND_IMM r w) s = set_eflags (and_flags (m_regs s r) w (m_eflags s)) (set_reg r (m_regs s r AND w) s)"
| "exec (JMP a) s = set_eip a s"
| "exec (JMP_FAR g a) s = set_seg CS g (set_eip a s)"
| "exec (CALL a) s = set_eip a (push32 (m_eip s) s)"
| "exec RET s = set_eip (top32 s) (drop32 s)"
| "exec IRET s = iret s"
| "exec (LGDT r) s = s\<lparr>m_gdtr := descriptor_reg (m_mem s) (m_regs s r)\<rparr>"
| "exec (LIDT r) s = s\<lparr>m_idtr := descriptor_reg (m_mem s) (m_regs s r)\<rparr>"

text \<open>Instructions that go on with the next one.\<close>

fun straight :: "instr \<Rightarrow> bool" where
  "straight (JMP _) = False"
| "straight (JMP_FAR _ _) = False"
| "straight (CALL _) = False"
| "straight RET = False"
| "straight IRET = False"
| "straight HLT = False"
| "straight _ = True"

type_synonym code = "u32 \<Rightarrow> (instr \<times> u32) option"

definition step :: "code \<Rightarrow> machine \<Rightarrow> machine option" where
  "step code s = (if m_halted s then None
     else map_option (\<lambda>(i, next). exec i (set_eip next s)) (code (m_eip s)))"

fun run :: "code \<Rightarrow> nat \<Rightarrow> machine \<Rightarrow> machine option" where
  "run code 0 s = Some s"
| "run code (Suc n) s = Option.bind (step code s) (run code n)"

text \<open>The instructions of a list stand one behind the other from address \<open>a\<close> on; \<open>code_end\<close> is the address behind
  the last.\<close>

fun loaded :: "code \<Rightarrow> u32 \<Rightarrow> instr list \<Rightarrow> bool" where
  "loaded code a [] = True"
| "loaded code a (i # is) = (case code a of None \<Rightarrow> False | Some (j, next) \<Rightarrow> j = i \<and> loaded code next is)"

fun code_end :: "code \<Rightarrow> u32 \<Rightarrow> instr list \<Rightarrow> u32" where
  "code_end code a [] = a"
| "code_end code a (i # is) = (case code a of None \<Rightarrow> a | Some (_, next) \<Rightarrow> code_end code next is)"

section \<open>Interrupts\<close>

text \<open>The exceptions for which the processor pushes an error code.\<close>

definition has_error_code :: "nat \<Rightarrow> bool" where
  "has_error_code n = (n \<in> {8, 10, 11, 12, 13, 14, 17})"

text \<open>An interrupt through a gate to the same privilege level: the processor pushes no stack pointer.\<close>

definition deliver :: "idt \<Rightarrow> nat \<Rightarrow> u32 \<Rightarrow> machine \<Rightarrow> machine option" where
  "deliver t n err s =
     (let e = idt_entries t n in
      if gate_present e
      then let s1 = push32 (m_eip s) (push32 (ucast (m_segs s CS)) (push32 (m_eflags s) s));
               s2 = (if has_error_code n then push32 err s1 else s1)
           in Some ((set_eflags (gate_flags (idt_flags e) (m_eflags s)) (set_seg CS (sel e) (set_eip (gate_base e) s2)))\<lparr>m_halted := False\<rparr>)
      else None)"

section \<open>Reading and writing the state\<close>

named_theorems machine_simps \<open>reading a state after an update\<close>

lemma m_regs_upd [machine_simps, simp]:
  "m_regs (set_reg r v s) = (m_regs s)(r := v)" "m_regs (set_seg g x s) = m_regs s" "m_regs (set_eip a s) = m_regs s"
  "m_regs (set_eflags f s) = m_regs s" "m_regs (store32 a w s) = m_regs s"
  "m_regs (push32 w s) = (m_regs s)(ESP := m_regs s ESP - 4)" "m_regs (drop32 s) = (m_regs s)(ESP := m_regs s ESP + 4)"
  by (simp_all add: set_reg_def set_seg_def set_eip_def set_eflags_def store32_def push32_def drop32_def)

lemma m_segs_upd [machine_simps, simp]:
  "m_segs (set_reg r v s) = m_segs s" "m_segs (set_seg g x s) = (m_segs s)(g := x)" "m_segs (set_eip a s) = m_segs s"
  "m_segs (set_eflags f s) = m_segs s" "m_segs (store32 a w s) = m_segs s" "m_segs (push32 w s) = m_segs s" "m_segs (drop32 s) = m_segs s"
  by (simp_all add: set_reg_def set_seg_def set_eip_def set_eflags_def store32_def push32_def drop32_def)

lemma m_eip_upd [machine_simps, simp]:
  "m_eip (set_reg r v s) = m_eip s" "m_eip (set_seg g x s) = m_eip s" "m_eip (set_eip a s) = a"
  "m_eip (set_eflags f s) = m_eip s" "m_eip (store32 a w s) = m_eip s" "m_eip (push32 w s) = m_eip s" "m_eip (drop32 s) = m_eip s"
  by (simp_all add: set_reg_def set_seg_def set_eip_def set_eflags_def store32_def push32_def drop32_def)

lemma m_eflags_upd [machine_simps, simp]:
  "m_eflags (set_reg r v s) = m_eflags s" "m_eflags (set_seg g x s) = m_eflags s" "m_eflags (set_eip a s) = m_eflags s"
  "m_eflags (set_eflags f s) = f" "m_eflags (store32 a w s) = m_eflags s" "m_eflags (push32 w s) = m_eflags s" "m_eflags (drop32 s) = m_eflags s"
  by (simp_all add: set_reg_def set_seg_def set_eip_def set_eflags_def store32_def push32_def drop32_def)

lemma m_halted_upd [machine_simps, simp]:
  "m_halted (set_reg r v s) = m_halted s" "m_halted (set_seg g x s) = m_halted s" "m_halted (set_eip a s) = m_halted s"
  "m_halted (set_eflags f s) = m_halted s" "m_halted (store32 a w s) = m_halted s" "m_halted (push32 w s) = m_halted s" "m_halted (drop32 s) = m_halted s"
  by (simp_all add: set_reg_def set_seg_def set_eip_def set_eflags_def store32_def push32_def drop32_def)

lemma m_mem_upd [machine_simps, simp]:
  "m_mem (set_reg r v s) = m_mem s" "m_mem (set_seg g x s) = m_mem s" "m_mem (set_eip a s) = m_mem s" "m_mem (set_eflags f s) = m_mem s"
  "m_mem (store32 a w s) = write32 (m_mem s) a w" "m_mem (drop32 s) = m_mem s"
  "m_mem (push32 w s) = write32 (m_mem s) (m_regs s ESP - 4) w"
  by (simp_all add: set_reg_def set_seg_def set_eip_def set_eflags_def store32_def push32_def drop32_def)

lemma m_tables_upd [machine_simps, simp]:
  "m_gdtr (set_reg r v s) = m_gdtr s" "m_gdtr (set_seg g x s) = m_gdtr s" "m_gdtr (set_eip a s) = m_gdtr s"
  "m_gdtr (set_eflags f s) = m_gdtr s" "m_gdtr (drop32 s) = m_gdtr s"
  "m_idtr (set_reg r v s) = m_idtr s" "m_idtr (set_seg g x s) = m_idtr s" "m_idtr (set_eip a s) = m_idtr s"
  "m_idtr (set_eflags f s) = m_idtr s" "m_idtr (drop32 s) = m_idtr s"
  by (simp_all add: set_reg_def set_seg_def set_eip_def set_eflags_def drop32_def)

lemma ucast_set_low16 [simp]: "ucast (set_low16 w v) = v"
proof -
  have "(0xFFFF0000 :: u32) = NOT (mask 16)" by (simp add: mask_eq_exp_minus_1)
  then have "set_low16 w v = (w AND NOT (mask 16)) OR ucast v" by (simp only: set_low16_def)
  then show ?thesis by (simp only:) (rule bit_eqI, auto simp: bit_simps)
qed

section \<open>Straight code\<close>

lemma push32_set_eip: "push32 w (set_eip a s) = set_eip a (push32 w s)"
  by (simp add: push32_def store32_def set_reg_def set_eip_def)

lemma pop32_set_eip: "pop32 r (set_eip a s) = set_eip a (pop32 r s)" "drop32 (set_eip a s) = set_eip a (drop32 s)"
  by (simp_all add: pop32_def drop32_def top32_def set_reg_def set_eip_def)

lemma set_eip_set_eip [simp]: "set_eip b (set_eip a s) = set_eip b s"
  by (simp add: set_eip_def)

lemma exec_set_eip: "straight i \<Longrightarrow> exec i (set_eip a s) = set_eip a (exec i s)"
  by (cases i) (simp_all add: push32_set_eip pop32_set_eip pusha_def popa_def,
      simp_all add: set_eip_def set_eflags_def set_reg_def set_seg_def store32_def top32_def drop32_def)

lemma exec_not_halted: "straight i \<Longrightarrow> m_halted (exec i s) = m_halted s"
  by (cases i) (simp_all add: pop32_def pusha_def popa_def)

lemma run_straight:
  assumes "\<forall>i\<in>set is. straight i" and "loaded code (m_eip s) is" and "\<not> m_halted s"
  shows "run code (length is) s = Some (set_eip (code_end code (m_eip s) is) (fold exec is s))"
  using assms
proof (induction "is" arbitrary: s)
  case Nil
  then show ?case by (simp add: set_eip_def)
next
  case (Cons i "is")
  then obtain next_i where c: "code (m_eip s) = Some (i, next_i)" "loaded code next_i is" by (auto split: option.splits)
  then have "step code s = Some (set_eip next_i (exec i s))" using Cons.prems by (simp add: step_def exec_set_eip)
  moreover have "\<not> m_halted (set_eip next_i (exec i s))" using Cons.prems by (simp add: exec_not_halted)
  moreover have "fold exec is (set_eip a s') = set_eip a (fold exec is s')" if "\<forall>i\<in>set is. straight i" for a s'
    using that by (induction "is" arbitrary: s') (simp_all add: exec_set_eip)
  ultimately show ?case using c Cons by simp
qed

lemma loaded_append: "loaded code a (is @ js) \<longleftrightarrow> loaded code a is \<and> loaded code (code_end code a is) js"
  by (induction "is" arbitrary: a) (auto split: option.splits)

lemma code_end_append: "loaded code a is \<Longrightarrow> code_end code a (is @ js) = code_end code (code_end code a is) js"
  by (induction "is" arbitrary: a) (auto split: option.splits)

lemma run_add: "run code (m + n) s = Option.bind (run code m s) (run code n)"
proof (induction m arbitrary: s)
  case (Suc m)
  then show ?case by (cases "step code s") simp_all
qed simp

text \<open>Straight code with one instruction behind it.\<close>

lemma run_block:
  assumes "\<forall>i\<in>set is. straight i" and l: "loaded code (m_eip s) (is @ [j])" and "\<not> m_halted s"
  shows "run code (length is + 1) s = Some (exec j (set_eip (code_end code (m_eip s) (is @ [j])) (fold exec is s)))"
proof -
  let ?a = "code_end code (m_eip s) is" and ?s = "fold exec is s"
  have "\<not> m_halted ?s" using assms(1,3) by (induction "is" arbitrary: s) (simp_all add: exec_not_halted)
  then have "run code 1 (set_eip ?a ?s) = Some (exec j (set_eip (code_end code ?a [j]) ?s))"
    using l by (auto simp: step_def loaded_append One_nat_def split: option.splits)
  then show ?thesis using run_straight [OF assms(1) _ assms(3)] l
    unfolding run_add by (simp add: loaded_append code_end_append)
qed

lemma run_block_count:
  assumes "\<forall>i\<in>set is. straight i" and "loaded code (m_eip s) (is @ [j])" and "\<not> m_halted s" and "k = length is + 1"
  shows "\<exists>a. run code k s = Some (exec j (set_eip a (fold exec is s)))"
  using run_block [OF assms(1-3)] assms(4) by blast

section \<open>Words on the stack\<close>

text \<open>\<open>n\<close> bytes at \<open>a\<close> and \<open>k\<close> bytes at \<open>b\<close> have no byte in common, also across the end of the address space.\<close>

definition apart :: "u32 \<Rightarrow> nat \<Rightarrow> u32 \<Rightarrow> nat \<Rightarrow> bool" where
  "apart a n b k \<longleftrightarrow> n \<le> unat (b - a) \<and> k \<le> unat (a - b)"

fun frame :: "mem \<Rightarrow> u32 \<Rightarrow> u32 list \<Rightarrow> bool" where
  "frame m a [] = True"
| "frame m a (w # ws) = (read32 m a = w \<and> frame m (a + 4) ws)"

lemma apart_sym: "apart a n b k \<longleftrightarrow> apart b k a n"
  by (auto simp: apart_def)

lemma read32_apart: "apart a 4 b 4 \<Longrightarrow> read32 (write32 m a w) b = read32 m b"
  by (rule read32_write32_apart) (simp_all add: apart_def word_le_nat_alt)

lemma unat_add_sub: "unat (b - a) + n \<le> 2 ^ 32 - 1 \<Longrightarrow> unat (b + of_nat n - a) = unat (b - a) + n" for a b :: u32
proof -
  assume "unat (b - a) + n \<le> 2 ^ 32 - 1"
  moreover from this have "unat (of_nat n :: u32) = n" by (simp add: unat_of_nat)
  moreover have "b + of_nat n - a = (b - a) + of_nat n" by simp
  ultimately show ?thesis by (simp only: unat_word_ariths) (simp add: unat_of_nat)
qed

lemma unat_sub_swap: "a \<noteq> b \<Longrightarrow> unat (a - b) + unat (b - a) = 2 ^ 32" for a b :: u32
  using unat_u32_lt [of a] unat_u32_lt [of b] by (auto simp: unat_sub_if' word_unat_eq_iff)

text \<open>A part of a range keeps apart from what the range keeps apart from.\<close>

lemma apart_part:
  assumes "apart a n b k" and "i + j \<le> k" and "0 < n" and "0 < j"
  shows "apart a n (b + of_nat i) j"
proof -
  have sum: "unat (b - a) + unat (a - b) = 2 ^ 32" by (rule unat_sub_swap) (use assms in \<open>auto simp: apart_def\<close>)
  have "k \<le> unat (a - b)" "n \<le> unat (b - a)" using assms(1) by (simp_all add: apart_def)
  then have "unat (b - a) + i \<le> 2 ^ 32 - 1" using sum assms by linarith
  then have 1: "unat (b + of_nat i - a) = unat (b - a) + i" by (rule unat_add_sub)
  then have "b + of_nat i \<noteq> a" using \<open>n \<le> unat (b - a)\<close> \<open>0 < n\<close> by auto
  then have "unat (b + of_nat i - a) + unat (a - (b + of_nat i)) = 2 ^ 32"
    by (rule unat_sub_swap)
  then show ?thesis using 1 sum assms \<open>k \<le> unat (a - b)\<close> \<open>n \<le> unat (b - a)\<close> by (simp add: apart_def)
qed

lemma frame_write: "apart b 4 a (4 * length ws) \<Longrightarrow> frame (write32 m b w) a ws \<longleftrightarrow> frame m a ws"
proof (induction ws arbitrary: a)
  case (Cons v ws)
  from apart_part [OF Cons.prems, of 0 4] have "read32 (write32 m b w) a = read32 m a" by (simp add: read32_apart)
  moreover have "frame (write32 m b w) (a + 4) ws \<longleftrightarrow> frame m (a + 4) ws"
    by (cases "ws = []") (use Cons.IH apart_part [OF Cons.prems, of 4 "4 * length ws"] in simp_all)
  ultimately show ?case by simp
qed simp

lemma frame_push: "frame m a ws \<Longrightarrow> length ws < 2 ^ 29 \<Longrightarrow> frame (write32 m (a - 4) w) (a - 4) (w # ws)"
  by (simp add: frame_write apart_def)

lemma frame_append: "frame m a (vs @ ws) \<longleftrightarrow> frame m a vs \<and> frame m (a + 4 * of_nat (length vs)) ws"
  by (induction vs arbitrary: a) (auto simp: algebra_simps)

definition on_stack :: "machine \<Rightarrow> u32 list \<Rightarrow> bool" where
  "on_stack s ws = frame (m_mem s) (m_regs s ESP) ws"

lemma on_stack_upd [simp]:
  "r \<noteq> ESP \<Longrightarrow> on_stack (set_reg r v s) ws = on_stack s ws" "on_stack (set_seg g x s) ws = on_stack s ws"
  "on_stack (set_eip a s) ws = on_stack s ws" "on_stack (set_eflags f s) ws = on_stack s ws"
  "on_stack (s\<lparr>m_halted := h\<rparr>) ws = on_stack s ws"
  by (simp_all add: on_stack_def)

lemma on_stack_push: "on_stack s ws \<Longrightarrow> length ws < 2 ^ 29 \<Longrightarrow> on_stack (push32 w s) (w # ws)"
  by (simp add: on_stack_def frame_push del: frame.simps)

lemma on_stack_drop: "on_stack s (w # ws) \<Longrightarrow> on_stack (drop32 s) ws"
  by (simp add: on_stack_def)

lemma on_stack_top: "on_stack s (w # ws) \<Longrightarrow> top32 s = w"
  by (simp add: on_stack_def top32_def)

lemma on_stack_pop: "on_stack s (w # ws) \<Longrightarrow> r \<noteq> ESP \<Longrightarrow> on_stack (pop32 r s) ws \<and> pop32 r s = set_reg r w (drop32 s)"
  by (simp add: pop32_def on_stack_drop on_stack_top)

lemma on_stack_pusha:
  assumes "on_stack s ws" and "length ws < 2 ^ 28"
  shows "on_stack (pusha s) (map (m_regs s) [EDI, ESI, EBP, ESP, EBX, EDX, ECX, EAX] @ ws)"
  unfolding pusha_def using assms by (auto intro!: on_stack_push)

lemma pusha_fields [simp]:
  "m_regs (pusha s) = (m_regs s)(ESP := m_regs s ESP - 32)" "m_segs (pusha s) = m_segs s" "m_eip (pusha s) = m_eip s"
  "m_eflags (pusha s) = m_eflags s" "m_halted (pusha s) = m_halted s"
  by (simp_all add: pusha_def)

lemma on_stack_popa:
  assumes "on_stack s ([di, si, bp, sp, bx, dx, cx, ax] @ ws)"
  shows "on_stack (popa s) ws" and "m_regs (popa s) = (m_regs s)(EDI := di, ESI := si, EBP := bp, EBX := bx, EDX := dx, ECX := cx, EAX := ax,
      ESP := m_regs s ESP + 32)"
    and "m_segs (popa s) = m_segs s" and "m_eip (popa s) = m_eip s" and "m_halted (popa s) = m_halted s"
proof -
  let ?s = "set_reg EBP bp (drop32 (set_reg ESI si (drop32 (set_reg EDI di (drop32 s)))))"
  let ?t = "set_reg EAX ax (drop32 (set_reg ECX cx (drop32 (set_reg EDX dx (drop32 (set_reg EBX bx (drop32 (drop32 ?s))))))))"
  have "on_stack ?s ([sp, bx, dx, cx, ax] @ ws) \<and> (pop32 EBP \<circ> pop32 ESI \<circ> pop32 EDI) s = ?s"
    using assms by (simp add: pop32_def on_stack_def top32_def add.assoc)
  then have "on_stack ?t ws \<and> popa s = ?t" unfolding popa_def by (simp add: pop32_def on_stack_def top32_def add.assoc)
  then show "on_stack (popa s) ws" and "m_regs (popa s) = (m_regs s)(EDI := di, ESI := si, EBP := bp, EBX := bx, EDX := dx, ECX := cx, EAX := ax,
      ESP := m_regs s ESP + 32)"
    and "m_segs (popa s) = m_segs s" and "m_eip (popa s) = m_eip s" and "m_halted (popa s) = m_halted s"
    by (auto simp: fun_eq_iff)
qed

lemma iret_pops:
  assumes "on_stack s (ip # c # f # ws)"
  shows "iret s = set_eflags (iret_flags f) (set_seg CS (ucast c) (set_eip ip (drop32 (drop32 (drop32 s)))))"
    and "on_stack (iret s) ws"
  using assms by (simp_all add: iret_def Let_def on_stack_def top32_def add.assoc)

text \<open>Parts of one range, and of two ranges that are apart.\<close>

lemma apart_inside:
  assumes "i + n \<le> j" and "j + k \<le> i + 2 ^ 32" and "0 < n" and "0 < k"
  shows "apart (a + of_nat i) n (a + of_nat j) k"
proof -
  have "unat (of_nat j - of_nat i :: u32) = j - i" using assms by (simp add: unat_of_nat flip: of_nat_diff)
  moreover have "unat (of_nat i - of_nat j :: u32) = 2 ^ 32 - (j - i)" if "i \<noteq> j"
    using calculation unat_sub_swap [of "of_nat j" "of_nat i"] that assms by force
  ultimately show ?thesis using assms by (cases "i = j") (auto simp: apart_def)
qed

lemma apart_parts:
  assumes "apart a N b K" and "i + n \<le> N" and "j + k \<le> K" and "0 < n" and "0 < k"
  shows "apart (a + of_nat i) n (b + of_nat j) k"
proof -
  have "apart a N (b + of_nat j) k" by (rule apart_part [OF assms(1,3)]) (use assms in auto)
  then have "apart (b + of_nat j) k a N" by (simp add: apart_sym)
  then have "apart (b + of_nat j) k (a + of_nat i) n" by (rule apart_part) (use assms in auto)
  then show ?thesis by (simp add: apart_sym)
qed

section \<open>Writing several words\<close>

fun store_words :: "mem \<Rightarrow> u32 \<Rightarrow> u32 list \<Rightarrow> mem" where
  "store_words m a [] = m"
| "store_words m a (w # ws) = store_words (write32 m a w) (a + 4) ws"

lemma apart_part_left: "apart a n b k \<Longrightarrow> i + j \<le> n \<Longrightarrow> 0 < k \<Longrightarrow> 0 < j \<Longrightarrow> apart (a + of_nat i) j b k"
  using apart_parts [of a n b k i j 0 k] by simp

lemma frame_store_words_apart:
  "apart a (4 * length ws) b (4 * length vs) \<Longrightarrow> frame (store_words m a ws) b vs \<longleftrightarrow> frame m b vs"
proof (induction ws arbitrary: a m)
  case (Cons w ws)
  show ?case
  proof (cases "vs = []")
    case False
    then have a: "apart a 4 b (4 * length vs)" using apart_part_left [OF Cons.prems, of 0 4] by simp
    have "frame (store_words (write32 m a w) (a + 4) ws) b vs \<longleftrightarrow> frame (write32 m a w) b vs"
      by (cases "ws = []") (use False Cons.IH apart_part_left [OF Cons.prems, of 4 "4 * length ws"] in simp_all)
    then show ?thesis using frame_write [OF a] by simp
  qed simp
qed simp

lemma frame_store_words: "length ws < 2 ^ 20 \<Longrightarrow> frame (store_words m a ws) a ws"
proof (induction ws arbitrary: a m)
  case (Cons w ws)
  have "apart (a + 4) (4 * length ws) a (4 * length [w])" using Cons.prems by (simp add: apart_def)
  from frame_store_words_apart [OF this] have "read32 (store_words (write32 m a w) (a + 4) ws) a = w" by simp
  then show ?case using Cons by simp
qed simp

lemma store_words_append: "store_words m a (vs @ ws) = store_words (store_words m a vs) (a + 4 * of_nat (length vs)) ws"
  by (induction vs arbitrary: m a) (simp_all add: algebra_simps)

end
