(* ===== verification/Sprite_Asm.thy ===== *)
theory Sprite_Asm
  imports Sprite_Cpu Sprite_Scheduler
begin

text \<open>
  The assembly of the kernel, instruction by instruction: \<open>boot.s\<close>, \<open>lib/gdt_s.s\<close>, \<open>lib/idt_flush.s\<close>, \<open>lib/isr.s\<close>,
  \<open>lib/switch_to.s\<close> and the instructions of \<open>lib/common.cc\<close> on the interrupt flag. Addresses that the assembler
  and the linker choose are parameters. The C++ code that the assembly calls follows the calling convention,
  which \<open>cdecl_return\<close> states.
\<close>

section \<open>boot.s\<close>

definition MBOOT_HEADER_MAGIC :: u32 where "MBOOT_HEADER_MAGIC = 0x1BADB002"
definition MBOOT_HEADER_FLAGS :: u32 where "MBOOT_HEADER_FLAGS = push_bit 0 1 OR push_bit 1 1"
definition MBOOT_CHECKSUM :: u32 where "MBOOT_CHECKSUM = - (MBOOT_HEADER_MAGIC + MBOOT_HEADER_FLAGS)"

definition mboot_header :: "u32 list" where
  "mboot_header = [MBOOT_HEADER_MAGIC, MBOOT_HEADER_FLAGS, MBOOT_CHECKSUM]"

text \<open>\<open>STACK_TOP\<close> is \<open>$ - stack - 1\<close>, a difference of addresses: the 1024 bytes of the stack less one.\<close>

definition STACK_TOP :: u32 where "STACK_TOP = 1024 - 1"

definition start_code :: "u32 \<Rightarrow> u32 \<Rightarrow> instr list" where
  "start_code mboot_ptr_tmp kern_entry =
     [CLI, STORE_ABS mboot_ptr_tmp EBX, MOV_IMM ESP STACK_TOP, AND_IMM ESP 0xFFFFFFF0, MOV_IMM EBP 0, CALL kern_entry]"

section \<open>Descriptor tables and the interrupt flag\<close>

definition load_data_segments :: "reg \<Rightarrow> instr list" where
  "load_data_segments r = [MOV_SEG DS r, MOV_SEG ES r, MOV_SEG FS r, MOV_SEG GS r, MOV_SEG SS r]"

definition gdt_flush_code :: "u32 \<Rightarrow> instr list" where
  "gdt_flush_code flush = [LOAD EAX ESP 4, LGDT EAX, MOV_IMM16 EAX 0x10] @ load_data_segments EAX @ [JMP_FAR 0x08 flush]"

definition gdt_flush_tail :: "instr list" where
  "gdt_flush_tail = [RET]"

definition idt_flush_code :: "instr list" where
  "idt_flush_code = [LOAD EAX ESP 4, LIDT EAX, STI, RET]"

definition enable_intr :: "machine \<Rightarrow> machine" where
  "enable_intr = exec STI"

definition disable_intr :: "machine \<Rightarrow> machine" where
  "disable_intr = exec CLI"

definition cpu_hlt :: "machine \<Rightarrow> machine" where
  "cpu_hlt = exec HLT"

section \<open>isr.s\<close>

definition ISR_NOERRCODE :: "u32 \<Rightarrow> nat \<Rightarrow> instr list" where
  "ISR_NOERRCODE common n = [CLI, PUSH_IMM 0, PUSH_IMM (of_nat n), JMP common]"

definition ISR_ERRCODE :: "u32 \<Rightarrow> nat \<Rightarrow> instr list" where
  "ISR_ERRCODE common n = [CLI, PUSH_IMM (of_nat n), JMP common]"

text \<open>The stubs in the order of the file, with their numbers.\<close>

definition isr_stubs :: "u32 \<Rightarrow> (nat \<times> instr list) list" where
  "isr_stubs common =
     map (\<lambda>n. (n, ISR_NOERRCODE common n)) [0, 1, 2, 3, 4, 5, 6, 7]
   @ map (\<lambda>n. (n, ISR_ERRCODE common n)) [8] @ map (\<lambda>n. (n, ISR_NOERRCODE common n)) [9]
   @ map (\<lambda>n. (n, ISR_ERRCODE common n)) [10, 11, 12, 13, 14] @ map (\<lambda>n. (n, ISR_NOERRCODE common n)) [15, 16]
   @ map (\<lambda>n. (n, ISR_ERRCODE common n)) [17] @ map (\<lambda>n. (n, ISR_NOERRCODE common n)) [18, 19]
   @ map (\<lambda>n. (n, ISR_NOERRCODE common n)) [20, 21, 22, 23, 24, 25, 26, 27, 28, 29, 30, 31]
   @ map (\<lambda>n. (n, ISR_NOERRCODE common n)) [255]"

definition common_stub :: "u32 \<Rightarrow> instr list \<times> instr list" where
  "common_stub dispatcher =
     ([PUSHA, MOV_FROM_SEG EAX DS, PUSH EAX, MOV_IMM16 EAX 0x10] @ load_data_segments EAX @ [PUSH ESP, CALL dispatcher],
      [ADD_IMM ESP 4, POP EBX] @ load_data_segments EBX @ [POPA, ADD_IMM ESP 8, IRET])"

text \<open>The code before and behind the call of the dispatcher.\<close>

definition isr_common_stub :: "u32 \<Rightarrow> instr list" where
  "isr_common_stub isr_dispatcher = (case common_stub isr_dispatcher of (before, behind) \<Rightarrow> before @ behind)"

definition IRQ_stub :: "u32 \<Rightarrow> nat \<Rightarrow> instr list" where
  "IRQ_stub common vector = [CLI, PUSH_IMM 0, PUSH_IMM (of_nat vector), JMP common]"

definition irq_stubs :: "u32 \<Rightarrow> (nat \<times> instr list) list" where
  "irq_stubs common = map (\<lambda>(i, vector). (i, IRQ_stub common vector))
     [(0, 32), (1, 33), (2, 34), (3, 35), (4, 36), (5, 37), (6, 38), (7, 39),
      (8, 40), (9, 41), (10, 42), (11, 43), (12, 44), (13, 45), (14, 46), (15, 47)]"

definition irq_common_stub :: "u32 \<Rightarrow> instr list" where
  "irq_common_stub irq_dispatcher = (case common_stub irq_dispatcher of (before, behind) \<Rightarrow> before @ behind)"

text \<open>The stubs that \<open>idt.h\<close> declares.\<close>

definition isr_decls :: "nat list" where
  "isr_decls = [0, 1, 2, 3, 4, 5, 6, 7, 8, 9, 10, 11, 12, 13, 14, 15, 16, 17, 18, 19,
     20, 21, 22, 23, 24, 25, 26, 27, 28, 29, 30, 31, 255]"

definition irq_decls :: "nat list" where
  "irq_decls = [0, 1, 2, 3, 4, 5, 6, 7, 8, 9, 10, 11, 12, 13, 14, 15]"

text \<open>The linked image: \<open>stub i\<close> is the address of \<open>isr\<close>\<open>i\<close>, and of \<open>irq\<close>\<open>(i - 32)\<close> from 32 on, as in \<open>init_idt\<close>.\<close>

record isr_image =
  img_stub :: "nat \<Rightarrow> u32"
  img_isr_common :: u32
  img_irq_common :: u32
  img_isr_dispatcher :: u32
  img_irq_dispatcher :: u32

definition stubs_linked :: "code \<Rightarrow> isr_image \<Rightarrow> bool" where
  "stubs_linked code im \<longleftrightarrow>
     list_all (\<lambda>(n, is). n < 32 \<longrightarrow> loaded code (img_stub im n) is) (isr_stubs (img_isr_common im))
   \<and> list_all (\<lambda>(i, is). loaded code (img_stub im (i + 32)) is) (irq_stubs (img_irq_common im))
   \<and> loaded code (img_isr_common im) (isr_common_stub (img_isr_dispatcher im))
   \<and> loaded code (img_irq_common im) (irq_common_stub (img_irq_dispatcher im))"

text \<open>The structure \<open>pt_regs\<close> as the dispatchers read it.\<close>

definition pt_regs_at :: "mem \<Rightarrow> u32 \<Rightarrow> pt_regs" where
  "pt_regs_at m a = \<lparr>ds = read32 m a, edi = read32 m (a + 4), esi = read32 m (a + 8), ebp = read32 m (a + 12),
     esp = read32 m (a + 16), ebx = read32 m (a + 20), edx = read32 m (a + 24), ecx = read32 m (a + 28), eax = read32 m (a + 32),
     int_no = read32 m (a + 36), err_code = read32 m (a + 40), eip = read32 m (a + 44), cs = read32 m (a + 48),
     eflags = read32 m (a + 52), useresp = read32 m (a + 56), ss = read32 m (a + 60)\<rparr>"

text \<open>What a caller can rely on when a C++ function that was entered in \<open>s\<close> returns in \<open>s'\<close>.\<close>

definition cdecl_return :: "machine \<Rightarrow> machine \<Rightarrow> bool" where
  "cdecl_return s s' \<longleftrightarrow> m_eip s' = top32 s \<and> m_regs s' ESP = m_regs s ESP + 4
     \<and> list_all (\<lambda>r. m_regs s' r = m_regs s r) [EBX, ESI, EDI, EBP] \<and> m_segs s' = m_segs s \<and> \<not> m_halted s'"

section \<open>switch_to.s\<close>

definition switch_to_code :: "instr list" where
  "switch_to_code =
     [LOAD EAX ESP 4,
      STORE EAX 0 ESP, STORE EAX 4 EBP, STORE EAX 8 EBX, STORE EAX 12 ESI, STORE EAX 16 EDI,
      PUSHF, POP ECX, STORE EAX 20 ECX,
      LOAD EAX ESP 8,
      LOAD ESP EAX 0, LOAD EBP EAX 4, LOAD EBX EAX 8, LOAD ESI EAX 12, LOAD EDI EAX 16,
      LOAD EAX EAX 20, PUSH EAX, POPF,
      RET]"

text \<open>The layout of \<open>task_struct\<close>; \<open>change_task_to\<close> passes the addresses of the contexts.\<close>

definition task_layout :: layout where
  "task_layout = [(''state'', 4), (''pid'', 4), (''kstack'', 4), (''context'', 24), (''next'', 4)]"

definition context_of :: "u32 \<Rightarrow> u32" where
  "context_of t = t + field_offset task_layout ''context''"

section \<open>Interrupt entry\<close>

lemma stubs_declared: "map fst (isr_stubs c) = isr_decls" "map fst (irq_stubs c) = irq_decls"
  by (simp_all add: isr_stubs_def irq_stubs_def isr_decls_def irq_decls_def)

text \<open>What the stub of a vector does before it jumps to the common code.\<close>

definition stub_pushes :: "nat \<Rightarrow> instr list" where
  "stub_pushes n = CLI # (if has_error_code n then [] else [PUSH_IMM 0]) @ [PUSH_IMM (of_nat n)]"

lemma isr_stub_code: "n < 32 \<Longrightarrow> (n, stub_pushes n @ [JMP c]) \<in> set (isr_stubs c)"
  by (simp add: isr_stubs_def stub_pushes_def ISR_NOERRCODE_def ISR_ERRCODE_def has_error_code_def cong: conj_cong) presburger

lemma irq_stub_code: "i < 16 \<Longrightarrow> (i, stub_pushes (i + 32) @ [JMP c]) \<in> set (irq_stubs c)"
  by (simp add: irq_stubs_def stub_pushes_def IRQ_stub_def has_error_code_def cong: conj_cong) presburger

definition common_of :: "isr_image \<Rightarrow> nat \<Rightarrow> u32" where
  "common_of im n = (if n < 32 then img_isr_common im else img_irq_common im)"

definition dispatcher_of :: "isr_image \<Rightarrow> nat \<Rightarrow> u32" where
  "dispatcher_of im n = (if n < 32 then img_isr_dispatcher im else img_irq_dispatcher im)"

lemma stub_loaded:
  assumes "stubs_linked code im" and "n < 48"
  shows "loaded code (img_stub im n) (stub_pushes n @ [JMP (common_of im n)])"
    and "loaded code (common_of im n) (fst (common_stub (dispatcher_of im n)) @ snd (common_stub (dispatcher_of im n)))"
proof -
  show "loaded code (img_stub im n) (stub_pushes n @ [JMP (common_of im n)])"
  proof (cases "n < 32")
    case True
    then show ?thesis using assms isr_stub_code [of n "img_isr_common im"] by (fastforce simp: stubs_linked_def common_of_def list_all_iff)
  next
    case False
    then have "n - 32 < 16" "n - 32 + 32 = n" using assms(2) by simp_all
    then show ?thesis using assms irq_stub_code [of "n - 32" "img_irq_common im"] False
      by (fastforce simp: stubs_linked_def common_of_def list_all_iff)
  qed
  show "loaded code (common_of im n) (fst (common_stub (dispatcher_of im n)) @ snd (common_stub (dispatcher_of im n)))"
    using assms by (simp add: stubs_linked_def common_of_def dispatcher_of_def isr_common_stub_def irq_common_stub_def split: prod.splits)
qed

definition pt_words :: "pt_regs \<Rightarrow> u32 list" where
  "pt_words r = [ds r, edi r, esi r, ebp r, esp r, ebx r, edx r, ecx r, eax r, int_no r, err_code r, eip r, cs r, eflags r, useresp r, ss r]"

lemma pt_regs_at_frame: "frame m a (pt_words r) \<longleftrightarrow> pt_regs_at m a = r"
  by (cases r) (auto simp: pt_words_def pt_regs_at_def add.assoc)

text \<open>The registers that an interrupt of a state saves. The upper half of \<open>ds\<close> is that of \<open>eax\<close>; \<open>esp\<close> is its value
  before \<open>pusha\<close>; the processor pushes no \<open>useresp\<close> and \<open>ss\<close>, so these are the words on top of the interrupted stack.\<close>

definition interrupt_regs :: "nat \<Rightarrow> u32 \<Rightarrow> machine \<Rightarrow> pt_regs" where
  "interrupt_regs n err s = \<lparr>ds = set_low16 (m_regs s EAX) (m_segs s DS), edi = m_regs s EDI, esi = m_regs s ESI, ebp = m_regs s EBP,
     esp = m_regs s ESP - 20, ebx = m_regs s EBX, edx = m_regs s EDX, ecx = m_regs s ECX, eax = m_regs s EAX,
     int_no = of_nat n, err_code = (if has_error_code n then err else 0), eip = m_eip s, cs = ucast (m_segs s CS),
     eflags = m_eflags s, useresp = top32 s, ss = read32 (m_mem s) (m_regs s ESP + 4)\<rparr>"

text \<open>The gate and the stub: whether or not the processor has pushed an error code, the stack has the same shape.\<close>

lemma deliver_stub:
  assumes g: "gate_present (idt_entries t n)" "gate_base (idt_entries t n) = img_stub im n"
    and l: "loaded code (img_stub im n) (stub_pushes n @ [JMP c])"
  shows "\<exists>s0 s1 k. deliver t n err s = Some s0 \<and> run code k s0 = Some s1 \<and> m_eip s1 = c \<and> \<not> m_halted s1 \<and> \<not> interrupts_on s1
    \<and> m_regs s1 = (m_regs s)(ESP := m_regs s ESP - 20) \<and> m_segs s1 = (m_segs s)(CS := sel (idt_entries t n))
    \<and> on_stack s1 [of_nat n, if has_error_code n then err else 0, m_eip s, ucast (m_segs s CS), m_eflags s, top32 s, read32 (m_mem s) (m_regs s ESP + 4)]"
proof -
  let ?ws = "[m_eip s, ucast (m_segs s CS), m_eflags s, top32 s, read32 (m_mem s) (m_regs s ESP + 4)]"
  obtain s0 where s0: "deliver t n err s = Some s0" using g by (simp add: deliver_def Let_def)
  have "on_stack s [top32 s, read32 (m_mem s) (m_regs s ESP + 4)]" by (simp add: on_stack_def top32_def)
  then have "on_stack (push32 (m_eip s) (push32 (ucast (m_segs s CS)) (push32 (m_eflags s) s))) ?ws" by (simp add: on_stack_push)
  then have st: "on_stack s0 (if has_error_code n then err # ?ws else ?ws)"
    using s0 g by (auto simp: deliver_def Let_def intro!: on_stack_push)
  have f: "m_eip s0 = img_stub im n" "\<not> m_halted s0" "m_segs s0 = (m_segs s)(CS := sel (idt_entries t n))"
    "m_regs s0 = (m_regs s)(ESP := m_regs s ESP - (if has_error_code n then 16 else 12))"
    using s0 g by (auto simp: deliver_def Let_def split: if_splits)
  have "\<forall>i\<in>set (stub_pushes n). straight i" by (auto simp: stub_pushes_def split: if_splits)
  define s1 where "s1 = set_eip c (fold exec (stub_pushes n) s0)"
  from run_block [OF \<open>\<forall>i\<in>set (stub_pushes n). straight i\<close>, of code s0 "JMP c"] l f
  have r: "run code (length (stub_pushes n) + 1) s0 = Some s1" by (simp add: s1_def)
  have "on_stack s1 (of_nat n # (if has_error_code n then err else 0) # ?ws)"
    using st by (auto simp: s1_def stub_pushes_def intro!: on_stack_push)
  moreover have "m_eip s1 = c" "\<not> m_halted s1" "\<not> interrupts_on s1" "m_segs s1 = (m_segs s)(CS := sel (idt_entries t n))"
    "m_regs s1 = (m_regs s)(ESP := m_regs s ESP - 20)"
    using f by (simp_all add: s1_def stub_pushes_def interrupts_on_def bit_unset_bit_iff)
  ultimately show ?thesis using s0 r by blast
qed

text \<open>The common code up to the call of the dispatcher.\<close>

lemma common_stub_enter:
  assumes l: "loaded code (m_eip s) (fst (common_stub d) @ snd (common_stub d))" and h: "\<not> m_halted s" and ws: "on_stack s ws" "length ws < 2 ^ 8"
  shows "\<exists>s1 k. run code k s = Some s1 \<and> m_eip s1 = d \<and> \<not> m_halted s1 \<and> m_eflags s1 = m_eflags s
    \<and> m_regs s1 = (m_regs s)(EAX := set_low16 (set_low16 (m_regs s EAX) (m_segs s DS)) 0x10, ESP := m_regs s ESP - 44)
    \<and> m_segs s1 = (m_segs s)(DS := 0x10, ES := 0x10, FS := 0x10, GS := 0x10, SS := 0x10)
    \<and> on_stack s1 ([code_end code (m_eip s) (fst (common_stub d)), m_regs s ESP - 36, set_low16 (m_regs s EAX) (m_segs s DS)]
        @ map (m_regs s) [EDI, ESI, EBP, ESP, EBX, EDX, ECX, EAX] @ ws)"
proof -
  let ?is = "[PUSHA, MOV_FROM_SEG EAX DS, PUSH EAX, MOV_IMM16 EAX 0x10] @ load_data_segments EAX @ [PUSH ESP]"
  have split: "fst (common_stub d) = ?is @ [CALL d]" by (simp add: common_stub_def)
  have str: "\<forall>i\<in>set ?is. straight i" by (simp add: load_data_segments_def)
  have l': "loaded code (m_eip s) (?is @ [CALL d])" using l unfolding split loaded_append [of _ _ "?is @ [CALL d]"] by blast
  have st: "on_stack (fold exec ?is s) ([m_regs s ESP - 36, set_low16 (m_regs s EAX) (m_segs s DS)]
      @ map (m_regs s) [EDI, ESI, EBP, ESP, EBX, EDX, ECX, EAX] @ ws)"
    using on_stack_pusha [OF ws(1)] ws(2) by (auto simp: load_data_segments_def intro!: on_stack_push)
  define s1 where "s1 = set_eip d (push32 (code_end code (m_eip s) (fst (common_stub d))) (fold exec ?is s))"
  have "run code (length ?is + 1) s = Some s1"
    using run_block [OF str l' h] by (simp only: s1_def split exec.simps push32_set_eip set_eip_set_eip m_eip_upd)
  moreover have "m_eip s1 = d" "\<not> m_halted s1" "m_eflags s1 = m_eflags s"
    "m_regs s1 = (m_regs s)(EAX := set_low16 (set_low16 (m_regs s EAX) (m_segs s DS)) 0x10, ESP := m_regs s ESP - 44)"
    "m_segs s1 = (m_segs s)(DS := 0x10, ES := 0x10, FS := 0x10, GS := 0x10, SS := 0x10)"
    using h by (simp_all add: s1_def load_data_segments_def fun_upd_twist)
  moreover have "on_stack s1 ([code_end code (m_eip s) (fst (common_stub d)), m_regs s ESP - 36, set_low16 (m_regs s EAX) (m_segs s DS)]
        @ map (m_regs s) [EDI, ESI, EBP, ESP, EBX, EDX, ECX, EAX] @ ws)"
    using on_stack_push [OF st] ws(2) by (simp add: s1_def del: fold_append)
  ultimately show ?thesis by blast
qed

lemma interrupt_entry:
  assumes l: "stubs_linked code im" and n: "n < 48" and g: "gate_present (idt_entries t n)" "gate_base (idt_entries t n) = img_stub im n"
  shows "\<exists>s0 s1 k. deliver t n err s = Some s0 \<and> run code k s0 = Some s1 \<and> m_eip s1 = dispatcher_of im n \<and> \<not> m_halted s1 \<and> \<not> interrupts_on s1
    \<and> m_regs s1 ESP = m_regs s ESP - 64
    \<and> m_segs s1 = (m_segs s)(CS := sel (idt_entries t n), DS := 0x10, ES := 0x10, FS := 0x10, GS := 0x10, SS := 0x10)
    \<and> on_stack s1 ([code_end code (common_of im n) (fst (common_stub (dispatcher_of im n))), m_regs s ESP - 56] @ pt_words (interrupt_regs n err s))"
proof -
  obtain s0 s' k where s': "deliver t n err s = Some s0" "run code k s0 = Some s'" "m_eip s' = common_of im n" "\<not> m_halted s'" "\<not> interrupts_on s'"
    "m_regs s' = (m_regs s)(ESP := m_regs s ESP - 20)" "m_segs s' = (m_segs s)(CS := sel (idt_entries t n))"
    "on_stack s' [of_nat n, if has_error_code n then err else 0, m_eip s, ucast (m_segs s CS), m_eflags s, top32 s, read32 (m_mem s) (m_regs s ESP + 4)]"
    using deliver_stub [OF g stub_loaded(1) [OF l n]] by blast
  obtain s1 j where s1: "run code j s' = Some s1" "m_eip s1 = dispatcher_of im n" "\<not> m_halted s1" "m_eflags s1 = m_eflags s'"
    "m_regs s1 = (m_regs s')(EAX := set_low16 (set_low16 (m_regs s' EAX) (m_segs s' DS)) 0x10, ESP := m_regs s' ESP - 44)"
    "m_segs s1 = (m_segs s')(DS := 0x10, ES := 0x10, FS := 0x10, GS := 0x10, SS := 0x10)"
    "on_stack s1 ([code_end code (m_eip s') (fst (common_stub (dispatcher_of im n))), m_regs s' ESP - 36, set_low16 (m_regs s' EAX) (m_segs s' DS)]
       @ map (m_regs s') [EDI, ESI, EBP, ESP, EBX, EDX, ECX, EAX]
       @ [of_nat n, if has_error_code n then err else 0, m_eip s, ucast (m_segs s CS), m_eflags s, top32 s, read32 (m_mem s) (m_regs s ESP + 4)])"
    using common_stub_enter [OF _ s'(4,8), of code "dispatcher_of im n"] stub_loaded(2) [OF l n] s'(3) by auto
  have "run code (k + j) s0 = Some s1" using s'(2) s1(1) by (simp add: run_add)
  moreover have "on_stack s1 ([code_end code (common_of im n) (fst (common_stub (dispatcher_of im n))), m_regs s ESP - 56] @ pt_words (interrupt_regs n err s))"
    using s1(7) s'(3,6,7) by (simp add: pt_words_def interrupt_regs_def)
  ultimately show ?thesis using s'(1,5,6,7) s1(2-6) by (intro exI [of _ s0] exI [of _ s1] exI [of _ "k + j"]) (simp add: interrupts_on_def)
qed

text \<open>The common code behind the call restores the registers of the structure.\<close>

lemma common_stub_leave:
  assumes l: "loaded code (m_eip s) (snd (common_stub d))" and h: "\<not> m_halted s" and ws: "on_stack s (x # pt_words r)"
  shows "\<exists>s1 k. run code k s = Some s1 \<and> m_eip s1 = eip r \<and> m_eflags s1 = iret_flags (eflags r) \<and> \<not> m_halted s1
    \<and> m_regs s1 = (m_regs s)(EDI := edi r, ESI := esi r, EBP := ebp r, EBX := ebx r, EDX := edx r, ECX := ecx r, EAX := eax r, ESP := m_regs s ESP + 60)
    \<and> m_segs s1 = (m_segs s)(CS := ucast (cs r), DS := ucast (ds r), ES := ucast (ds r), FS := ucast (ds r), GS := ucast (ds r), SS := ucast (ds r))"
proof -
  let ?is = "[ADD_IMM ESP 4, POP EBX] @ load_data_segments EBX"
  define t1 where "t1 = fold exec ?is s"
  have drop: "exec (ADD_IMM ESP 8) u = set_eflags (add_flags (m_regs u ESP) 8 (m_eflags u)) (drop32 (drop32 u))" for u
    by (simp add: set_reg_def drop32_def add.commute)
  have "on_stack t1 (tl (pt_words r))" "m_regs t1 = (m_regs s)(EBX := ds r, ESP := m_regs s ESP + 8)" "m_halted t1 = m_halted s"
    "m_segs t1 = (m_segs s)(DS := ucast (ds r), ES := ucast (ds r), FS := ucast (ds r), GS := ucast (ds r), SS := ucast (ds r))"
    using ws by (auto simp: t1_def load_data_segments_def pop32_def pt_words_def on_stack_def top32_def add.assoc fun_upd_twist)
  note t1 = this
  have p: "on_stack t1 ([edi r, esi r, ebp r, esp r, ebx r, edx r, ecx r, eax r] @ [int_no r, err_code r, eip r, cs r, eflags r, useresp r, ss r])"
    using t1(1) by (simp add: pt_words_def)
  note pop = on_stack_popa [OF p]
  define t2 where "t2 = exec (ADD_IMM ESP 8) (popa t1)"
  have "on_stack t2 [eip r, cs r, eflags r, useresp r, ss r]" using pop(1) unfolding t2_def drop by (simp add: on_stack_def add.assoc)
  note ir = iret_pops(1) [OF this]
  have str: "\<forall>i\<in>set (?is @ [POPA, ADD_IMM ESP 8]). straight i" by (simp add: load_data_segments_def)
  have sp: "snd (common_stub d) = (?is @ [POPA, ADD_IMM ESP 8]) @ [IRET]" by (simp add: common_stub_def)
  have "fold exec (?is @ [POPA, ADD_IMM ESP 8]) s = t2" by (simp add: t1_def t2_def)
  from run_block [OF str l [unfolded sp] h, unfolded this exec.simps(24)] obtain a k where k: "run code k s = Some (iret (set_eip a t2))"
    by blast
  have "iret (set_eip a t2) = iret t2" by (simp add: iret_def Let_def set_eip_def drop32_def top32_def set_reg_def)
  then show ?thesis using k ir pop t1 h
    by (intro exI [of _ "iret t2"] exI [of _ k]) (auto simp: t2_def drop fun_upd_twist fun_eq_iff)
qed

lemma fun_eq_regs: "list_all (\<lambda>r. f r = g r) [EAX, ECX, EDX, EBX, ESP, EBP, ESI, EDI] \<Longrightarrow> f = g"
proof (rule ext)
  fix x
  assume "list_all (\<lambda>r. f r = g r) [EAX, ECX, EDX, EBX, ESP, EBP, ESI, EDI]"
  then show "f x = g x" by (cases x) simp_all
qed

lemma fun_eq_segs: "list_all (\<lambda>g. f g = h g) [ES, CS, SS, DS, FS, GS] \<Longrightarrow> f = h"
proof (rule ext)
  fix x
  assume "list_all (\<lambda>g. f g = h g) [ES, CS, SS, DS, FS, GS]"
  then show "f x = h x" by (cases x) simp_all
qed

lemma common_stub_returns:
  assumes l: "loaded code (m_eip s2) (snd (common_stub d))" and h: "\<not> m_halted s2" and st: "on_stack s2 (x # pt_words (interrupt_regs n err s))"
    and e: "m_regs s2 ESP = m_regs s ESP - 60" and segs: "list_all (\<lambda>g. m_segs s g = m_segs s DS) [ES, FS, GS, SS]"
    and fl: "iret_flags (m_eflags s) = m_eflags s"
  shows "\<exists>s3 j. run code j s2 = Some s3 \<and> m_regs s3 = m_regs s \<and> m_segs s3 = m_segs s \<and> m_eip s3 = m_eip s \<and> m_eflags s3 = m_eflags s"
proof -
  let ?r = "interrupt_regs n err s"
  have cs: "ucast (cs ?r) = m_segs s CS" by (simp add: interrupt_regs_def) (rule bit_eqI, auto simp: bit_simps)
  obtain s3 j where s3: "run code j s2 = Some s3" "m_eip s3 = eip ?r" "m_eflags s3 = iret_flags (eflags ?r)"
    "m_regs s3 = (m_regs s2)(EDI := edi ?r, ESI := esi ?r, EBP := ebp ?r, EBX := ebx ?r, EDX := edx ?r, ECX := ecx ?r, EAX := eax ?r, ESP := m_regs s2 ESP + 60)"
    "m_segs s3 = (m_segs s2)(CS := m_segs s CS, DS := ucast (ds ?r), ES := ucast (ds ?r), FS := ucast (ds ?r), GS := ucast (ds ?r), SS := ucast (ds ?r))"
    using common_stub_leave [OF l h st] unfolding cs by blast
  have "m_regs s3 = m_regs s" by (rule fun_eq_regs) (simp add: s3(4) e interrupt_regs_def)
  moreover have "m_segs s3 = m_segs s" by (rule fun_eq_segs) (use segs in \<open>simp add: s3(5) interrupt_regs_def\<close>)
  ultimately show ?thesis using s3(1-3) fl by (intro exI [of _ s3] exI [of _ j]) (simp add: interrupt_regs_def)
qed

text \<open>The whole way of an interrupt, through any table with the gates installed.\<close>

lemma interrupt_roundtrip:
  assumes l: "stubs_linked code im" and gi: "gates_installed (img_stub im) t" and n: "n < 48"
  shows "\<exists>s0 s1 k. deliver t n err s = Some s0 \<and> run code k s0 = Some s1 \<and> m_eip s1 = dispatcher_of im n \<and> \<not> interrupts_on s1
    \<and> m_segs s1 = (m_segs s)(CS := 8, DS := 0x10, ES := 0x10, FS := 0x10, GS := 0x10, SS := 0x10)
    \<and> read32 (m_mem s1) (m_regs s1 ESP + 4) = m_regs s1 ESP + 8 \<and> pt_regs_at (m_mem s1) (m_regs s1 ESP + 8) = interrupt_regs n err s
    \<and> (\<forall>s2. cdecl_return s1 s2 \<and> pt_regs_at (m_mem s2) (m_regs s1 ESP + 8) = pt_regs_at (m_mem s1) (m_regs s1 ESP + 8)
         \<and> list_all (\<lambda>g. m_segs s g = m_segs s DS) [ES, FS, GS, SS] \<and> iret_flags (m_eflags s) = m_eflags s \<longrightarrow>
         (\<exists>s3 j. run code j s2 = Some s3 \<and> m_regs s3 = m_regs s \<and> m_segs s3 = m_segs s \<and> m_eip s3 = m_eip s \<and> m_eflags s3 = m_eflags s))"
proof -
  let ?d = "dispatcher_of im n"
  have g: "gate_present (idt_entries t n)" "gate_base (idt_entries t n) = img_stub im n" "sel (idt_entries t n) = 8"
    using gates_installedD [OF gi n] by simp_all
  obtain s0 s1 k where s1: "deliver t n err s = Some s0" "run code k s0 = Some s1" "m_eip s1 = ?d" "\<not> interrupts_on s1" "m_regs s1 ESP = m_regs s ESP - 64"
    "m_segs s1 = (m_segs s)(CS := 8, DS := 0x10, ES := 0x10, FS := 0x10, GS := 0x10, SS := 0x10)"
    "on_stack s1 ([code_end code (common_of im n) (fst (common_stub ?d)), m_regs s ESP - 56] @ pt_words (interrupt_regs n err s))"
    using interrupt_entry [OF l n g(1,2)] g(3) by metis
  have p: "read32 (m_mem s1) (m_regs s1 ESP + 4) = m_regs s1 ESP + 8" "frame (m_mem s1) (m_regs s1 ESP + 8) (pt_words (interrupt_regs n err s))"
    using s1(5,7) by (simp_all add: on_stack_def add.assoc)
  have "\<exists>s3 j. run code j s2 = Some s3 \<and> m_regs s3 = m_regs s \<and> m_segs s3 = m_segs s \<and> m_eip s3 = m_eip s \<and> m_eflags s3 = m_eflags s"
    if ret: "cdecl_return s1 s2" and keep: "pt_regs_at (m_mem s2) (m_regs s1 ESP + 8) = pt_regs_at (m_mem s1) (m_regs s1 ESP + 8)"
      and h: "list_all (\<lambda>g. m_segs s g = m_segs s DS) [ES, FS, GS, SS]" "iret_flags (m_eflags s) = m_eflags s" for s2
  proof -
    have "frame (m_mem s2) (m_regs s1 ESP + 8) (pt_words (interrupt_regs n err s))" using p(2) keep by (simp add: pt_regs_at_frame)
    then have st: "on_stack s2 (top32 s2 # pt_words (interrupt_regs n err s))" using ret by (simp add: on_stack_def top32_def cdecl_return_def add.assoc)
    have "m_eip s2 = code_end code (common_of im n) (fst (common_stub ?d))" using ret s1(7) by (simp add: cdecl_return_def on_stack_def top32_def)
    then have l2: "loaded code (m_eip s2) (snd (common_stub ?d))" using stub_loaded(2) [OF l n] by (simp add: loaded_append)
    have "\<not> m_halted s2" using ret by (simp add: cdecl_return_def)
    from common_stub_returns [OF l2 this st _ h] show ?thesis using ret s1(5) by (simp add: cdecl_return_def)
  qed
  then show ?thesis using s1(1-4,6) p by (intro exI [of _ s0] exI [of _ s1] exI [of _ k]) (auto simp: pt_regs_at_frame)
qed

section \<open>The context switch\<close>

definition ctx_words :: "task_context \<Rightarrow> u32 list" where
  "ctx_words c = [ctx_esp c, ctx_ebp c, ctx_ebx c, ctx_esi c, ctx_edi c, ctx_eflags c]"

text \<open>The context that a call of \<open>switch_to\<close> saves.\<close>

definition machine_ctx :: "machine \<Rightarrow> task_context" where
  "machine_ctx s = \<lparr>ctx_esp = m_regs s ESP, ctx_ebp = m_regs s EBP, ctx_ebx = m_regs s EBX, ctx_esi = m_regs s ESI,
     ctx_edi = m_regs s EDI, ctx_eflags = pushf_flags (m_eflags s)\<rparr>"

text \<open>Memory after the first half: the context, and the flags in the word below the stack.\<close>

definition saved_mem :: "u32 \<Rightarrow> machine \<Rightarrow> mem" where
  "saved_mem prev s = write32 (write32 (store_words (m_mem s) prev [m_regs s ESP, m_regs s EBP, m_regs s EBX, m_regs s ESI, m_regs s EDI])
     (m_regs s ESP - 4) (pushf_flags (m_eflags s))) (prev + 20) (pushf_flags (m_eflags s))"

lemma saved_mem_keeps:
  assumes "apart prev 24 a (4 * length ws)" and "apart (m_regs s ESP - 4) 4 a (4 * length ws)"
  shows "frame (saved_mem prev s) a ws \<longleftrightarrow> frame (m_mem s) a ws"
proof (cases "ws = []")
  case False
  from apart_part_left [OF assms(1), of 20 4] False have "apart (prev + 20) 4 a (4 * length ws)" by simp
  moreover have "apart prev (4 * length [m_regs s ESP, m_regs s EBP, m_regs s EBX, m_regs s ESI, m_regs s EDI]) a (4 * length ws)"
    using apart_part_left [OF assms(1), of 0 20] False by simp
  ultimately show ?thesis unfolding saved_mem_def by (simp only: frame_write [OF assms(2)] frame_write frame_store_words_apart)
qed simp

lemma saved_mem_saves:
  assumes "apart prev 24 (m_regs s ESP - 4) 4"
  shows "frame (saved_mem prev s) prev (ctx_words (machine_ctx s))"
proof -
  let ?ws = "[m_regs s ESP, m_regs s EBP, m_regs s EBX, m_regs s ESI, m_regs s EDI]"
  have "apart (m_regs s ESP - 4) 4 prev (4 * length ?ws)" using apart_part_left [OF assms, of 0 20] by (simp add: apart_sym)
  moreover have "apart (prev + 20) 4 prev (4 * length ?ws)" by (simp add: apart_def)
  ultimately have "frame (saved_mem prev s) prev ?ws" unfolding saved_mem_def by (simp only: frame_write) (rule frame_store_words, simp)
  moreover have "frame (saved_mem prev s) (prev + 4 * of_nat (length ?ws)) [pushf_flags (m_eflags s)]" by (simp add: saved_mem_def)
  ultimately have "frame (saved_mem prev s) prev (?ws @ [pushf_flags (m_eflags s)])" unfolding frame_append by blast
  then show ?thesis by (simp add: ctx_words_def machine_ctx_def del: frame.simps)
qed

lemma switch_saves:
  assumes st: "on_stack s [ret, prev, target]" and a: "apart prev 24 (m_regs s ESP - 4) 16"
  shows "\<exists>s1. fold exec (take 10 switch_to_code) s = s1 \<and> m_mem s1 = saved_mem prev s \<and> m_regs s1 EAX = target \<and> m_regs s1 ESP = m_regs s ESP
    \<and> m_segs s1 = m_segs s \<and> m_halted s1 = m_halted s"
proof -
  let ?s1 = "fold exec (take 9 switch_to_code) s"
  have r: "read32 (m_mem s) (m_regs s ESP + 4) = prev" using st by (simp add: on_stack_def)
  have m: "m_mem ?s1 = saved_mem prev s" "m_regs ?s1 ESP = m_regs s ESP"
    using r by (simp_all add: switch_to_code_def saved_mem_def pop32_def top32_def add.commute)
  have "apart (m_regs s ESP - 4) 4 (m_regs s ESP) 12" by (simp add: apart_def)
  moreover have "apart prev 24 (m_regs s ESP) 12" using apart_part [OF a, of 4 12] by simp
  ultimately have "frame (saved_mem prev s) (m_regs s ESP) [ret, prev, target]"
    using st saved_mem_keeps [of prev "m_regs s ESP" "[ret, prev, target]" s] by (simp add: on_stack_def)
  then have "read32 (m_mem ?s1) (m_regs ?s1 ESP + 8) = target" by (simp add: m add.assoc)
  moreover have "fold exec (take 10 switch_to_code) s = exec (LOAD EAX ESP 8) ?s1" by (simp add: switch_to_code_def)
  moreover have "m_segs ?s1 = m_segs s" "m_halted ?s1 = m_halted s" by (simp_all add: switch_to_code_def pop32_def)
  ultimately show ?thesis using m by simp
qed

lemma switch_loads:
  assumes "frame (m_mem s) (m_regs s EAX) (ctx_words c)"
  shows "\<exists>s1. fold exec (drop 10 (butlast switch_to_code)) s = s1 \<and> m_mem s1 = write32 (m_mem s) (ctx_esp c - 4) (ctx_eflags c)
    \<and> m_regs s1 ESP = ctx_esp c \<and> m_regs s1 EBP = ctx_ebp c \<and> m_regs s1 EBX = ctx_ebx c \<and> m_regs s1 ESI = ctx_esi c \<and> m_regs s1 EDI = ctx_edi c
    \<and> m_eflags s1 = popf_flags (ctx_eflags c) \<and> m_segs s1 = m_segs s \<and> m_halted s1 = m_halted s"
  using assms by (simp add: switch_to_code_def ctx_words_def top32_def add.assoc)

text \<open>Each task has a block of one page with the task structure at its start and its stack at its end. \<open>stack_at t j n\<close>: the \<open>n\<close>
  bytes at offset \<open>j\<close> are in the stack, with room for one more word below.\<close>

definition stack_at :: "nat \<Rightarrow> nat \<Rightarrow> bool" where
  "stack_at j n \<longleftrightarrow> 44 \<le> j \<and> j + n \<le> 0x1000"

lemma context_of_eq: "context_of t = t + of_nat 12"
  by (simp add: context_of_def task_layout_def)

lemma sub4: "4 \<le> i \<Longrightarrow> (a :: u32) + of_nat i - 4 = a + of_nat (i - 4)"
  by (simp add: of_nat_diff)

lemma switch_to_split:
  assumes l: "loaded code (m_eip s) switch_to_code" and h: "\<not> m_halted s"
    and s1: "fold exec (take 10 switch_to_code) s = s1" and s2: "fold exec (drop 10 (butlast switch_to_code)) s1 = s2"
  shows "run code 19 s = Some (exec RET (set_eip (code_end code (m_eip s) switch_to_code) s2))"
proof -
  have split: "butlast switch_to_code @ [RET] = switch_to_code" "length (butlast switch_to_code) + 1 = 19"
    "take 10 switch_to_code @ drop 10 (butlast switch_to_code) = butlast switch_to_code" by (simp_all add: switch_to_code_def)
  have "fold exec (take 10 switch_to_code @ drop 10 (butlast switch_to_code)) s = s2" using s1 s2 by (simp del: take_append)
  then have "fold exec (butlast switch_to_code) s = s2" unfolding split(3) .
  moreover have "\<forall>x\<in>set (butlast switch_to_code). straight x" by (simp add: switch_to_code_def)
  ultimately show ?thesis using run_block [of "butlast switch_to_code" code s RET] l h unfolding split(1,2) by simp
qed

lemma switch_to_runs:
  assumes l: "loaded code (m_eip s) switch_to_code" and h: "\<not> m_halted s"
    and st: "on_stack s [ret, context_of prev, context_of target]" and c: "frame (m_mem s) (context_of target) (ctx_words c)"
    and d: "apart prev 0x1000 target 0x1000" and i: "m_regs s ESP = prev + of_nat i" "stack_at i 12" and j: "ctx_esp c = target + of_nat j" "stack_at j 4"
  shows "\<exists>s'. run code 19 s = Some s' \<and> m_eip s' = read32 (m_mem s) (ctx_esp c) \<and> m_regs s' ESP = ctx_esp c + 4
    \<and> m_regs s' EBP = ctx_ebp c \<and> m_regs s' EBX = ctx_ebx c \<and> m_regs s' ESI = ctx_esi c \<and> m_regs s' EDI = ctx_edi c
    \<and> m_eflags s' = popf_flags (ctx_eflags c) \<and> m_segs s' = m_segs s \<and> \<not> m_halted s'
    \<and> frame (m_mem s') (context_of prev) (ctx_words (machine_ctx s))
    \<and> (\<forall>k ws. stack_at k (4 * length ws) \<and> j \<le> k \<longrightarrow> frame (m_mem s') (target + of_nat k) ws = frame (m_mem s) (target + of_nat k) ws)"
proof -
  let ?p = "context_of prev" and ?t = "context_of target"
  have sp: "m_regs s ESP - 4 = prev + of_nat (i - 4)" "ctx_esp c - 4 = target + of_nat (j - 4)"
    using i j by (simp_all add: stack_at_def sub4)
  have a: "apart ?p 24 (m_regs s ESP - 4) 16" "apart ?p 24 (m_regs s ESP - 4) 4"
    unfolding sp context_of_eq by (rule apart_inside; use i(2) in \<open>auto simp: stack_at_def\<close>)+
  have b: "apart ?p 24 ?t 24" "apart (m_regs s ESP - 4) 4 ?t 24" "apart ?p 24 (ctx_esp c - 4) 4"
    unfolding sp context_of_eq by (rule apart_parts [OF d]; use i(2) j(2) in \<open>auto simp: stack_at_def\<close>)+
  obtain s1 where s1: "fold exec (take 10 switch_to_code) s = s1" "m_mem s1 = saved_mem ?p s" "m_regs s1 EAX = ?t" "m_segs s1 = m_segs s" "m_halted s1 = m_halted s"
    using switch_saves [OF st a(1)] by blast
  have "frame (m_mem s1) (m_regs s1 EAX) (ctx_words c)"
    unfolding s1(2,3) by (subst saved_mem_keeps) (use b c in \<open>simp_all add: ctx_words_def\<close>)
  from switch_loads [OF this] obtain s2 where s2: "fold exec (drop 10 (butlast switch_to_code)) s1 = s2"
    "m_mem s2 = write32 (saved_mem ?p s) (ctx_esp c - 4) (ctx_eflags c)" "m_regs s2 ESP = ctx_esp c"
    "m_regs s2 EBP = ctx_ebp c" "m_regs s2 EBX = ctx_ebx c" "m_regs s2 ESI = ctx_esi c" "m_regs s2 EDI = ctx_edi c"
    "m_eflags s2 = popf_flags (ctx_eflags c)" "m_segs s2 = m_segs s" "m_halted s2 = m_halted s"
    unfolding s1(2,4,5) by blast
  have keeps: "frame (m_mem s2) (target + of_nat k) ws = frame (m_mem s) (target + of_nat k) ws" if "stack_at k (4 * length ws)" "j \<le> k" for k ws
  proof (cases "ws = []")
    case False
    have "apart ?p 24 (target + of_nat k) (4 * length ws)" "apart (m_regs s ESP - 4) 4 (target + of_nat k) (4 * length ws)"
      unfolding sp context_of_eq by (rule apart_parts [OF d]; use that False i(2) in \<open>auto simp: stack_at_def\<close>)+
    moreover have "apart (ctx_esp c - 4) 4 (target + of_nat k) (4 * length ws)"
      unfolding sp by (rule apart_inside) (use that False j(2) in \<open>auto simp: stack_at_def\<close>)
    ultimately show ?thesis unfolding s2(2) by (simp only: frame_write saved_mem_keeps)
  qed simp
  have "frame (m_mem s2) ?p (ctx_words (machine_ctx s))"
    unfolding s2(2) by (subst frame_write) (use b(3) saved_mem_saves [OF a(2)] in \<open>simp_all add: ctx_words_def apart_sym del: frame.simps\<close>)
  moreover have "read32 (m_mem s2) (ctx_esp c) = read32 (m_mem s) (ctx_esp c)" using keeps [of j "[read32 (m_mem s) (ctx_esp c)]"] j by simp
  ultimately show ?thesis using switch_to_split [OF l h s1(1) s2(1)] s2(3-10) h keeps by (simp add: top32_def)
qed

text \<open>What \<open>submit\<close> leaves for the switch: the context of the new task and the four words on its stack.\<close>

lemma submit_new_task:
  assumes "kthread exit_addr fn sch = Some (Inr (pid, sch'))" and "kmalloc STACK_SIZE (sched_heap sch) = Some (p, h)"
  shows "task_ctx (tasks sch' p) = zero_context\<lparr>ctx_esp := p + STACK_SIZE - 16, ctx_eflags := 0x200\<rparr>"
    and "stack_words sch' (p + STACK_SIZE - 16) = fn" and "stack_words sch' (p + STACK_SIZE - 12) = exit_addr"
    and "stack_words sch' (p + STACK_SIZE - 8) = 0" and "stack_words sch' (p + STACK_SIZE - 4) = pid"
proof -
  have pid: "task_pid (new_task p sch) = pid_cnt sch" by (simp add: new_task_def)
  have "\<exists>cur. pid = pid_cnt sch \<and> sch' = upd_task cur (\<lambda>t. t\<lparr>task_next := p\<rparr>) (sch\<lparr>sched_heap := h, tasks := (tasks sch)(p := new_task p sch),
      pid_cnt := pid_cnt sch + 1, stack_words := (stack_words sch)(p + STACK_SIZE - 4 := pid_cnt sch, p + STACK_SIZE - 8 := 0,
        p + STACK_SIZE - 12 := exit_addr, p + STACK_SIZE - 16 := fn)\<rparr>)"
    using assms by (auto simp: kthread_def submit_def Let_def rbind_eq_Inr_iff pid fun_upd_same simp del: fun_upd_apply split: if_splits bind_splits)
  then have "pid = pid_cnt sch" "task_ctx (tasks sch' p) = zero_context\<lparr>ctx_esp := p + STACK_SIZE - 16, ctx_eflags := 0x200\<rparr>"
    "stack_words sch' = (stack_words sch)(p + STACK_SIZE - 4 := pid_cnt sch, p + STACK_SIZE - 8 := 0,
       p + STACK_SIZE - 12 := exit_addr, p + STACK_SIZE - 16 := fn)"
    by (auto simp: upd_task_def new_task_def)
  then show "task_ctx (tasks sch' p) = zero_context\<lparr>ctx_esp := p + STACK_SIZE - 16, ctx_eflags := 0x200\<rparr>"
    and "stack_words sch' (p + STACK_SIZE - 16) = fn" and "stack_words sch' (p + STACK_SIZE - 12) = exit_addr"
    and "stack_words sch' (p + STACK_SIZE - 8) = 0" and "stack_words sch' (p + STACK_SIZE - 4) = pid" by simp_all
qed

text \<open>Contexts that load the same registers.\<close>

definition ctx_equiv :: "task_context \<Rightarrow> task_context \<Rightarrow> bool" where
  "ctx_equiv c c' \<longleftrightarrow> ctx_esp c = ctx_esp c' \<and> ctx_ebp c = ctx_ebp c' \<and> ctx_ebx c = ctx_ebx c' \<and> ctx_esi c = ctx_esi c' \<and> ctx_edi c = ctx_edi c'
     \<and> popf_flags (ctx_eflags c) = popf_flags (ctx_eflags c')"

text \<open>The registers are those of a context at the entry of \<open>switch_to\<close>, which has just returned.\<close>

definition resumed :: "task_context \<Rightarrow> machine \<Rightarrow> bool" where
  "resumed c s \<longleftrightarrow> m_regs s ESP = ctx_esp c + 4 \<and> m_regs s EBP = ctx_ebp c \<and> m_regs s EBX = ctx_ebx c \<and> m_regs s ESI = ctx_esi c
     \<and> m_regs s EDI = ctx_edi c \<and> m_eflags s = popf_flags (ctx_eflags c)"

lemma switch_to_fields:
  "prev \<noteq> target \<Longrightarrow> task_ctx (tasks (switch_to prev target sch) prev) = cpu sch"
  "prev \<noteq> target \<Longrightarrow> cpu (switch_to prev target sch) = task_ctx (tasks sch target)"
  by (simp_all add: switch_to_def upd_task_def Let_def)

section \<open>Loading the tables and starting\<close>

text \<open>The header sums to zero, as the boot loader requires.\<close>

lemma mboot_header_checksum: "sum_list mboot_header = 0"
  by (simp add: mboot_header_def MBOOT_CHECKSUM_def)

text \<open>\<open>start\<close> enters \<open>kern_entry\<close> with interrupts off, the boot information stored, and a stack that begins at \<open>0x3F0\<close>.\<close>

lemma start_enters_kernel:
  assumes "loaded code (m_eip s) (start_code mboot_ptr_tmp kern_entry)" and "\<not> m_halted s" and "apart mboot_ptr_tmp 4 0x3EC 4"
  shows "\<exists>s'. run code 6 s = Some s' \<and> m_eip s' = kern_entry \<and> m_regs s' ESP = 0x3EC \<and> m_regs s' EBP = 0 \<and> \<not> interrupts_on s'
    \<and> read32 (m_mem s') mboot_ptr_tmp = m_regs s EBX"
proof -
  let ?is = "[CLI, STORE_ABS mboot_ptr_tmp EBX, MOV_IMM ESP STACK_TOP, AND_IMM ESP 0xFFFFFFF0, MOV_IMM EBP 0]"
  have str: "\<forall>i\<in>set ?is. straight i" by simp
  have sp: "STACK_TOP AND 0xFFFFFFF0 = 0x3F0" by (simp add: STACK_TOP_def)
  have fl: "\<not> bit (and_flags a b (unset_bit 9 f)) 9" for a b f
    by (simp add: and_flags_def result_flags_def put_flag_def bit_unset_bit_iff bit_set_bit_iff)
  have l: "loaded code (m_eip s) (?is @ [CALL kern_entry])" using assms(1) by (simp add: start_code_def)
  have "apart 0x3EC 4 mboot_ptr_tmp 4" using assms(3) by (simp add: apart_sym)
  then have m: "read32 (write32 (write32 m mboot_ptr_tmp w) 0x3EC v) mboot_ptr_tmp = w" for m w v by (simp add: read32_apart)
  obtain a where "run code 6 s = Some (exec (CALL kern_entry) (set_eip a (fold exec ?is s)))"
    using run_block_count [OF str l assms(2), of 6] by auto
  then show ?thesis by (simp add: sp fl interrupts_on_def m)
qed

text \<open>\<open>gdt_flush\<close> loads the pointer its argument names and the kernel's segments, and returns.\<close>

lemma gdt_flush_loads:
  assumes "loaded code (m_eip s) (gdt_flush_code flush)" and "loaded code flush gdt_flush_tail" and "\<not> m_halted s" and "on_stack s [ret, ptr]"
  shows "\<exists>s'. run code 10 s = Some s' \<and> m_eip s' = ret \<and> m_gdtr s' = descriptor_reg (m_mem s) ptr \<and> m_segs s' CS = 8
    \<and> list_all (\<lambda>g. m_segs s' g = 0x10) [DS, ES, FS, GS, SS] \<and> m_regs s' ESP = m_regs s ESP + 4 \<and> m_mem s' = m_mem s \<and> m_eflags s' = m_eflags s"
proof -
  let ?is = "[LOAD EAX ESP 4, LGDT EAX, MOV_IMM16 EAX 0x10] @ load_data_segments EAX"
  have str: "\<forall>i\<in>set ?is. straight i" by (simp add: load_data_segments_def)
  have l: "loaded code (m_eip s) (?is @ [JMP_FAR 0x08 flush])" using assms(1) by (simp add: gdt_flush_code_def)
  have n: "9 = length ?is + 1" by (simp add: load_data_segments_def)
  obtain a where s1: "run code 9 s = Some (exec (JMP_FAR 0x08 flush) (set_eip a (fold exec ?is s)))" (is "_ = Some ?s1")
    using run_block_count [OF str l assms(3) n] by blast
  have "\<not> m_halted ?s1" "m_eip ?s1 = flush" using assms(3) by (simp_all add: load_data_segments_def)
  then obtain b where "run code 1 ?s1 = Some (exec RET (set_eip b ?s1))" using run_block_count [of "[]" code ?s1 RET 1] assms(2) by (auto simp: gdt_flush_tail_def)
  then have "run code (9 + 1) s = Some (exec RET (set_eip b ?s1))" unfolding run_add s1 by simp
  then show ?thesis using assms(4) by (simp add: load_data_segments_def on_stack_def top32_def)
qed

text \<open>\<open>idt_flush\<close> loads the pointer and returns with interrupts enabled.\<close>

lemma idt_flush_loads:
  assumes "loaded code (m_eip s) idt_flush_code" and "\<not> m_halted s" and "on_stack s [ret, ptr]"
  shows "\<exists>s'. run code 4 s = Some s' \<and> m_eip s' = ret \<and> m_idtr s' = descriptor_reg (m_mem s) ptr \<and> interrupts_on s'
    \<and> m_regs s' ESP = m_regs s ESP + 4 \<and> m_segs s' = m_segs s \<and> m_mem s' = m_mem s"
proof -
  let ?is = "[LOAD EAX ESP 4, LIDT EAX, STI]"
  have str: "\<forall>i\<in>set ?is. straight i" by simp
  have l: "loaded code (m_eip s) (?is @ [RET])" using assms(1) by (simp add: idt_flush_code_def)
  obtain a where "run code 4 s = Some (exec RET (set_eip a (fold exec ?is s)))" using run_block_count [OF str l assms(2), of 4] by auto
  then show ?thesis using assms(3) by (simp add: on_stack_def top32_def interrupts_on_def bit_set_bit_iff)
qed

section \<open>A linked image and a machine\<close>

text \<open>Block \<open>k\<close> stands at address \<open>32 * k\<close>, one byte for each instruction.\<close>

definition place :: "(nat \<Rightarrow> instr list) \<Rightarrow> code" where
  "place blocks a = (let k = unat a div 32; i = unat a mod 32 in
     if i < length (blocks k) then Some (blocks k ! i, a + 1) else None)"

lemma loaded_place:
  assumes "k < 2 ^ 20" and "length (blocks k) \<le> 32"
  shows "loaded (place blocks) (32 * of_nat k) (blocks k)"
proof -
  have "loaded (place blocks) (of_nat (32 * k + i)) (drop i (blocks k))" if "i \<le> length (blocks k)" for i
    using that
  proof (induction "length (blocks k) - i" arbitrary: i)
    case (Suc n)
    then have i: "i < length (blocks k)" "n = length (blocks k) - Suc i" "i < 32" using assms(2) by linarith+
    have u: "unat (of_nat (32 * k + i) :: u32) = 32 * k + i" using assms(1) i(3) by (intro unat_of_nat_u32) simp
    have "place blocks (of_nat (32 * k + i)) = Some (blocks k ! i, of_nat (32 * k + Suc i))"
      unfolding place_def u using i by (simp add: Let_def add.commute)
    then show ?case using Suc.hyps(1) [OF i(2)] i(1) by (simp flip: Cons_nth_drop_Suc del: of_nat_add of_nat_mult of_nat_Suc)
  qed simp
  from this [of 0] show ?thesis by simp
qed

definition example_isr_image :: isr_image where
  "example_isr_image = \<lparr>img_stub = (\<lambda>n. 32 * of_nat n), img_isr_common = 32 * of_nat 48, img_irq_common = 32 * of_nat 49,
     img_isr_dispatcher = 0x4000, img_irq_dispatcher = 0x5000\<rparr>"

definition example_isr_blocks :: "nat \<Rightarrow> instr list" where
  "example_isr_blocks k =
     (if k < 32 then case map_of (isr_stubs (img_isr_common example_isr_image)) k of None \<Rightarrow> [] | Some is \<Rightarrow> is
      else if k < 48 then case map_of (irq_stubs (img_irq_common example_isr_image)) (k - 32) of None \<Rightarrow> [] | Some is \<Rightarrow> is
      else if k = 48 then isr_common_stub (img_isr_dispatcher example_isr_image)
      else if k = 49 then irq_common_stub (img_irq_dispatcher example_isr_image) else [])"

lemma example_isr_linked: "stubs_linked (place example_isr_blocks) example_isr_image"
proof -
  let ?c = "img_isr_common example_isr_image" and ?q = "img_irq_common example_isr_image"
  have "loaded (place example_isr_blocks) (img_stub example_isr_image n) is" if "(n, is) \<in> set (isr_stubs ?c)" "n < 32" for n "is"
  proof -
    have "distinct (map fst (isr_stubs ?c))" unfolding stubs_declared by (simp add: isr_decls_def)
    then have "example_isr_blocks n = is" using that by (simp add: example_isr_blocks_def)
    moreover have "length is \<le> 32" using that by (auto simp: isr_stubs_def ISR_NOERRCODE_def ISR_ERRCODE_def)
    ultimately show ?thesis using loaded_place [of n example_isr_blocks] that(2) by (simp add: example_isr_image_def)
  qed
  moreover have "loaded (place example_isr_blocks) (img_stub example_isr_image (i + 32)) is" if "(i, is) \<in> set (irq_stubs ?q)" for i "is"
  proof -
    have "distinct (map fst (irq_stubs ?q))" unfolding stubs_declared by (simp add: irq_decls_def)
    moreover have "i \<in> set (map fst (irq_stubs ?q))" using that by force
    then have "i < 16" unfolding stubs_declared by (auto simp: irq_decls_def)
    ultimately have "example_isr_blocks (i + 32) = is" using that by (simp add: example_isr_blocks_def)
    moreover have "length is \<le> 32" using that by (auto simp: irq_stubs_def IRQ_stub_def)
    ultimately show ?thesis using loaded_place [of "i + 32" example_isr_blocks] \<open>i < 16\<close> by (simp add: example_isr_image_def)
  qed
  moreover have "loaded (place example_isr_blocks) ?c (isr_common_stub (img_isr_dispatcher example_isr_image))"
    "loaded (place example_isr_blocks) ?q (irq_common_stub (img_irq_dispatcher example_isr_image))"
    using loaded_place [of 48 example_isr_blocks] loaded_place [of 49 example_isr_blocks]
    by (simp_all add: example_isr_blocks_def isr_common_stub_def irq_common_stub_def common_stub_def load_data_segments_def, simp_all add: example_isr_image_def)
  ultimately show ?thesis unfolding stubs_linked_def list_all_iff by blast
qed

definition example_machine :: "u32 \<Rightarrow> u32 \<Rightarrow> task_context \<Rightarrow> u32 list \<Rightarrow> machine" where
  "example_machine prev target c ws = \<lparr>m_regs = (\<lambda>_. 0)(ESP := prev + 0xFF0), m_segs = (\<lambda>_. 0x10)(CS := 8), m_eip = 0x6000, m_eflags = 0x202,
     m_gdtr = (0, 0), m_idtr = (0, 0), m_halted = False,
     m_mem = store_words (store_words (store_words (\<lambda>_. 0) (context_of target) (ctx_words c)) (target + of_nat 0xFF0) ws)
       (prev + of_nat 0xFF0) [0x7000, context_of prev, context_of target]\<rparr>"

lemma example_machine_frames:
  assumes d: "apart prev 0x1000 target 0x1000" and ws: "length ws = 4"
  shows "on_stack (example_machine prev target c ws) [0x7000, context_of prev, context_of target]"
    and "frame (m_mem (example_machine prev target c ws)) (context_of target) (ctx_words c)"
    and "frame (m_mem (example_machine prev target c ws)) (target + of_nat 0xFF0) ws"
proof -
  show "on_stack (example_machine prev target c ws) [0x7000, context_of prev, context_of target]"
    unfolding on_stack_def example_machine_def by (simp add: frame_store_words del: frame.simps store_words.simps)
  have len: "length (ctx_words c) = 6" by (simp add: ctx_words_def)
  have "apart (prev + of_nat 0xFF0) 12 (target + of_nat 12) 24" "apart (prev + of_nat 0xFF0) 12 (target + of_nat 0xFF0) 16"
    by (rule apart_parts [OF d]; simp)+
  moreover have "apart (target + of_nat 0xFF0) 16 (target + of_nat 12) 24"
    using apart_inside [of 12 24 "0xFF0" 16 target] by (simp add: apart_sym)
  ultimately show "frame (m_mem (example_machine prev target c ws)) (context_of target) (ctx_words c)"
    and "frame (m_mem (example_machine prev target c ws)) (target + of_nat 0xFF0) ws"
    unfolding example_machine_def context_of_eq using ws len
    by (simp_all add: frame_store_words_apart frame_store_words del: frame.simps store_words.simps)
qed

section \<open>Properties\<close>

text \<open>C13. An interrupt reaches its dispatcher with the registers of the interrupted code: with the gates of \<open>init_idt\<close> and the
  stubs of \<open>isr.s\<close> in memory, each of the vectors 0 to 47 leads, in finitely many instructions, to the entry of \<open>isr_dispatcher\<close>
  (below 32) or \<open>irq_dispatcher\<close>, interrupts disabled and the kernel's segments loaded. The argument points to a \<open>pt_regs\<close> whose
  number is the vector, whose error code is the processor's where there is one and 0 otherwise, and whose \<open>edi\<close> to \<open>eax\<close>, \<open>eip\<close>, \<open>cs\<close> and
  \<open>eflags\<close> are those of the interrupted code, with two exceptions. The field \<open>esp\<close> is what \<open>pusha\<close> stores, the interrupted \<open>esp\<close>
  less the 20 bytes already on the stack; \<open>ds\<close> has the interrupted segment in its lower half and the upper half of \<open>eax\<close> above. \<open>useresp\<close>
  and \<open>ss\<close> are not those of the interrupted code but the words on top of its stack.\<close>

theorem interrupt_builds_pt_regs:
  assumes "stubs_linked code im" and "n < 48"
  shows "\<exists>s0 s1 k. deliver (fst (init_idt (img_stub im) addr t)) n err s = Some s0 \<and> run code k s0 = Some s1
    \<and> m_eip s1 = (if n < 32 then img_isr_dispatcher im else img_irq_dispatcher im)
    \<and> pt_regs_at (m_mem s1) (read32 (m_mem s1) (m_regs s1 ESP + 4)) = interrupt_regs n err s
    \<and> int_no (interrupt_regs n err s) = of_nat n \<and> \<not> interrupts_on s1
    \<and> m_segs s1 CS = 8 \<and> list_all (\<lambda>g. m_segs s1 g = 0x10) [DS, ES, FS, GS, SS]"
proof -
  obtain s0 s1 k where s1: "deliver (fst (init_idt (img_stub im) addr t)) n err s = Some s0" "run code k s0 = Some s1" "m_eip s1 = dispatcher_of im n"
    "\<not> interrupts_on s1" "m_segs s1 = (m_segs s)(CS := 8, DS := 0x10, ES := 0x10, FS := 0x10, GS := 0x10, SS := 0x10)"
    "read32 (m_mem s1) (m_regs s1 ESP + 4) = m_regs s1 ESP + 8" "pt_regs_at (m_mem s1) (m_regs s1 ESP + 8) = interrupt_regs n err s"
    using interrupt_roundtrip [OF assms(1) init_idt_installs assms(2)] by blast
  then show ?thesis by (intro exI [of _ s0] exI [of _ s1] exI [of _ k]) (simp add: dispatcher_of_def interrupt_regs_def)
qed

theorem interrupt_builds_pt_regs_witness:
  "\<exists>s0 s1 k. deliver (fst (init_idt (img_stub example_isr_image) 0xC0200000 example_idt)) 14 2 (example_machine 0x10000 0x20000 zero_context [0, 0, 0, 0]) = Some s0
    \<and> run (place example_isr_blocks) k s0 = Some s1 \<and> m_eip s1 = 0x4000
    \<and> int_no (pt_regs_at (m_mem s1) (read32 (m_mem s1) (m_regs s1 ESP + 4))) = 14 \<and> err_code (pt_regs_at (m_mem s1) (read32 (m_mem s1) (m_regs s1 ESP + 4))) = 2
    \<and> eip (pt_regs_at (m_mem s1) (read32 (m_mem s1) (m_regs s1 ESP + 4))) = 0x6000"
proof -
  let ?s = "example_machine 0x10000 0x20000 zero_context [0, 0, 0, 0]"
  have n: "(14 :: nat) < 48" by simp
  have "int_no (interrupt_regs 14 2 ?s) = 14" "err_code (interrupt_regs 14 2 ?s) = 2" "eip (interrupt_regs 14 2 ?s) = 0x6000"
    by (simp_all add: interrupt_regs_def has_error_code_def example_machine_def)
  moreover have "img_isr_dispatcher example_isr_image = 0x4000" by (simp add: example_isr_image_def)
  moreover obtain s0 s1 k where "deliver (fst (init_idt (img_stub example_isr_image) 0xC0200000 example_idt)) 14 2 ?s = Some s0"
    "run (place example_isr_blocks) k s0 = Some s1" "m_eip s1 = (if (14 :: nat) < 32 then img_isr_dispatcher example_isr_image else img_irq_dispatcher example_isr_image)"
    "pt_regs_at (m_mem s1) (read32 (m_mem s1) (m_regs s1 ESP + 4)) = interrupt_regs 14 2 ?s"
    using interrupt_builds_pt_regs [OF example_isr_linked n, of "0xC0200000" example_idt 2 ?s] by blast
  moreover have "(14 :: nat) < 32" by simp
  ultimately show ?thesis by metis
qed

text \<open>C14. Interrupts are invisible to the code they interrupt: whatever the dispatcher does, when it returns by the calling convention
  with the structure \<open>pt_regs\<close> unchanged, the stub returns to the interrupted instruction with all general registers, the stack
  pointer, the flags and the segments as they were. The data segments of the interrupted code must be equal, as only \<open>ds\<close> is saved,
  and its flags a value that the processor's flags can have.\<close>

theorem interrupt_transparent:
  assumes "stubs_linked code im" and "n < 48" and segs: "list_all (\<lambda>g. m_segs s g = m_segs s DS) [ES, FS, GS, SS]"
    and fl: "iret_flags (m_eflags s) = m_eflags s"
  shows "\<exists>s0 s1 k. deliver (fst (init_idt (img_stub im) addr t)) n err s = Some s0 \<and> run code k s0 = Some s1
    \<and> m_eip s1 = (if n < 32 then img_isr_dispatcher im else img_irq_dispatcher im)
    \<and> (\<forall>s2. cdecl_return s1 s2 \<and> pt_regs_at (m_mem s2) (m_regs s1 ESP + 8) = pt_regs_at (m_mem s1) (m_regs s1 ESP + 8) \<longrightarrow>
         (\<exists>s3 j. run code j s2 = Some s3 \<and> m_regs s3 = m_regs s \<and> m_segs s3 = m_segs s \<and> m_eip s3 = m_eip s \<and> m_eflags s3 = m_eflags s))"
proof -
  from interrupt_roundtrip [OF assms(1) init_idt_installs [of "img_stub im" addr t] assms(2), of err s] segs fl show ?thesis
    unfolding dispatcher_of_def by (elim exE conjE) (intro exI conjI, assumption+, blast)
qed

theorem interrupt_transparent_witness:
  "let s = example_machine 0x10000 0x20000 zero_context [0, 0, 0, 0] in
   \<exists>s0 s1 s2 s3 k j. deliver (fst (init_idt (img_stub example_isr_image) 0xC0200000 example_idt)) 33 0 s = Some s0
    \<and> run (place example_isr_blocks) k s0 = Some s1 \<and> cdecl_return s1 s2 \<and> run (place example_isr_blocks) j s2 = Some s3
    \<and> m_regs s3 = m_regs s \<and> m_eip s3 = m_eip s \<and> m_eflags s3 = m_eflags s"
proof -
  let ?s = "example_machine 0x10000 0x20000 zero_context [0, 0, 0, 0]"
  have h: "(33 :: nat) < 48" "list_all (\<lambda>g. m_segs ?s g = m_segs ?s DS) [ES, FS, GS, SS]" "iret_flags (m_eflags ?s) = m_eflags ?s"
    by (simp_all add: example_machine_def iret_flags_def)
  obtain s0 s1 k where s1: "deliver (fst (init_idt (img_stub example_isr_image) 0xC0200000 example_idt)) 33 0 ?s = Some s0"
    "run (place example_isr_blocks) k s0 = Some s1"
    "\<forall>s2. cdecl_return s1 s2 \<and> pt_regs_at (m_mem s2) (m_regs s1 ESP + 8) = pt_regs_at (m_mem s1) (m_regs s1 ESP + 8) \<longrightarrow>
       (\<exists>s3 j. run (place example_isr_blocks) j s2 = Some s3 \<and> m_regs s3 = m_regs ?s \<and> m_segs s3 = m_segs ?s \<and> m_eip s3 = m_eip ?s \<and> m_eflags s3 = m_eflags ?s)"
    using interrupt_transparent [OF example_isr_linked h, of "0xC0200000" example_idt 0] by blast
  define s2 where "s2 = (exec RET s1)\<lparr>m_halted := False\<rparr>"
  have "cdecl_return s1 s2" "m_mem s2 = m_mem s1" by (simp_all add: s2_def cdecl_return_def)
  then show ?thesis using s1 unfolding Let_def by metis
qed

text \<open>C15. The context switch of \<open>switch_to.s\<close> refines \<open>switch_to\<close> of the scheduler's model: called with the contexts of two tasks whose
  blocks do not overlap, with the stack pointer inside the stack of the first task and the saved one inside the stack of the second, the
  19 instructions store in the first context the registers that the model stores, and return with the registers that the model loads, on
  the second task's stack, at the address on top of that stack. Nothing of the second task's stack above its saved pointer changes.\<close>

theorem switch_to_refines:
  assumes "loaded code (m_eip s) switch_to_code" and "\<not> m_halted s" and "on_stack s [ret, context_of prev, context_of target]"
    and "frame (m_mem s) (context_of target) (ctx_words c)" and ct: "ctx_equiv c (task_ctx (tasks sch target))" and cp: "ctx_equiv (machine_ctx s) (cpu sch)"
    and d: "apart prev 0x1000 target 0x1000" and "m_regs s ESP = prev + of_nat i" and "stack_at i 12"
    and j: "ctx_esp c = target + of_nat j" "stack_at j 4"
  shows "\<exists>s' c'. run code 19 s = Some s'
    \<and> frame (m_mem s') (context_of prev) (ctx_words c') \<and> ctx_equiv c' (task_ctx (tasks (switch_to prev target sch) prev))
    \<and> resumed (cpu (switch_to prev target sch)) s' \<and> m_eip s' = read32 (m_mem s) (ctx_esp (cpu (switch_to prev target sch)))
    \<and> (\<forall>k ws. stack_at k (4 * length ws) \<and> j \<le> k \<longrightarrow> frame (m_mem s') (target + of_nat k) ws = frame (m_mem s) (target + of_nat k) ws)"
proof -
  have "prev \<noteq> target" using d by (auto simp: apart_def)
  with ct cp switch_to_runs [OF assms(1-4) d assms(8,9) j] show ?thesis
    by (fastforce simp: switch_to_fields ctx_equiv_def resumed_def)
qed

lemma switch_to_loaded: "loaded (place (\<lambda>_. switch_to_code)) 0x6000 switch_to_code"
  using loaded_place [of "0x300" "\<lambda>_. switch_to_code"] by (simp add: switch_to_code_def)

theorem switch_to_refines_witness:
  "let s = example_machine 0x10000 0x20000 (zero_context\<lparr>ctx_esp := 0x20FF0, ctx_eflags := 0x200\<rparr>) [0x8000, 0, 0, 0];
       sch = boot_scheduler\<lparr>cpu := machine_ctx s, tasks := (\<lambda>_. zero_task\<lparr>task_ctx := zero_context\<lparr>ctx_esp := 0x20FF0, ctx_eflags := 0x200\<rparr>\<rparr>)\<rparr>
   in \<exists>s'. run (place (\<lambda>_. switch_to_code)) 19 s = Some s' \<and> resumed (cpu (switch_to 0x10000 0x20000 sch)) s' \<and> m_eip s' = 0x8000"
proof -
  let ?c = "zero_context\<lparr>ctx_esp := 0x20FF0, ctx_eflags := 0x200\<rparr>"
  let ?s = "example_machine 0x10000 0x20000 ?c [0x8000, 0, 0, 0]"
  let ?sch = "boot_scheduler\<lparr>cpu := machine_ctx ?s, tasks := (\<lambda>_. zero_task\<lparr>task_ctx := ?c\<rparr>)\<rparr>"
  have d: "apart 0x10000 0x1000 0x20000 0x1000" by (simp add: apart_def)
  note fr = example_machine_frames [OF d, of "[0x8000, 0, 0, 0]" ?c, simplified]
  have h: "loaded (place (\<lambda>_. switch_to_code)) (m_eip ?s) switch_to_code" "\<not> m_halted ?s" "m_regs ?s ESP = 0x10000 + of_nat 0xFF0" "stack_at 0xFF0 12"
    "ctx_esp ?c = 0x20000 + of_nat 0xFF0" "stack_at 0xFF0 4" "ctx_equiv ?c (task_ctx (tasks ?sch 0x20000))" "ctx_equiv (machine_ctx ?s) (cpu ?sch)"
    using switch_to_loaded by (simp_all add: example_machine_def stack_at_def ctx_equiv_def)
  have "read32 (m_mem ?s) 0x20FF0 = 0x8000" using example_machine_frames(3) [OF d, of "[0x8000, 0, 0, 0]" ?c] by simp
  moreover have "ctx_esp (cpu (switch_to 0x10000 0x20000 ?sch)) = 0x20FF0" by (simp add: switch_to_fields)
  ultimately show ?thesis
    using switch_to_refines [OF h(1,2) example_machine_frames(1,2) [OF d] h(7,8) d h(3,4,5,6)] unfolding Let_def by fastforce
qed

text \<open>C16. For the task that calls it, \<open>switch_to\<close> is a function that returns: after a switch from \<open>prev\<close> to \<open>target\<close>, a later
  switch from \<open>target\<close> back to \<open>prev\<close>, with the saved context and the stack of \<open>prev\<close> as they were left, ends at the return address of
  the first call as the calling convention demands, with the interrupt flag of the caller. This is the return that the dispatcher of a
  timer interrupt and so the interrupted code see.\<close>

theorem switch_to_returns:
  assumes s: "loaded code (m_eip s) switch_to_code" "\<not> m_halted s" "on_stack s [ret, context_of prev, context_of target]"
      "frame (m_mem s) (context_of target) (ctx_words c)"
    and d: "apart prev 0x1000 target 0x1000" and i: "m_regs s ESP = prev + of_nat i" "stack_at i 12" and j: "ctx_esp c = target + of_nat j" "stack_at j 4"
  shows "\<exists>s'. run code 19 s = Some s' \<and> frame (m_mem s') (context_of prev) (ctx_words (machine_ctx s))
    \<and> (\<forall>u k. loaded code (m_eip u) switch_to_code \<and> \<not> m_halted u \<and> m_segs u = m_segs s \<and> on_stack u [ret', context_of target, context_of prev]
         \<and> frame (m_mem u) (context_of prev) (ctx_words (machine_ctx s)) \<and> frame (m_mem u) (m_regs s ESP) [ret]
         \<and> m_regs u ESP = target + of_nat k \<and> stack_at k 12
       \<longrightarrow> (\<exists>u'. run code 19 u = Some u' \<and> cdecl_return s u' \<and> interrupts_on u' = interrupts_on s))"
proof -
  have fl: "bit (popf_flags (pushf_flags f)) 9 = bit f 9" for f
    by (simp add: popf_flags_def pushf_flags_def bit_or_iff bit_and_iff)
  have "\<exists>u'. run code 19 u = Some u' \<and> cdecl_return s u' \<and> interrupts_on u' = interrupts_on s"
    if u: "loaded code (m_eip u) switch_to_code" "\<not> m_halted u" "m_segs u = m_segs s" "on_stack u [ret', context_of target, context_of prev]"
      "frame (m_mem u) (context_of prev) (ctx_words (machine_ctx s))" "frame (m_mem u) (m_regs s ESP) [ret]"
      "m_regs u ESP = target + of_nat k" "stack_at k 12" for u k
  proof -
    have c: "ctx_esp (machine_ctx s) = prev + of_nat i" "stack_at i 4" using i by (simp_all add: machine_ctx_def stack_at_def)
    have "apart target 0x1000 prev 0x1000" using d by (simp add: apart_sym)
    from switch_to_runs [OF u(1,2,4,5) this u(7,8) c] show ?thesis
      using u(3,6) s(3) by (auto simp: machine_ctx_def cdecl_return_def on_stack_def top32_def interrupts_on_def fl)
  qed
  then show ?thesis using switch_to_runs [OF s d i j] by blast
qed

theorem switch_to_returns_witness:
  "let s = example_machine 0x10000 0x20000 (zero_context\<lparr>ctx_esp := 0x20FF0\<rparr>) [0x8000, 0, 0, 0];
       u = example_machine 0x20000 0x10000 (machine_ctx s) [0x7000, 0, 0, 0]
   in \<exists>s' u'. run (place (\<lambda>_. switch_to_code)) 19 s = Some s' \<and> run (place (\<lambda>_. switch_to_code)) 19 u = Some u' \<and> cdecl_return s u'"
proof -
  let ?c = "zero_context\<lparr>ctx_esp := 0x20FF0\<rparr>"
  let ?s = "example_machine 0x10000 0x20000 ?c [0x8000, 0, 0, 0]"
  let ?u = "example_machine 0x20000 0x10000 (machine_ctx ?s) [0x7000, 0, 0, 0]"
  have d: "apart 0x10000 0x1000 0x20000 0x1000" "apart 0x20000 0x1000 0x10000 0x1000" by (simp_all add: apart_def)
  have l: "length [0x8000, 0, 0, 0 :: u32] = 4" "length [0x7000, 0, 0, 0 :: u32] = 4" by simp_all
  have h: "loaded (place (\<lambda>_. switch_to_code)) (m_eip ?s) switch_to_code" "\<not> m_halted ?s" "m_regs ?s ESP = 0x10000 + of_nat 0xFF0" "stack_at 0xFF0 12"
    "ctx_esp ?c = 0x20000 + of_nat 0xFF0" "stack_at 0xFF0 4"
    using switch_to_loaded by (simp_all add: example_machine_def stack_at_def)
  have k: "loaded (place (\<lambda>_. switch_to_code)) (m_eip ?u) switch_to_code" "\<not> m_halted ?u" "m_segs ?u = m_segs ?s" "m_regs ?u ESP = 0x20000 + of_nat 0xFF0"
    using switch_to_loaded by (simp_all add: example_machine_def)
  have "frame (m_mem ?u) (m_regs ?s ESP) [0x7000]" using example_machine_frames(3) [OF d(2) l(2), of "machine_ctx ?s"] unfolding h(3) by simp
  then show ?thesis using k h(4) example_machine_frames(1,2) [OF d(2) l(2), of "machine_ctx ?s"]
      switch_to_returns [OF h(1,2) example_machine_frames(1,2) [OF d(1) l(1)] d(1) h(3-6), of "0x7000"] unfolding Let_def by blast
qed

text \<open>C17. The life of a kernel thread, from its creation to its end: the first switch to a task that \<open>submit\<close> has created starts its
  function with interrupts enabled, on the new stack. When the function returns, the processor enters \<open>kthread_exit\<close> with the number of
  the task as its argument. The return address below that argument is 0: a \<open>kthread_exit\<close> that returns continues at address 0, although
  the thread has ended and its stack is freed.\<close>

theorem thread_starts_and_ends:
  assumes "kthread exit_addr fn sch = Some (Inr (pid, sch'))" and "kmalloc STACK_SIZE (sched_heap sch) = Some (p, h)"
    and "loaded code (m_eip s) switch_to_code" and "\<not> m_halted s" and "on_stack s [ret, context_of prev, context_of p]"
    and "frame (m_mem s) (context_of p) (ctx_words (task_ctx (tasks sch' p)))"
    and "frame (m_mem s) (p + STACK_SIZE - 16) (map (\<lambda>a. stack_words sch' (p + STACK_SIZE - a)) [16, 12, 8, 4])"
    and "apart prev 0x1000 p 0x1000" and "m_regs s ESP = prev + of_nat i" and "stack_at i 12"
  shows "\<exists>s'. run code 19 s = Some s' \<and> m_eip s' = fn \<and> interrupts_on s' \<and> m_regs s' ESP = p + STACK_SIZE - 12 \<and> on_stack s' [exit_addr, 0, pid]
    \<and> (\<forall>s2. on_stack s2 [exit_addr, 0, pid] \<longrightarrow>
         m_eip (exec RET s2) = exit_addr \<and> on_stack (exec RET s2) [0, pid] \<and> (\<forall>s3. cdecl_return (exec RET s2) s3 \<longrightarrow> m_eip s3 = 0))"
proof -
  note sub = submit_new_task [OF assms(1,2)]
  have e: "p + STACK_SIZE - 16 = p + of_nat 0xFF0" "p + STACK_SIZE - 12 = p + of_nat 0xFF4" by (simp_all add: STACK_SIZE_def)
  have w: "frame (m_mem s) (p + of_nat 0xFF0) [fn, exit_addr, 0, pid]" using assms(7) unfolding e by (simp add: sub)
  have st: "stack_at 0xFF0 4" "stack_at 0xFF4 (4 * length [exit_addr, 0, pid])" by (simp_all add: stack_at_def)
  have c: "ctx_esp (task_ctx (tasks sch' p)) = p + of_nat 0xFF0" "ctx_eflags (task_ctx (tasks sch' p)) = 0x200" using sub(1) by (simp_all add: e)
  obtain s' where s': "run code 19 s = Some s'" "m_eip s' = read32 (m_mem s) (p + of_nat 0xFF0)" "m_regs s' ESP = p + of_nat 0xFF0 + 4" "m_eflags s' = popf_flags 0x200"
    and k: "\<forall>k ws. stack_at k (4 * length ws) \<and> 0xFF0 \<le> k \<longrightarrow> frame (m_mem s') (p + of_nat k) ws = frame (m_mem s) (p + of_nat k) ws"
    using switch_to_runs [OF assms(3-6,8-10) c(1) st(1)] unfolding c by blast
  have w': "frame (m_mem s') (p + of_nat 0xFF4) [exit_addr, 0, pid]" using k [rule_format, of "0xFF4" "[exit_addr, 0, pid]"] st(2) w by (simp add: add.commute)
  have "interrupts_on s'" by (simp add: interrupts_on_def s'(4) popf_flags_def)
  moreover have "on_stack s' [exit_addr, 0, pid]" using w' s'(3) by (simp add: on_stack_def add.commute)
  moreover have "m_eip s' = fn" "m_regs s' ESP = p + of_nat 0xFF4" using w s'(2,3) by (simp_all add: add.commute)
  ultimately show ?thesis using s'(1) unfolding e by (auto simp: on_stack_def top32_def cdecl_return_def)
qed

theorem thread_starts_and_ends_witness:
  "\<exists>p sch' s s'. kthread 0xC0102000 0xC0103000 boot_scheduler = Some (Inr (1, sch')) \<and> run (place (\<lambda>_. switch_to_code)) 19 s = Some s'
    \<and> m_eip s' = 0xC0103000 \<and> interrupts_on s' \<and> on_stack s' [0xC0102000, 0, 1]
    \<and> m_eip (exec RET s') = 0xC0102000 \<and> m_eip (exec RET (exec RET s')) = 0"
proof -
  have pid: "pid_cnt boot_scheduler = 1" "sched_heap boot_scheduler = init_heap (\<lambda>_. 0)"
    by (simp_all add: boot_scheduler_def init_kthread_def TaskScheduler_def upd_task_def Let_def)
  have g: "il_grants STACK_SIZE (sched_heap boot_scheduler)" by (simp add: pid STACK_SIZE_def init_heap_facts il_grants_def fits_def align2_def)
  obtain sch' where k: "kthread 0xC0102000 0xC0103000 boot_scheduler = Some (Inr (1, sch'))"
    using kthread_appends [OF boot_scheduler_list g, of "0xC0102000" "0xC0103000"] by (auto simp: pid)
  obtain p len h where p: "kmalloc STACK_SIZE (sched_heap boot_scheduler) = Some (p, h)" "0xD0000000 \<le> unat p" "unat p \<le> 0xD1000000"
    using kmalloc_fresh [OF _ g] by (auto simp: pid init_heap_facts) (auto simp: init_heap_def ImplicitListAllocator_def kHeapStart_def kHeapEnd_def)
  let ?c = "task_ctx (tasks sch' p)"
  let ?s = "example_machine 0xC0104000 p ?c (map (\<lambda>a. stack_words sch' (p + STACK_SIZE - a)) [16, 12, 8, 4])"
  have "apart 0xC0104000 0x1000 p 0x1000" using p(2,3) by (auto simp: apart_def unat_sub_if')
  note d = this and fr = example_machine_frames [OF this, of "map (\<lambda>a. stack_words sch' (p + STACK_SIZE - a)) [16, 12, 8, 4]" ?c, OF length_map [THEN trans]]
  have e: "p + STACK_SIZE - 16 = p + of_nat 0xFF0" by (simp add: STACK_SIZE_def)
  have h: "loaded (place (\<lambda>_. switch_to_code)) (m_eip ?s) switch_to_code" "\<not> m_halted ?s" "m_regs ?s ESP = 0xC0104000 + of_nat 0xFF0" "stack_at 0xFF0 12"
    using switch_to_loaded by (simp_all add: example_machine_def stack_at_def)
  obtain s' where "run (place (\<lambda>_. switch_to_code)) 19 ?s = Some s'" "m_eip s' = 0xC0103000" "interrupts_on s'" "on_stack s' [0xC0102000, 0, 1]"
    "m_eip (exec RET s') = 0xC0102000" "on_stack (exec RET s') [0, 1]"
    using thread_starts_and_ends [OF k p(1) h(1,2) fr(1,2) _ d h(3,4)] fr(3) unfolding e by auto
  moreover from this have "m_eip (exec RET (exec RET s')) = 0" by (simp add: on_stack_def top32_def)
  ultimately show ?thesis using k by blast
qed

end
