(* ===== verification/Sprite_Trap.thy ===== *)
theory Sprite_Trap
  imports Sprite_Kernel Sprite_Asm
begin

text \<open>
  The kernel and the processor together: an exception of the machine goes through the gates that the kernel has installed
  and the stubs of \<open>isr.s\<close> to the dispatcher of the composed kernel, whose argument is read from the machine's memory, and
  back to the interrupted instruction.
\<close>

section \<open>A running kernel\<close>

text \<open>The kernel image of the example with the stubs of the linked assembly, and a kernel with two free pages.\<close>

definition trap_image :: kernel_image where
  "trap_image = example_kernel_image\<lparr>im_stub := img_stub example_isr_image\<rparr>"

definition trap_kernel :: "kernel \<Rightarrow> kernel" where
  "trap_kernel k = k\<lparr>k_dict := empty_dictionary, k_pmm := small_pmm,
     k_idt := (k_idt k)\<lparr>idt_entries := idt_entries (fst (init_idt (im_stub trap_image) 0 example_idt))\<rparr>\<rparr>"

lemma trap_kernel_invar:
  assumes "kernel_invar example_kernel_image k"
  shows "kernel_invar trap_image (trap_kernel k)"
proof -
  have "gates_installed (im_stub trap_image) (k_idt (trap_kernel k))"
    using init_idt_installs [of "im_stub trap_image" 0 example_idt] by (simp add: gates_installed_def trap_kernel_def del: upt_rec_numeral)
  then show ?thesis using small_kernel_invar [OF assms] by (simp add: kernel_invar_def trap_kernel_def trap_image_def the_sched_def)
qed

section \<open>Properties\<close>

text \<open>C11. A page fault is served and the access retried: on a running kernel, a fault on an address that is not mapped reaches
  \<open>isr_dispatcher\<close> through the gate and the stub; called with the \<open>pt_regs\<close> that the stub has put on the stack, it takes the
  top free page, maps exactly the faulting page to it, changes no other translation and keeps the kernel's invariant; and when it
  returns, the processor is at the faulting instruction again with all registers, segments and flags as they were.\<close>

theorem page_fault_restarts:
  assumes inv: "kernel_invar im k" and l: "stubs_linked code img" and stub: "img_stub img = im_stub im"
    and e: "err AND PAGE_PRESENT = 0" and m: "\<not> pd_mapped (im_dict im) (k_dict k) (hw_cr2 hw)" "pd_has_room (k_dict k) (dict_index (hw_cr2 hw))"
      "2 \<le> length (pmm_pages (k_pmm k))"
    and segs: "list_all (\<lambda>g. m_segs s g = m_segs s DS) [ES, FS, GS, SS]" and fl: "iret_flags (m_eflags s) = m_eflags s"
  shows "\<exists>s0 s1 n p k'. deliver (k_idt k) 14 err s = Some s0 \<and> run code n s0 = Some s1 \<and> m_eip s1 = img_isr_dispatcher img
    \<and> isr_dispatcher im hw (pt_regs_at (m_mem s1) (read32 (m_mem s1) (m_regs s1 ESP + 4))) k = Some (Inr k')
    \<and> kernel_invar im k' \<and> pmm_pages (k_pmm k) = p # pmm_pages (k_pmm k') \<and> pd_mapped (im_dict im) (k_dict k') (hw_cr2 hw)
    \<and> (\<forall>v. frame_of (im_dict im) (k_dict k') v = (if page_of v = page_of (hw_cr2 hw) then p else frame_of (im_dict im) (k_dict k) v))
    \<and> (\<forall>s2. cdecl_return s1 s2 \<and> pt_regs_at (m_mem s2) (m_regs s1 ESP + 8) = pt_regs_at (m_mem s1) (m_regs s1 ESP + 8) \<longrightarrow>
         (\<exists>s3 j. run code j s2 = Some s3 \<and> m_regs s3 = m_regs s \<and> m_segs s3 = m_segs s \<and> m_eip s3 = m_eip s \<and> m_eflags s3 = m_eflags s))"
proof -
  have g: "gates_installed (img_stub img) (k_idt k)" using inv stub by (simp add: kernel_invar_def)
  have n: "(14 :: nat) < 48" "dispatcher_of img 14 = img_isr_dispatcher img" by (simp_all add: dispatcher_of_def)
  let ?r = "interrupt_regs 14 err s"
  have r: "int_no ?r = 14" "err_code ?r AND PAGE_PRESENT = 0" using e by (simp_all add: interrupt_regs_def has_error_code_def)
  from page_fault_served [OF inv r m] obtain p k' where "isr_dispatcher im hw ?r k = Some (Inr k')" "kernel_invar im k'"
    "pmm_pages (k_pmm k) = p # pmm_pages (k_pmm k')" "pd_mapped (im_dict im) (k_dict k') (hw_cr2 hw)"
    "\<forall>v. frame_of (im_dict im) (k_dict k') v = (if page_of v = page_of (hw_cr2 hw) then p else frame_of (im_dict im) (k_dict k) v)" by blast
  moreover from interrupt_roundtrip [OF l g n(1)] obtain s0 s1 j where "deliver (k_idt k) 14 err s = Some s0" "run code j s0 = Some s1"
    "m_eip s1 = img_isr_dispatcher img" "pt_regs_at (m_mem s1) (read32 (m_mem s1) (m_regs s1 ESP + 4)) = ?r"
    "\<forall>s2. cdecl_return s1 s2 \<and> pt_regs_at (m_mem s2) (m_regs s1 ESP + 8) = pt_regs_at (m_mem s1) (m_regs s1 ESP + 8) \<longrightarrow>
         (\<exists>s3 j. run code j s2 = Some s3 \<and> m_regs s3 = m_regs s \<and> m_segs s3 = m_segs s \<and> m_eip s3 = m_eip s \<and> m_eflags s3 = m_eflags s)"
    using segs fl unfolding n(2) by metis
  ultimately show ?thesis by metis
qed

theorem page_fault_restarts_witness:
  "let s = example_machine 0x10000 0x20000 zero_context [0, 0, 0, 0]; hw = \<lparr>hw_cr2 = 0x10002004, hw_key = 0\<rparr> in
   \<exists>k k' s0 s1 s2 s3 n j. deliver (k_idt k) 14 2 s = Some s0 \<and> run (place example_isr_blocks) n s0 = Some s1
    \<and> isr_dispatcher trap_image hw (pt_regs_at (m_mem s1) (read32 (m_mem s1) (m_regs s1 ESP + 4))) k = Some (Inr k')
    \<and> pd_mapped (im_dict trap_image) (k_dict k') 0x10002004 \<and> cdecl_return s1 s2
    \<and> run (place example_isr_blocks) j s2 = Some s3 \<and> m_regs s3 = m_regs s \<and> m_eip s3 = m_eip s"
proof -
  let ?s = "example_machine 0x10000 0x20000 zero_context [0, 0, 0, 0]" and ?hw = "\<lparr>hw_cr2 = 0x10002004, hw_key = 0\<rparr>"
  obtain k0 where k0: "kernel_invar example_kernel_image k0" using boot_kernel_init by blast
  let ?k = "trap_kernel k0"
  have h: "img_stub example_isr_image = im_stub trap_image" "2 AND PAGE_PRESENT = 0" "\<not> pd_mapped (im_dict trap_image) (k_dict ?k) (hw_cr2 ?hw)"
    "pd_has_room (k_dict ?k) (dict_index (hw_cr2 ?hw))" "2 \<le> length (pmm_pages (k_pmm ?k))"
    "list_all (\<lambda>g. m_segs ?s g = m_segs ?s DS) [ES, FS, GS, SS]" "iret_flags (m_eflags ?s) = m_eflags ?s"
    by (simp_all add: trap_image_def trap_kernel_def PAGE_PRESENT_def pd_has_room_empty small_pmm_facts example_machine_def iret_flags_def)
      (simp add: pd_mapped_def empty_dictionary_def)
  obtain s0 s1 n k' where s1: "deliver (k_idt ?k) 14 2 ?s = Some s0" "run (place example_isr_blocks) n s0 = Some s1"
    "isr_dispatcher trap_image ?hw (pt_regs_at (m_mem s1) (read32 (m_mem s1) (m_regs s1 ESP + 4))) ?k = Some (Inr k')"
    "pd_mapped (im_dict trap_image) (k_dict k') (hw_cr2 ?hw)"
    "\<forall>s2. cdecl_return s1 s2 \<and> pt_regs_at (m_mem s2) (m_regs s1 ESP + 8) = pt_regs_at (m_mem s1) (m_regs s1 ESP + 8) \<longrightarrow>
       (\<exists>s3 j. run (place example_isr_blocks) j s2 = Some s3 \<and> m_regs s3 = m_regs ?s \<and> m_segs s3 = m_segs ?s \<and> m_eip s3 = m_eip ?s \<and> m_eflags s3 = m_eflags ?s)"
    using page_fault_restarts [OF trap_kernel_invar [OF k0] example_isr_linked h] by blast
  define s2 where "s2 = (exec RET s1)\<lparr>m_halted := False\<rparr>"
  have "cdecl_return s1 s2" "m_mem s2 = m_mem s1" by (simp_all add: s2_def cdecl_return_def)
  moreover from this obtain s3 j where "run (place example_isr_blocks) j s2 = Some s3" "m_regs s3 = m_regs ?s" "m_eip s3 = m_eip ?s"
    using s1(5) by metis
  ultimately show ?thesis using s1(1-4) unfolding Let_def by (metis hw_input.select_convs(1))
qed

end
