(* ===== verification/Spec2Isabelle.thy ===== *)
theory Spec2Isabelle
  imports Sprite_Fs_List Sprite_Fs_Sync Sprite_Evict Sprite_Mount Sprite_Selftest Sprite_Trap
begin

text \<open>
  Sprite is a small kernel for 32-bit x86 in C++ (\<open>src/src\<close>). \<open>boot.s\<close> calls \<open>kern_entry\<close> (\<open>init/entry.cc\<close>), which
  turns paging on and calls \<open>kern_init\<close>; that sets up the descriptor tables, the page manager, virtual memory,
  the heap, the threads, the timer, the disk and the file system, and then waits for interrupts. The components
  meet in four places: the handler table of \<open>lib/idt.cc\<close>, through which the page fault handler, the timer and the
  keyboard are called; the heap, which threads and the block cache allocate from; the console, to which all
  output goes; and the block cache, which the file system fills and the cache empties through a callback.

  \<^bold>\<open>Conventions.\<close> Integers keep their width (\<open>8 word\<close>, \<open>16 word\<close>, \<open>32 word\<close>), so arithmetic wraps as in the code.
  Memory is one function from addresses to bytes; structures that the code overlays on memory are layouts (field
  names with sizes), read at the offset of the field. A state is a record, an operation a function on it. Code that
  can stop returns a \<^typ>\<open>'a result\<close>: a failed \<open>assert\<close>, an access outside an array, a null pointer, a division by
  zero. A loop that may run for ever is a partial function into \<open>option\<close>, where not returning is \<open>None\<close>; statements that
  it returns are proved as such. The only fuel is the depth of nested directories that \<open>list_entries\<close> visits; the height
  of the tree of directories is enough. Code outside of the repository is a parameter: \<open>dev\<close> is the disk controller, which answers a
  history of port accesses, with the documented behaviour as the hypothesis \<^const>\<open>ata_working\<close>: for histories that follow the
  protocol (\<^const>\<open>ata_idle\<close>, \<^const>\<open>under_way\<close>: registers and data only while the drive is not busy, a sector only after a poll
  that shows it ready, LBA addresses on device 0) the drive stops being busy after finitely many polls, delivers the
  words of the addressed sectors and stores those it is sent. It says nothing of other histories. The simulated drive
  \<^const>\<open>ata_sim\<close>, which is busy for a while after each command and each sector and answers only to device 0 in LBA mode, satisfies
  it; \<^const>\<open>ata_reads\<close> also describes drives with bad sectors. Addresses that the linker chooses are fields of an image record; registers and scan codes that
  inline assembly reads are arguments; destructors are a parameter of the C++ support.

  \<^bold>\<open>Theories.\<close>

  \<^item> \<open>Sprite_Prelude\<close>, \<open>Sprite_Memory\<close>: integers, results, arrays with bounds; byte memory, 32-bit accesses, layouts.

  \<^item> \<open>Sprite_String\<close> (\<open>lib/string.cc\<close>): all routines. A string comparison that is zero says that the first string is
  a prefix of the second.

  \<^item> \<open>Sprite_Console\<close> (\<open>lib/console.cc\<close>), \<open>Sprite_Printk\<close> (\<open>include/printk.h\<close>): video memory, cursor and scrolling, and
  formatted output. The cursor stays on the screen; \<open>printk\<close> refines the function \<^const>\<open>printk_text\<close> that gives the text of
  a format; numbers read back as themselves. The locale \<open>char_device\<close> is what output relies on.

  \<^item> \<open>Sprite_Heap\<close> (\<open>include/ILAllocator.hpp\<close>, \<open>lib/kmalloc.cc\<close>, \<open>lib/new.cc\<close>): the implicit list allocator on byte memory.
  Blocks tile the heap; an allocation that leaves room for a header is fresh and keeps all others, freeing removes
  one payload, both end. The case of an exact fit breaks this and is stated as it is. The locale \<open>memory_manager\<close> is
  the contract.

  \<^item> \<open>Sprite_Pmm\<close> (\<open>lib/pmm.cc\<close>): the stack of free pages; pages are never handed out twice, the memory map becomes
  the stack, the guard against an empty stack is off by one. Locales \<open>page_source\<close> and \<open>page_pool\<close>.

  \<^item> \<open>Sprite_Vmm\<close> (\<open>include/vmm.h\<close>, \<open>lib/vmm.cc\<close>): page tables and dictionary as the words that the processor reads; an
  insertion translates its page and no other, the fault handler maps on demand, the kernel's 4 MB are mapped.
  Locale \<open>address_space\<close>.

  \<^item> \<open>Sprite_Descriptors\<close> (\<open>lib/gdt.cc\<close>, \<open>lib/idt.cc\<close>), \<open>Sprite_Timer\<close>, \<open>Sprite_Keyboard\<close>: descriptor tables field by field,
  the interrupt controllers, the divisor of the timer, the translation of scan codes.

  \<^item> \<open>Sprite_Scheduler\<close> (\<open>include/scheduler.h\<close>, \<open>lib/kthread.cc\<close>, \<open>lib/switch_to.s\<close>): the circular list of tasks over the
  heap; creation appends, ticks go round robin, exit removes a task in the middle and fails on the last one.

  \<^item> \<open>Sprite_Cpu\<close>, \<open>Sprite_Asm\<close> (\<open>boot.s\<close>, \<open>lib/isr.s\<close>, \<open>lib/gdt_s.s\<close>, \<open>lib/idt_flush.s\<close>, \<open>lib/switch_to.s\<close>, the flag instructions of
  \<open>lib/common.cc\<close>): the processor as far as the assembly uses it, and the assembly instruction by instruction. An
  interrupt of each vector that \<open>init_idt\<close> installs reaches its dispatcher with the interrupted registers in a \<open>pt_regs\<close>, and a
  dispatcher that returns by the calling convention (\<^const>\<open>cdecl_return\<close>) returns to the interrupted code with nothing changed.
  The context switch refines \<^const>\<open>switch_to\<close> of the scheduler and is a returning function for the task that calls it; a new
  thread starts at its function and ends in \<open>kthread_exit\<close>, whose return address is 0.

  \<^item> \<open>Sprite_Bitmap\<close> (\<open>include/bitmap.hpp\<close>), \<open>Sprite_Support\<close> (\<open>init/cxxabi.cc\<close>, \<open>include/atomic.h\<close>, \<open>include/common.h\<close>,
  \<open>include/pair.hpp\<close>, \<open>test/test.cc\<close>): the bit store; destructors run in reverse order of registration.

  \<^item> \<open>Sprite_Ide\<close> (\<open>lib/ide.cc\<close>, \<open>lib/common.cc\<close>): the driver as an ordered log of port accesses and of the halts (\<open>cpu_hlt\<close>) in
  its busy loop. Up to 128 sectors are transferred faithfully in both directions and round trip, and a sector that cannot be
  read is reported.

  \<^item> \<open>Sprite_Lru\<close> (\<open>include/lrucache.hpp\<close>): ring, hash table and node pool. Lookup and allocation refine a list of keys in
  the order of their use; the locale \<open>cache\<close> is the contract, for callbacks that leave the cache alone.

  \<^item> \<open>Sprite_Evict\<close>: the callback of the file system does not leave the cache alone. The first eviction of a full block cache
  leaves a node that is its own predecessor, and two lookups later a cached block has dropped out of the queue.

  \<^item> \<open>Sprite_Fs\<close>, \<open>Sprite_Fs_List\<close>, \<open>Sprite_Fs_Init\<close>, \<open>Sprite_Fs_Sync\<close> (\<open>lib/fs.cc\<close>, \<open>include/fs.h\<close>): blocks, zones, directories, paths. The
  invariant \<^const>\<open>fs_ok\<close> says that every cached block agrees with the disk and that a number of further blocks can be
  cached without dropping one, which is where the callback of the cache would go wrong. Reading zones equals the
  zone map of the disk, \<open>namei\<close> refines the walk over the directories, \<open>list_entries\<close> returns and prints the tree below a directory, \<open>init_fs\<close> loads and \<open>sync_all\<close> stores the super
  block, the bitmaps and the inodes byte by byte, and the two round trip.

  \<^item> \<open>Sprite_Debug\<close> (\<open>include/multiboot.h\<close>, \<open>lib/elf.cc\<close>, \<open>lib/debug.cc\<close>, the listings of \<open>lib/pmm.cc\<close>): boot information, the
  lookup of symbols, stack traces.

  \<^item> \<open>Sprite_Kernel\<close> (\<open>init/entry.cc\<close>, the dispatchers of \<open>lib/idt.cc\<close>): the composed state, the temporary page tables, the
  order of initialisation, interrupt dispatch, and the step relation \<^const>\<open>kstep\<close> of the running kernel. The invariant
  \<^const>\<open>kernel_invar\<close> (frames belong to one page each and are not free, the cursor is on the screen, the task list is
  a ring with the running task on it, the handlers and the gates are installed) holds after initialisation and after every
  sequence of steps; page faults are served and timer interrupts switch tasks. \<^const>\<open>k_trace\<close> is the order of port writes
  and task switches. The heap is not among the 4 MB that \<open>init_vmm\<close> maps: after each operation of the initialisation that works on
  the heap, \<^const>\<open>touch_heap\<close> takes the page faults of the pages it has used, through the dispatcher and the installed
  handler, and so uses up frames and page tables; with less than two free pages the initialisation ends at the first store to
  the heap (\<open>kern_init_out_of_memory\<close>).

  \<^item> \<open>Sprite_Trap\<close>: the kernel and the processor together. A page fault goes through gate and stub to the dispatcher, which reads
  its argument from the stack, maps the page, and returns to the faulting instruction.

  \<^item> \<open>Sprite_Mount\<close>: the start of the whole system. With a drive that is present and working, and more than 4096 free pages (16 MB for
  the heap, and the page that is never handed out), the initialisation mounts the file system and establishes the invariants of
  the kernel and of the file system together, with every allocated byte of the heap mapped.

  \<^item> \<open>Sprite_Selftest\<close>: the test threads and \<open>test_vmm\<close> on the composed kernel.

  \<^bold>\<open>Not modelled.\<close> \<open>inw\<close> and \<open>insb\<close>, which nothing calls; \<open>atomic_t::reduce\<close>, which does not assemble, and \<open>atomic_t::set\<close>, which
  is an invalid instruction; the structure \<open>file\<close>, which nothing uses; \<open>is_same\<close> and \<open>enable_if\<close>, which have no run-time
  behaviour; the test of the cache in \<open>test/test.cc\<close>, which does not compile. The encoding of instructions and the machine code of
  the C++ functions: the assembly meets them in \<^const>\<open>cdecl_return\<close>. In the kernel's step relation interrupts are taken between
  steps and not inside of an operation, and device interrupts not during initialisation. Page faults of the initialisation are
  taken after the operation that causes them; the handler changes the dictionary and the free pages only, which these operations do
  not read. A running kernel's faults are steps of their own, with any address. The content of a physical page is that of the
  virtual address it is used at. Thread exit is a function of the scheduler and no step of \<^const>\<open>kstep\<close>, since the exit of the
  last thread faults and an ended thread continues at address 0.
\<close>

end
